(* ===== verification/JsNumber.thy ===== *)
theory JsNumber
  imports Prelude
begin

text \<open>
  The language's \<open>number\<close> (IEEE binary64), as far as the code uses it for money: a decimal
  literal read by \<open>Number(...)\<close> is rounded to the nearest double (ties to even), and
  \<open>toString()\<close> prints the shortest decimal that rounds back to the same double.  A finite number
  is represented by its exact rational value; the two zeros are identified (nothing in the code
  tells them apart).
\<close>

datatype js_number = JsFin rat | JsInf bool | JsNaN

section \<open>Logarithms\<close>

fun digit_count :: "nat \<Rightarrow> nat \<Rightarrow> nat" where
  "digit_count b n = (if n = 0 \<or> b \<le> 1 then 0 else Suc (digit_count b (n div b)))"

declare digit_count.simps [simp del]

text \<open>\<open>ilog b x\<close> is the exponent \<open>e\<close> with \<open>b powi e \<le> x < b powi (e + 1)\<close>, for positive \<open>x\<close>.\<close>

definition ilog :: "nat \<Rightarrow> rat \<Rightarrow> int" where
  "ilog b x =
     (let (p, q) = quotient_of x;
          e = int (digit_count b (nat p)) - int (digit_count b (nat q))
      in if of_nat b powi e \<le> x then e else e - 1)"

section \<open>Rounding to the nearest double\<close>

definition round_half_even :: "rat \<Rightarrow> int" where
  "round_half_even x =
     (let d = \<lfloor>x\<rfloor>; r = x - of_int d
      in if r < 1/2 \<or> (r = 1/2 \<and> even d) then d else d + 1)"

definition js_round :: "rat \<Rightarrow> js_number" where
  "js_round x =
     (if x = 0 then JsFin 0
      else
        let a = \<bar>x\<bar>;
            e = max (ilog 2 a - 52) (- 1074);
            y = of_int (round_half_even (a / 2 powi e)) * 2 powi e
        in if 2 powi 1024 \<le> y then JsInf (x < 0)
           else JsFin (if x < 0 then - y else y))"

section \<open>Shortest decimal representation\<close>

text \<open>
  The candidates with \<open>k\<close> significant digits are the two \<open>k\<close>-digit decimals around the number;
  the first \<open>k\<close> for which one of them rounds to the number is taken, and of two such candidates
  the closer one.  \<open>None\<close> would mean that no decimal of at most 17 digits rounds to it, which
  happens for no double.
\<close>

definition pick_digits :: "rat \<Rightarrow> int \<Rightarrow> nat \<Rightarrow> nat option" where
  "pick_digits a n k =
     (let u = 10 powi (n - int k);
          lo = \<lfloor>a / u\<rfloor>;
          ok = (\<lambda>s. js_round (of_int s * u) = JsFin a)
      in if ok lo \<and> (\<not> ok (lo + 1) \<or> a - of_int lo * u \<le> of_int (lo + 1) * u - a) then Some (nat lo)
         else if ok (lo + 1) then Some (nat (lo + 1))
         else None)"

fun first_digits :: "rat \<Rightarrow> int \<Rightarrow> nat list \<Rightarrow> (nat \<times> int) option" where
  "first_digits a n [] = None"
| "first_digits a n (k # ks) =
     (case pick_digits a n k of
        Some s \<Rightarrow> Some (s, n - int k)
      | None \<Rightarrow> first_digits a n ks)"

text \<open>The result \<open>(s, t)\<close> stands for the decimal \<open>s * 10 powi t\<close>.\<close>

definition shortest_digits :: "rat \<Rightarrow> (nat \<times> int) option" where
  "shortest_digits a = first_digits a (ilog 10 a + 1) [1..<18]"

fun strip_zeros :: "nat \<Rightarrow> int \<Rightarrow> nat \<times> int" where
  "strip_zeros s t = (if s = 0 \<or> s mod 10 \<noteq> 0 then (s, t) else strip_zeros (s div 10) (t + 1))"

declare strip_zeros.simps [simp del]

text \<open>The layout of ECMAScript's \<open>Number::toString\<close> from the digits and the decimal exponent.\<close>

definition layout_decimal :: "nat \<Rightarrow> int \<Rightarrow> string" where
  "layout_decimal s0 t0 =
     (let (s, t) = strip_zeros s0 t0;
          ds = show_nat s;
          k = length ds;
          n = int k + t
      in if int k \<le> n \<and> n \<le> 21 then ds @ replicate (nat t) (CHR ''0'')
         else if 0 < n \<and> n \<le> 21 then take (nat n) ds @ ''.'' @ drop (nat n) ds
         else if - 6 < n \<and> n \<le> 0 then ''0.'' @ replicate (nat (- n)) (CHR ''0'') @ ds
         else
           let ex = (if n - 1 < 0 then ''e-'' @ show_nat (nat (1 - n)) else ''e+'' @ show_nat (nat (n - 1)))
           in if k = 1 then ds @ ex else take 1 ds @ ''.'' @ drop 1 ds @ ex)"

definition js_to_string :: "js_number \<Rightarrow> string" where
  "js_to_string x =
     (case x of
        JsNaN \<Rightarrow> ''NaN''
      | JsInf neg \<Rightarrow> (if neg then ''-Infinity'' else ''Infinity'')
      | JsFin v \<Rightarrow>
          if v = 0 then ''0''
          else
            (case shortest_digits \<bar>v\<bar> of
               None \<Rightarrow> ''''
             | Some (s, t) \<Rightarrow> (if v < 0 then ''-'' else '''') @ layout_decimal s t))"

section \<open>Bounds of the logarithm\<close>

lemma digit_count_0 [simp]: "digit_count b 0 = 0"
  by (simp add: digit_count.simps)

lemma digit_count_step: "2 \<le> b \<Longrightarrow> 0 < n \<Longrightarrow> digit_count b n = Suc (digit_count b (n div b))"
  by (subst digit_count.simps) simp

lemma digit_count_bounds:
  assumes "2 \<le> b" "0 < n"
  shows "0 < digit_count b n \<and> b ^ (digit_count b n - 1) \<le> n \<and> n < b ^ digit_count b n"
  using assms
proof (induction b n rule: digit_count.induct)
  case (1 b n)
  have b: "2 \<le> b" and n: "0 < n" using 1 by auto
  have step: "digit_count b n = Suc (digit_count b (n div b))"
    using b n by (rule digit_count_step)
  show ?case
  proof (cases "n < b")
    case True
    then have "n div b = 0" by simp
    then have one: "digit_count b n = 1" using step by (simp only: digit_count_0 One_nat_def)
    show ?thesis unfolding one using n True by simp
  next
    case False
    with b have pos: "0 < n div b" by (simp add: div_greater_zero_iff)
    have "\<not> (n = 0 \<or> b \<le> 1)" using b n by simp
    from "1.IH" [OF this b pos]
    have ih: "0 < digit_count b (n div b)" "b ^ (digit_count b (n div b) - 1) \<le> n div b"
        "n div b < b ^ digit_count b (n div b)"
      by auto
    have "b ^ digit_count b (n div b) = b * b ^ (digit_count b (n div b) - 1)"
      using ih(1) by (cases "digit_count b (n div b)") simp_all
    also have "\<dots> \<le> b * (n div b)" using ih(2) by (rule mult_le_mono2)
    also have "\<dots> \<le> n" by simp
    finally have lower: "b ^ digit_count b (n div b) \<le> n" .
    have "n < b * b ^ digit_count b (n div b)"
      using ih(3) b by (metis div_less_iff_less_mult mult.commute not_gr_zero not_numeral_le_zero)
    with lower step show ?thesis by simp
  qed
qed

lemma ilog_bounds:
  assumes b: "2 \<le> b" and x: "0 < x"
  shows "of_nat b powi (ilog b x) \<le> x" "x < of_nat b powi (ilog b x + 1)"
proof -
  let ?b = "of_nat b :: rat"
  obtain p q where pq: "quotient_of x = (p, q)" by fastforce
  with quotient_of_denom_pos have q: "0 < q" by blast
  have xpq: "x = of_int p / of_int q" using pq by (rule quotient_of_div)
  with x q have p: "0 < p" by (simp add: zero_less_divide_iff)
  define P Q where "P = nat p" and "Q = nat q"
  define dp dq where "dp = digit_count b P" and "dq = digit_count b Q"
  have PQ: "0 < P" "0 < Q" and xPQ: "x = of_nat P / of_nat Q"
    using p q xpq by (simp_all add: P_def Q_def)
  have bp: "0 < dp" "b ^ (dp - 1) \<le> P" "P < b ^ dp" and bq: "0 < dq" "b ^ (dq - 1) \<le> Q" "Q < b ^ dq"
    using digit_count_bounds [OF b PQ(1)] digit_count_bounds [OF b PQ(2)]
    by (auto simp: dp_def dq_def)
  have b0: "0 < ?b" "?b \<noteq> 0" using b by simp_all
  have pow: "?b powi (int d - 1) = of_nat (b ^ (d - 1))" "?b powi (int d) = of_nat (b ^ d)" if d: "0 < d" for d
  proof -
    from d obtain d' where d': "d = Suc d'" by (cases d) auto
    then have "int d - 1 = int d'" by simp
    then show "?b powi (int d - 1) = of_nat (b ^ (d - 1))" by (simp only: power_int_of_nat d') simp
    show "?b powi (int d) = of_nat (b ^ d)" by (simp only: power_int_of_nat of_nat_power)
  qed
  have rp: "?b powi (int dp - 1) \<le> of_nat P" "of_nat P < ?b powi (int dp)"
    using bp by (simp_all only: pow of_nat_le_iff of_nat_less_iff)
  have rq: "?b powi (int dq - 1) \<le> of_nat Q" "of_nat Q < ?b powi (int dq)"
    using bq by (simp_all only: pow of_nat_le_iff of_nat_less_iff)
  have Q0: "(0::rat) < of_nat Q" using PQ by simp
  have "x < ?b powi (int dp) / ?b powi (int dq - 1)"
    unfolding xPQ using rp rq Q0 b0
    by (intro frac_less) (simp_all add: zero_less_power_int)
  also have "\<dots> = ?b powi (int dp - int dq + 1)"
    using b0 by (simp add: power_int_diff power_int_add)
  finally have up: "x < ?b powi (int dp - int dq + 1)" .
  have "?b powi (int dp - int dq - 1) = ?b powi (int dp - 1) / ?b powi (int dq)"
    using b0 by (simp add: power_int_diff power_int_add field_simps)
  also have "\<dots> \<le> x"
    unfolding xPQ using rp rq Q0 b0
    by (intro frac_le) (simp_all add: less_imp_le)
  finally have lo: "?b powi (int dp - int dq - 1) \<le> x" .
  have il: "ilog b x = (if ?b powi (int dp - int dq) \<le> x then int dp - int dq else int dp - int dq - 1)"
    by (simp add: ilog_def pq dp_def dq_def P_def Q_def Let_def)
  show "?b powi (ilog b x) \<le> x" "x < ?b powi (ilog b x + 1)"
    using up lo il by (auto split: if_splits)
qed

lemma ilog_unique:
  assumes b: "2 \<le> b" and e: "of_nat b powi e \<le> x" "x < of_nat b powi (e + 1)"
  shows "ilog b x = e"
proof -
  have b1: "(1::rat) < of_nat b" using b by simp
  then have "0 < x" using e(1) by (meson less_le_trans of_nat_0_less_iff order_less_trans zero_less_one zero_less_power_int)
  note il = ilog_bounds [OF b this]
  have "of_nat b powi e < (of_nat b :: rat) powi (ilog b x + 1)"
    and "of_nat b powi (ilog b x) < (of_nat b :: rat) powi (e + 1)"
    using il e by linarith+
  then have "e < ilog b x + 1" and "ilog b x < e + 1"
    using b1 by (meson less_le_not_le linorder_not_less order_less_imp_le power_int_increasing)+
  then show ?thesis by simp
qed

section \<open>Accuracy of the rounding\<close>

lemma round_half_even_error: "\<bar>of_int (round_half_even x) - x\<bar> \<le> 1/2"
  using floor_correct [of x]
  by (auto simp: round_half_even_def Let_def abs_le_iff split: if_splits)

text \<open>Small integers are doubles; for evaluation this spares the search for the exponent.\<close>

lemma round_half_even_int [simp]: "round_half_even (of_int z) = z"
  by (simp add: round_half_even_def)

lemma js_round_integer:
  assumes "\<bar>p\<bar> < 2 ^ 53"
  shows "js_round (of_int p) = JsFin (of_int p)"
proof (cases "p = 0")
  case False
  define a where "a = (of_int \<bar>p\<bar> :: rat)"
  have a: "0 < a" "a < 2 ^ 53" using assms False unfolding a_def by (simp, metis of_int_less_iff of_int_numeral of_int_power)
  have "2 powi ilog 2 a < (2 :: rat) powi 53" using ilog_bounds(1) [of 2 a] a by simp
  then have l: "ilog 2 a < 53" by (metis linorder_not_less one_le_numeral power_int_increasing)
  define e where "e = max (ilog 2 a - 52) (- 1074)"
  have "e \<le> 0" using l by (simp add: e_def)
  then obtain k where e: "e = - int k" by (metis nonpos_int_cases)
  have "a / 2 powi e = of_int (\<bar>p\<bar> * 2 ^ k)" by (simp add: e a_def power_int_minus field_simps)
  then have "of_int (round_half_even (a / 2 powi e)) * 2 powi e = a"
    by (simp only: round_half_even_int) (simp add: e a_def power_int_minus)
  note y = this
  have "a < 2 powi 1024" using a(2) by (rule less_trans) simp
  then have big: "\<not> 2 powi 1024 \<le> a" by (simp only: not_le)
  have abs: "\<bar>of_int p\<bar> = a" by (simp add: a_def)
  have "js_round (of_int p) = (if (of_int p :: rat) = 0 then JsFin 0
      else if (2 :: rat) powi 1024 \<le> of_int (round_half_even (a / 2 powi e)) * 2 powi e then JsInf (of_int p < (0 :: rat))
      else JsFin (if of_int p < (0 :: rat) then - (of_int (round_half_even (a / 2 powi e)) * 2 powi e)
        else of_int (round_half_even (a / 2 powi e)) * 2 powi e))"
    unfolding js_round_def Let_def abs e_def by (rule refl)
  then have "js_round (of_int p) = JsFin (if of_int p < (0 :: rat) then - a else a)"
    unfolding y using False big by (simp only: of_int_eq_0_iff if_False)
  then show ?thesis by (simp add: a_def)
qed (simp add: js_round_def)

lemma js_round_code [code]:
  "js_round x =
     (let (p, q) = quotient_of x
      in if q = 1 \<and> \<bar>p\<bar> < 9007199254740992 then JsFin x
      else if x = 0 then JsFin 0
      else
        let a = \<bar>x\<bar>;
            e = max (ilog 2 a - 52) (- 1074);
            y = of_int (round_half_even (a / 2 powi e)) * 2 powi e
        in if 2 powi 1024 \<le> y then JsInf (x < 0)
           else JsFin (if x < 0 then - y else y))"
proof (cases "quotient_of x")
  case (Pair p q)
  show ?thesis
  proof (cases "q = 1 \<and> \<bar>p\<bar> < 9007199254740992")
    case True
    then have "x = of_int p" using quotient_of_div [OF Pair] by simp
    then show ?thesis using js_round_integer [of p] True Pair by simp
  next
    case False
    then show ?thesis by (simp only: Pair js_round_def Let_def split_conv if_False)
  qed
qed

lemma js_round_near:
  assumes x: "1/10000 \<le> x" "x \<le> 10 ^ 15"
  shows "\<exists>y. js_round x = JsFin y \<and> \<bar>y - x\<bar> \<le> x / 2 ^ 53"
proof -
  have x0: "0 < x" using x by simp
  define l where "l = ilog 2 x"
  have lb: "2 powi l \<le> x" and ub: "x < 2 powi (l + 1)"
    using ilog_bounds [of 2 x] x0 by (simp_all add: l_def)
  have l1: "- 20 \<le> l"
  proof (rule ccontr)
    assume "\<not> ?thesis"
    then have "2 powi (l + 1) \<le> (2 :: rat) powi (- 20)" by (intro power_int_increasing) auto
    also have "(2 :: rat) powi (- 20) < 1/10000" by (simp add: power_int_minus)
    finally show False using ub x by simp
  qed
  then have e: "max (ilog 2 x - 52) (- 1074) = l - 52" by (simp add: l_def)
  define u :: rat where "u = 2 powi (l - 52)"
  define y where "y = of_int (round_half_even (x / u)) * u"
  have u0: "0 < u" by (simp add: u_def zero_less_power_int)
  have "\<bar>y - x\<bar> = \<bar>of_int (round_half_even (x / u)) - x / u\<bar> * u"
    using u0 by (simp add: y_def abs_mult_pos left_diff_distrib flip: abs_mult)
  also have "\<dots> \<le> (1/2) * u"
    using u0 by (intro mult_right_mono round_half_even_error) simp
  also have "u = 2 powi l / 2 ^ 52"
    by (simp add: u_def power_int_diff)
  also have "(1/2) * (2 powi l / 2 ^ 52) \<le> x / 2 ^ 53"
    using lb by simp
  finally have err: "\<bar>y - x\<bar> \<le> x / 2 ^ 53" .
  have "y \<le> x + x / 2 ^ 53" using abs_le_D1 [OF err] by linarith
  also have "\<dots> \<le> 2 * 10 ^ 15" using x by simp
  also have "\<dots> < (2 :: rat) powi 1024" by simp
  finally have "y < 2 powi 1024" .
  with x0 have "js_round x = JsFin y"
    by (simp add: js_round_def Let_def e u_def y_def)
  with err show ?thesis by blast
qed

lemma pick_digits_Some:
  assumes "pick_digits a n k = Some s" and a: "0 \<le> a"
  shows "js_round (of_int (int s) * 10 powi (n - int k)) = JsFin a
    \<and> (int s = \<lfloor>a / 10 powi (n - int k)\<rfloor> \<or> int s = \<lfloor>a / 10 powi (n - int k)\<rfloor> + 1)"
proof -
  have "0 \<le> a / 10 powi (n - int k)" using a by (simp add: zero_le_power_int)
  then have nn: "0 \<le> \<lfloor>a / 10 powi (n - int k)\<rfloor>" by simp
  show ?thesis
    using assms nn by (auto simp: pick_digits_def Let_def split: if_splits)
qed

lemma pick_digits_exists:
  assumes "js_round (of_int s * 10 powi (n - int k)) = JsFin a"
    and "s = \<lfloor>a / 10 powi (n - int k)\<rfloor> \<or> s = \<lfloor>a / 10 powi (n - int k)\<rfloor> + 1"
  shows "pick_digits a n k \<noteq> None"
  using assms by (auto simp: pick_digits_def Let_def)

lemma first_digits_Some:
  assumes "first_digits a n ks = Some (s, t)"
  shows "\<exists>k. k \<in> set ks \<and> pick_digits a n k = Some s \<and> t = n - int k"
  using assms by (induction ks) (auto split: option.splits)

lemma first_digits_prefix:
  assumes "k \<in> set ks" "pick_digits a n k \<noteq> None"
  shows "first_digits a n (ks @ ks') = first_digits a n ks \<and> first_digits a n ks \<noteq> None"
  using assms by (induction ks) (auto split: option.splits)

section \<open>Amounts in hundredths survive the decimal detour\<close>

text \<open>
  For an amount of at least 0.01 and below ten trillion, the shortest decimal of the nearest
  double is the amount itself: two decimals with at most 15 significant digits that round to the
  same double are equal, because they lie closer to each other than one unit in the 15th digit.
\<close>

lemma multiple_small_zero:
  fixes v :: rat
  assumes "\<bar>of_int i * v\<bar> < v" shows "i = 0"
proof (rule ccontr)
  assume "i \<noteq> 0"
  then have "1 \<le> \<bar>i\<bar>" by simp
  then have "(1 :: rat) \<le> \<bar>of_int i\<bar>" by linarith
  moreover have v: "0 < v" using assms by (meson abs_ge_zero le_less_trans)
  ultimately have "v \<le> \<bar>of_int i\<bar> * v" by simp
  with assms v show False by (simp add: abs_mult)
qed

lemma cents_exponent:
  fixes d :: rat
  assumes x: "x = of_int k / 100" "1 \<le> k" "k < 10 ^ 15" and d: "\<bar>d - x\<bar> \<le> x / 2 ^ 53"
    and n: "n = ilog 10 d + 1"
  shows "0 < d" "1/200 \<le> d" "10 powi (n - 1) \<le> d" "d < 10 powi n" "n \<le> 13" "x \<le> 2 * d" "d \<le> 2 * x"
proof -
  have k: "(1 :: rat) \<le> of_int k" "of_int k \<le> (10 ^ 15 - 1 :: rat)"
    using x(2,3) by (metis of_int_1 of_int_le_iff, simp)
  have dl: "x - x / 2 ^ 53 \<le> d" and du: "d \<le> x + x / 2 ^ 53"
    using d by linarith+
  show d0: "0 < d" and "1/200 \<le> d" and "x \<le> 2 * d" and "d \<le> 2 * x"
    using dl du k x(1) by simp_all
  show lo: "10 powi (n - 1) \<le> d" and "d < 10 powi n"
    using ilog_bounds [of 10 d] d0 by (simp_all add: n)
  have "d < 10 powi 13" using du k x(1) by simp
  with lo have "(10 :: rat) powi (n - 1) < 10 powi 13" by simp
  then have "n - 1 < 13" by (intro power_int_le_imp_less_exp [of "10 :: rat"]) auto
  then show "n \<le> 13" by simp
qed

lemma power_int_split:
  assumes "i + int m = j" shows "(10 :: rat) powi j = 10 ^ m * 10 powi i"
proof -
  have "(10 :: rat) powi (i + int m) = 10 powi i * 10 powi int m" by (intro power_int_add) simp
  with assms show ?thesis by (simp only: power_int_of_nat mult.commute)
qed

lemma cents_unit:
  assumes "n \<le> 13" shows "of_int k / 100 = of_int k * ((10 :: rat) ^ nat (13 - n) * 10 powi (n - 15))"
proof -
  have "(10 :: rat) powi (- 2) = 10 ^ nat (13 - n) * 10 powi (n - 15)"
    using assms by (intro power_int_split) simp
  moreover have "(10 :: rat) powi (- 2) = 1 / 100" by (simp add: power_int_def power2_eq_square)
  ultimately have "10 ^ nat (13 - n) * 10 powi (n - 15) = (1 / 100 :: rat)" by (simp only:)
  then show ?thesis by (simp only: mult.right_neutral times_divide_eq_right)
qed

lemma picked_candidate:
  fixes d :: rat
  assumes x: "x = of_int k / 100" "1 \<le> k" "k < 10 ^ 15" and d: "\<bar>d - x\<bar> \<le> x / 2 ^ 53"
    and n: "n = ilog 10 d + 1" and kk: "1 \<le> kk" "kk \<le> 15" and pick: "pick_digits d n kk = Some s"
  shows "of_nat s * 10 powi (n - int kk) = x"
proof -
  note ex = cents_exponent [OF x d n]
  define u v :: rat where "u = 10 powi (n - int kk)" and "v = 10 powi (n - 15)"
  define c where "c = of_nat s * u"
  have u0: "0 < u" and v0: "0 < v" by (simp_all add: u_def v_def zero_less_power_int)
  have nu: "10 powi (n - 1) = 10 ^ (kk - 1) * u"
    unfolding u_def using kk by (intro power_int_split) auto
  have vn: "10 powi n = 10 ^ 15 * v" unfolding v_def by (intro power_int_split) simp
  from pick_digits_Some [OF pick] ex(1)
  have rc: "js_round c = JsFin d" and s: "int s = \<lfloor>d / u\<rfloor> \<or> int s = \<lfloor>d / u\<rfloor> + 1"
    by (auto simp: c_def u_def)
  have "of_int (10 ^ (kk - 1)) \<le> d / u"
    using ex(3) u0 by (simp add: nu pos_le_divide_eq)
  then have "10 ^ (kk - 1) \<le> \<lfloor>d / u\<rfloor>" by (simp only: le_floor_iff)
  then have "10 ^ (kk - 1) \<le> int s" using s by linarith
  then have "(10 :: rat) ^ (kk - 1) \<le> of_nat s"
    by (metis of_int_le_iff of_int_numeral of_int_of_nat_eq of_int_power)
  then have c_lo: "10 powi (n - 1) \<le> c" using u0 by (simp add: nu c_def)
  have "10 powi n = 10 * (10 :: rat) powi (n - 1)" using power_int_split [of "n - 1" 1 n] by simp
  then have c1: "1/10000 \<le> c" using ex(2,4) c_lo by simp
  have "u \<le> 10 powi (n - 1)" using kk u0 by (simp add: nu one_le_power)
  then have ud: "u \<le> d" using ex(3) by simp
  have "of_nat s \<le> d / u + 1" using s by linarith
  then have "c \<le> d + u" using u0 by (simp add: c_def field_simps)
  then have c2: "c \<le> 2 * d" using ud by simp
  have "d < 2 * 10 ^ 13" using ex(7) x by simp
  with c2 have "c \<le> 10 ^ 15" by simp
  from js_round_near [OF c1 this] rc have "\<bar>d - c\<bar> \<le> c / 2 ^ 53" by auto
  then have "\<bar>c - x\<bar> \<le> c / 2 ^ 53 + x / 2 ^ 53" using d by linarith
  also have "\<dots> \<le> 4 * d / 2 ^ 53" using c2 ex(6) by simp
  also have "\<dots> < v" using ex(4) vn v0 by simp
  finally have close: "\<bar>c - x\<bar> < v" .
  have "u = 10 ^ (15 - kk) * v" unfolding u_def v_def using kk by (intro power_int_split) auto
  moreover have "x = of_int k * (10 ^ (nat (13 - n)) * v)"
    unfolding x(1) v_def by (rule cents_unit [OF ex(5)])
  ultimately have "c - x = of_int (int s * 10 ^ (15 - kk) - k * 10 ^ nat (13 - n)) * v"
    by (simp add: c_def algebra_simps)
  with close multiple_small_zero have "c - x = 0" by (metis mult_zero_left of_int_0)
  then show ?thesis by (simp add: c_def u_def)
qed

lemma shortest_digits_cents:
  assumes x: "x = of_int k / 100" "1 \<le> k" "k < 10 ^ 15"
  shows "\<exists>d s t. js_round x = JsFin d \<and> 0 < d \<and> shortest_digits d = Some (s, t) \<and> of_nat s * 10 powi t = x"
proof -
  have kb: "(1 :: rat) \<le> of_int k" "of_int k < (10 ^ 15 :: rat)"
    using x(2,3) by (metis of_int_1 of_int_le_iff, metis of_int_less_iff of_int_numeral of_int_power)
  obtain d where rx: "js_round x = JsFin d" and d: "\<bar>d - x\<bar> \<le> x / 2 ^ 53"
    using js_round_near [of x] x(1) kb by auto
  define n where "n = ilog 10 d + 1"
  note ex = cents_exponent [OF x d n_def]
  define v :: rat where "v = 10 powi (n - 15)"
  have v0: "0 < v" by (simp add: v_def zero_less_power_int)
  have vn: "10 powi n = 10 ^ 15 * v" unfolding v_def by (intro power_int_split) simp
  define i where "i = k * 10 ^ nat (13 - n)"
  have "x = of_int k * (10 ^ (nat (13 - n)) * v)"
    unfolding x(1) v_def by (rule cents_unit [OF ex(5)])
  then have xi: "x = of_int i * v" by (simp add: i_def)
  have "\<bar>d - x\<bar> < v" using d ex(4,6) vn v0 by simp
  then have "\<bar>d / v - of_int i\<bar> < 1"
    using v0 by (simp add: xi abs_less_iff field_simps)
  then have "i = \<lfloor>d / v\<rfloor> \<or> i = \<lfloor>d / v\<rfloor> + 1" by linarith
  then have p15: "pick_digits d n 15 \<noteq> None"
    using rx xi by (intro pick_digits_exists [where s = i]) (simp_all add: v_def)
  have range: "[1..<18] = [1..<16] @ [16, 17]" by (simp add: upt_rec)
  have "shortest_digits d = first_digits d n [1..<16]" "first_digits d n [1..<16] \<noteq> None"
    unfolding shortest_digits_def n_def [symmetric] range
    using first_digits_prefix [of 15 "[1..<16]" d n, OF _ p15] by simp_all
  then obtain s t where st: "shortest_digits d = Some (s, t)" "first_digits d n [1..<16] = Some (s, t)"
    by auto
  then obtain kk where "kk \<in> set [1..<16]" "pick_digits d n kk = Some s" "t = n - int kk"
    using first_digits_Some by blast
  then have "of_nat s * 10 powi t = x"
    using picked_candidate [OF x d n_def, of kk s] by auto
  with rx ex(1) st(1) show ?thesis by blast
qed

end
