(* ===== verification/Money.thy ===== *)
theory Money
  imports JsNumber
begin

text \<open>
  \<open>src/common/money/money.ts\<close>: amounts as strings or numbers, parsed to an integer number of
  minor units (hundredths) and formatted back.  Bigints are \<open>int\<close>.
\<close>

section \<open>String primitives\<close>

definition js_space :: "char \<Rightarrow> bool" where
  "js_space c = ((of_char c :: nat) \<in> {9, 10, 11, 12, 13, 32, 160})"

definition js_trim :: "string \<Rightarrow> string" where
  "js_trim s = rev (dropWhile js_space (rev (dropWhile js_space s)))"

fun str_split :: "char \<Rightarrow> string \<Rightarrow> string list" where
  "str_split c [] = [[]]"
| "str_split c (x # xs) =
     (if x = c then [] # str_split c xs
      else (case str_split c xs of [] \<Rightarrow> [[x]] | y # ys \<Rightarrow> (x # y) # ys))"

definition pad_end :: "nat \<Rightarrow> char \<Rightarrow> string \<Rightarrow> string" where
  "pad_end n c s = s @ replicate (n - length s) c"

definition pad_start :: "nat \<Rightarrow> char \<Rightarrow> string \<Rightarrow> string" where
  "pad_start n c s = replicate (n - length s) c @ s"

definition starts_with :: "string \<Rightarrow> string \<Rightarrow> bool" where
  "starts_with p s = (take (length p) s = p)"

text \<open>\<open>Number(s)\<close> on a decimal literal: an optional sign, digits, and an optional fraction.\<close>

definition js_Number :: "string \<Rightarrow> js_number" where
  "js_Number s =
     (let neg = starts_with ''-'' s;
          u = (if neg then tl s else s);
          w = takeWhile is_digit u;
          r = dropWhile is_digit u;
          f = tl r
      in if w \<noteq> [] \<and> (r = [] \<or> hd r = CHR ''.'' \<and> f \<noteq> [] \<and> list_all is_digit f)
         then js_round ((if neg then - 1 else 1) * of_nat (digits_value (w @ f)) / 10 ^ length f)
         else JsNaN)"

section \<open>The module\<close>

datatype money_input = NumberAmount js_number | StringAmount string

definition MONEY_SCALE :: nat where
  "MONEY_SCALE = 2"

text \<open>\<open>MONEY_PATTERN\<close>: an optional minus, at least one digit, an optional point with one or two digits.\<close>

definition MONEY_PATTERN :: "string \<Rightarrow> bool" where
  "MONEY_PATTERN s =
     (let u = (if starts_with ''-'' s then tl s else s);
          r = dropWhile is_digit u
      in takeWhile is_digit u \<noteq> [] \<and>
         (case r of
            [] \<Rightarrow> True
          | c # ds \<Rightarrow> c = CHR ''.'' \<and> list_all is_digit ds \<and> 1 \<le> length ds \<and> length ds \<le> 2))"

definition input_text :: "money_input \<Rightarrow> string" where
  "input_text v = (case v of NumberAmount x \<Rightarrow> js_to_string x | StringAmount s \<Rightarrow> s)"

definition normalizeMoneyInput :: "money_input \<Rightarrow> string result" where
  "normalizeMoneyInput v =
     (let normalized = (case v of NumberAmount x \<Rightarrow> js_to_string x | StringAmount s \<Rightarrow> js_trim s)
      in if \<not> MONEY_PATTERN normalized
         then Inl (GenericError (''Invalid money amount: '' @ input_text v))
         else Inr normalized)"

definition parseMoneyToMinorUnits :: "money_input \<Rightarrow> int result" where
  "parseMoneyToMinorUnits v =
     bind_result (normalizeMoneyInput v) (\<lambda>normalized.
       let negative = starts_with ''-'' normalized;
           unsigned = (if negative then tl normalized else normalized);
           parts = str_split (CHR ''.'') unsigned;
           wholePart = parts ! 0;
           fractionPart = (if 1 < length parts then parts ! 1 else '''');
           paddedFraction = pad_end MONEY_SCALE (CHR ''0'') fractionPart;
           minorUnits = int (digits_value (wholePart @ paddedFraction))
       in Inr (if negative then - minorUnits else minorUnits))"

definition formatMinorUnitsToMoney :: "int \<Rightarrow> string" where
  "formatMinorUnitsToMoney minorUnits =
     (let negative = minorUnits < 0;
          absolute = (if negative then - minorUnits else minorUnits);
          raw = pad_start (MONEY_SCALE + 1) (CHR ''0'') (show_int absolute);
          whole = take (length raw - MONEY_SCALE) raw;
          fraction = drop (length raw - MONEY_SCALE) raw
      in (if negative then ''-'' else '''') @ whole @ ''.'' @ fraction)"

definition minorUnitsToNumber :: "int \<Rightarrow> js_number" where
  "minorUnitsToNumber minorUnits = js_Number (formatMinorUnitsToMoney minorUnits)"

definition parseMoneyToNumber :: "money_input \<Rightarrow> js_number result" where
  "parseMoneyToNumber v =
     bind_result (parseMoneyToMinorUnits v) (\<lambda>m. Inr (js_Number (formatMinorUnitsToMoney m)))"

text \<open>The helpers are unfolded only where a lemma says so.\<close>

section \<open>Decimal texts\<close>

text \<open>The text with sign \<open>neg\<close>, integer digits \<open>w\<close> and fraction digits \<open>f\<close>.\<close>

definition decimal_text :: "bool \<Rightarrow> string \<Rightarrow> string \<Rightarrow> string" where
  "decimal_text neg w f =
     (if neg then ''-'' else '''') @ w @ (if f = '''' then '''' else CHR ''.'' # f)"

lemma digit_not_special [simp]:
  "is_digit (CHR ''.'') = False" "is_digit (CHR ''-'') = False" "is_digit (CHR ''e'') = False"
  "is_digit (CHR ''I'') = False" "is_digit (CHR ''N'') = False" "is_digit (CHR ''0'') = True"
  by (simp_all add: is_digit_def)

lemma digit_not_space: "is_digit c \<Longrightarrow> \<not> js_space c"
  by (auto simp: is_digit_def js_space_def)

lemma starts_with_minus [simp]: "starts_with ''-'' s \<longleftrightarrow> (\<exists>t. s = CHR ''-'' # t)"
  by (cases s) (auto simp: starts_with_def)

lemma takeWhile_digits:
  "list_all is_digit w \<Longrightarrow> (r = [] \<or> \<not> is_digit (hd r)) \<Longrightarrow> takeWhile is_digit (w @ r) = w"
  "list_all is_digit w \<Longrightarrow> (r = [] \<or> \<not> is_digit (hd r)) \<Longrightarrow> dropWhile is_digit (w @ r) = r"
  by (induction w) (auto, (cases r, auto)+)

lemma str_split_none: "c \<notin> set w \<Longrightarrow> str_split c w = [w]"
  by (induction w) auto

lemma str_split_app: "c \<notin> set w \<Longrightarrow> str_split c (w @ c # r) = w # str_split c r"
  by (induction w) (auto split: list.splits)

lemma digits_no_point: "list_all is_digit w \<Longrightarrow> CHR ''.'' \<notin> set w"
  by (auto simp: list_all_iff)

lemma unsigned_decimal:
  assumes "w \<noteq> ''''" "list_all is_digit w"
  shows "(if starts_with ''-'' (decimal_text neg w f) then tl (decimal_text neg w f) else decimal_text neg w f)
     = w @ (if f = '''' then '''' else CHR ''.'' # f)"
    and "starts_with ''-'' (decimal_text neg w f) = neg"
  using assms by (cases w; auto simp: decimal_text_def)+

lemma MONEY_PATTERN_decimal:
  assumes "w \<noteq> ''''" "list_all is_digit w"
  shows "MONEY_PATTERN (decimal_text neg w f) \<longleftrightarrow> list_all is_digit f \<and> length f \<le> 2"
proof -
  define r where "r = (if f = '''' then '''' else CHR ''.'' # f)"
  have r: "r = [] \<or> \<not> is_digit (hd r)" by (simp add: r_def)
  show ?thesis
    unfolding MONEY_PATTERN_def Let_def unsigned_decimal(1) [OF assms] r_def [symmetric]
      takeWhile_digits [OF assms(2) r]
    using assms(1) by (cases f) (auto simp: r_def)
qed

lemma MONEY_PATTERN_shape:
  assumes "MONEY_PATTERN s"
  shows "\<exists>neg w f. s = decimal_text neg w f \<and> w \<noteq> '''' \<and> list_all is_digit w \<and> list_all is_digit f \<and> length f \<le> 2"
proof -
  define neg u where "neg = starts_with ''-'' s" and "u = (if neg then tl s else s)"
  define w r where "w = takeWhile is_digit u" and "r = dropWhile is_digit u"
  have s: "s = (if neg then ''-'' else '''') @ w @ r"
    by (auto simp: neg_def u_def w_def r_def)
  have w: "list_all is_digit w" by (auto simp: w_def list_all_iff dest: set_takeWhileD)
  from assms have r: "w \<noteq> ''''" "r = [] \<or> (\<exists>ds. r = CHR ''.'' # ds \<and> list_all is_digit ds \<and> 1 \<le> length ds \<and> length ds \<le> 2)"
    unfolding MONEY_PATTERN_def Let_def neg_def [symmetric] u_def [symmetric] w_def [symmetric] r_def [symmetric]
    by (auto split: list.splits)
  then show ?thesis
  proof (elim disjE exE conjE)
    assume "r = []"
    with s w r(1) show ?thesis by (intro exI [of _ neg] exI [of _ w] exI [of _ "''''"]) (simp add: decimal_text_def)
  next
    fix ds assume "r = CHR ''.'' # ds" "list_all is_digit ds" "1 \<le> length ds" "length ds \<le> 2"
    with s w r(1) show ?thesis
      by (intro exI [of _ neg] exI [of _ w] exI [of _ ds]) (auto simp: decimal_text_def)
  qed
qed

lemma js_trim_decimal:
  assumes "w \<noteq> ''''" "list_all is_digit w" "list_all is_digit f"
  shows "js_trim (decimal_text neg w f) = decimal_text neg w f"
proof -
  let ?s = "decimal_text neg w f"
  have no: "\<not> js_space c" if "c \<in> set ?s" for c
    using that assms digit_not_space
    by (auto simp: decimal_text_def list_all_iff js_space_def split: if_splits)
  then have "dropWhile js_space ?s = ?s" by (metis dropWhile_eq_self_iff hd_in_set)
  moreover have "dropWhile js_space (rev ?s) = rev ?s"
    using no by (metis dropWhile_eq_self_iff hd_in_set set_rev)
  ultimately show ?thesis by (simp add: js_trim_def)
qed

section \<open>Parsing and formatting\<close>

definition minor_units_of :: "bool \<Rightarrow> string \<Rightarrow> string \<Rightarrow> int" where
  "minor_units_of neg w f =
     (if neg then - 1 else 1) * int (digits_value (w @ pad_end MONEY_SCALE (CHR ''0'') f))"

lemma parse_normalized:
  assumes "normalizeMoneyInput v = Inr (decimal_text neg w f)" "w \<noteq> ''''" "list_all is_digit w"
    "list_all is_digit f"
  shows "parseMoneyToMinorUnits v = Inr (minor_units_of neg w f)"
proof -
  define parts where "parts = str_split (CHR ''.'') (w @ (if f = '''' then '''' else CHR ''.'' # f))"
  have parts: "parts = (if f = '''' then [w] else [w, f])"
    using assms(3,4) by (simp add: parts_def str_split_none str_split_app digits_no_point)
  show ?thesis
    unfolding parseMoneyToMinorUnits_def assms(1) bind_result_simps Let_def
    unfolding unsigned_decimal(1) [OF assms(2,3)]
    unfolding unsigned_decimal(2) [OF assms(2,3)] parts_def [symmetric] parts
    by (simp add: minor_units_of_def)
qed

lemma normalize_string_decimal:
  assumes "w \<noteq> ''''" "list_all is_digit w" "list_all is_digit f" "length f \<le> 2"
  shows "normalizeMoneyInput (StringAmount (decimal_text neg w f)) = Inr (decimal_text neg w f)"
  using assms by (simp add: normalizeMoneyInput_def MONEY_PATTERN_decimal js_trim_decimal)

lemma normalize_shape:
  assumes "normalizeMoneyInput v = Inr s"
  shows "\<exists>neg w f. s = decimal_text neg w f \<and> w \<noteq> '''' \<and> list_all is_digit w \<and> list_all is_digit f \<and> length f \<le> 2"
  using assms by (intro MONEY_PATTERN_shape) (auto simp: normalizeMoneyInput_def Let_def split: if_splits)

lemma minor_units_digits:
  assumes "length f \<le> 2"
  shows "of_int (minor_units_of neg w f) / 100
     = (if neg then - 1 else 1) * (of_nat (digits_value (w @ f)) / 10 ^ length f :: rat)"
proof -
  have "digits_value (w @ pad_end MONEY_SCALE (CHR ''0'') f) = digits_value (w @ f) * 10 ^ (2 - length f)"
    using digits_value_append [of "w @ f" "replicate (2 - length f) (CHR ''0'')"]
      digits_value_zeros [of "2 - length f" "[]"]
    by (simp add: pad_end_def MONEY_SCALE_def)
  moreover have "(10 :: rat) ^ (2 - length f) * 10 ^ length f = 100"
    using assms by (simp flip: power_add)
  then have "(10 :: rat) ^ (2 - length f) / 100 = 1 / 10 ^ length f"
    by (simp add: frac_eq_eq eq_divide_eq)
  ultimately show ?thesis
    by (simp add: minor_units_of_def of_nat_power)
qed

lemma format_shape:
  shows "\<exists>w f. formatMinorUnitsToMoney m = decimal_text (m < 0) w f \<and> w \<noteq> '''' \<and> list_all is_digit w
     \<and> list_all is_digit f \<and> length f = 2 \<and> digits_value (w @ f) = nat \<bar>m\<bar>"
proof -
  define raw where "raw = pad_start (MONEY_SCALE + 1) (CHR ''0'') (show_nat (nat \<bar>m\<bar>))"
  define w f where "w = take (length raw - 2) raw" and "f = drop (length raw - 2) raw"
  have len: "3 \<le> length raw" by (simp add: raw_def pad_start_def MONEY_SCALE_def)
  have "w @ f = raw" unfolding w_def f_def by (rule append_take_drop_id)
  then have val: "digits_value (w @ f) = nat \<bar>m\<bar>" by (simp add: raw_def pad_start_def)
  have dig: "list_all is_digit raw" by (simp add: raw_def pad_start_def list_all_iff) (use show_nat_digits in \<open>auto simp: list_all_iff\<close>)
  have "list_all is_digit w \<and> list_all is_digit f"
    using dig unfolding w_def f_def by (metis append_take_drop_id list_all_append)
  moreover have "length f = 2" "w \<noteq> ''''" using len by (auto simp: w_def f_def)
  moreover have "formatMinorUnitsToMoney m = decimal_text (m < 0) w f"
    using \<open>length f = 2\<close>
    by (auto simp: formatMinorUnitsToMoney_def decimal_text_def Let_def show_int_def raw_def w_def f_def MONEY_SCALE_def)
  ultimately show ?thesis using val by blast
qed

lemma parse_format [simp]: "parseMoneyToMinorUnits (StringAmount (formatMinorUnitsToMoney m)) = Inr m"
proof -
  obtain w f where wf: "formatMinorUnitsToMoney m = decimal_text (m < 0) w f" "w \<noteq> ''''" "list_all is_digit w"
      "list_all is_digit f" "length f = 2" "digits_value (w @ f) = nat \<bar>m\<bar>"
    using format_shape by blast
  then have "parseMoneyToMinorUnits (StringAmount (formatMinorUnitsToMoney m)) = Inr (minor_units_of (m < 0) w f)"
    by (intro parse_normalized) (simp_all add: normalize_string_decimal)
  then show ?thesis using wf by (simp add: minor_units_of_def pad_end_def MONEY_SCALE_def)
qed

lemma js_Number_decimal:
  assumes "w \<noteq> ''''" "list_all is_digit w" "list_all is_digit f"
  shows "js_Number (decimal_text neg w f) =
    js_round ((if neg then - 1 else 1) * of_nat (digits_value (w @ f)) / 10 ^ length f)"
proof -
  define r where "r = (if f = '''' then '''' else CHR ''.'' # f)"
  have r: "r = [] \<or> \<not> is_digit (hd r)" by (simp add: r_def)
  show ?thesis
    unfolding js_Number_def Let_def
    unfolding unsigned_decimal(1) [OF assms(1,2)]
    unfolding unsigned_decimal(2) [OF assms(1,2)] r_def [symmetric] takeWhile_digits [OF assms(2) r]
    using assms(1,3) by (cases f) (auto simp: r_def)
qed

lemma minorUnitsToNumber_round: "minorUnitsToNumber m = js_round (of_int m / 100)"
proof -
  obtain w f where wf: "formatMinorUnitsToMoney m = decimal_text (m < 0) w f" "w \<noteq> ''''" "list_all is_digit w"
      "list_all is_digit f" "length f = 2" "digits_value (w @ f) = nat \<bar>m\<bar>"
    using format_shape by blast
  then show ?thesis by (simp add: minorUnitsToNumber_def js_Number_decimal)
qed

section \<open>The detour through a number\<close>

lemma strip_zeros_value:
  "strip_zeros s t = (s', t') \<Longrightarrow>
     of_nat s' * (10 :: rat) powi t' = of_nat s * 10 powi t \<and> (s \<noteq> 0 \<longrightarrow> s' mod 10 \<noteq> 0)"
proof (induction s t rule: strip_zeros.induct)
  case (1 s t)
  show ?case
  proof (cases "s = 0 \<or> s mod 10 \<noteq> 0")
    case True
    with 1 show ?thesis by (auto simp: strip_zeros.simps [of s t])
  next
    case False
    with 1 have ih: "of_nat s' * (10 :: rat) powi t' = of_nat (s div 10) * 10 powi (t + 1)" "s' mod 10 \<noteq> 0"
      by (auto simp: strip_zeros.simps [of s t])
    have "s = s div 10 * 10" using False by auto
    then have "(of_nat s :: rat) = of_nat (s div 10) * 10" by (metis of_nat_mult of_nat_numeral)
    with ih show ?thesis by (simp add: power_int_add)
  qed
qed

lemma powi_cancel: "t < 0 \<Longrightarrow> (10 :: rat) powi t * 10 ^ nat (- t) = 1"
  by (simp add: power_int_def flip: power_mult_distrib)

lemma layout_plain:
  assumes st: "strip_zeros s0 t0 = (s, t)" and s: "0 < s"
    and n: "int (length (show_nat s)) + t \<le> 21" "- 6 < int (length (show_nat s)) + t"
  shows "\<exists>w f. layout_decimal s0 t0 = decimal_text False w f \<and> w \<noteq> '''' \<and> list_all is_digit w \<and> list_all is_digit f
    \<and> length f = nat (- t) \<and> of_nat (digits_value (w @ f)) = (of_nat s :: rat) * 10 powi t * 10 ^ length f"
proof -
  define ds where "ds = show_nat s"
  have ds: "list_all is_digit ds" "digits_value ds = s" "ds \<noteq> ''''" by (simp_all add: ds_def)
  have zeros: "list_all is_digit (replicate m (CHR ''0''))" for m by (simp add: list_all_iff)
  consider "0 \<le> t" | "t < 0" "0 < int (length ds) + t" | "t < 0" "int (length ds) + t \<le> 0" by linarith
  then show ?thesis
  proof cases
    case 1
    have "layout_decimal s0 t0 = decimal_text False (ds @ replicate (nat t) (CHR ''0'')) ''''"
      using 1 n by (simp add: layout_decimal_def st Let_def ds_def decimal_text_def)
    moreover have "digits_value (ds @ replicate (nat t) (CHR ''0'')) = s * 10 ^ nat t"
      using digits_value_zeros [of "nat t" "[]"] ds by (simp add: digits_value_append)
    ultimately show ?thesis using 1 ds zeros
      by (intro exI [of _ "ds @ replicate (nat t) (CHR ''0'')"] exI [of _ "[]"]) (simp add: power_int_def)
  next
    case 2
    let ?n = "nat (int (length ds) + t)"
    have "layout_decimal s0 t0 = decimal_text False (take ?n ds) (drop ?n ds)"
      using 2 n by (simp add: layout_decimal_def st Let_def ds_def decimal_text_def)
    moreover have "list_all is_digit (take ?n ds) \<and> list_all is_digit (drop ?n ds)"
      using ds(1) by (metis append_take_drop_id list_all_append)
    moreover have "take ?n ds \<noteq> ''''" using 2 ds by simp
    moreover have len: "length (drop ?n ds) = nat (- t)" using 2 by simp
    moreover have "of_nat s = (of_nat s :: rat) * 10 powi t * 10 ^ nat (- t)"
      using 2 powi_cancel [of t] by (simp add: mult.assoc)
    ultimately show ?thesis using ds
      by (intro exI [of _ "take ?n ds"] exI [of _ "drop ?n ds"]) simp
  next
    case 3
    let ?z = "replicate (nat (- (int (length ds) + t))) (CHR ''0'')"
    have "layout_decimal s0 t0 = decimal_text False ''0'' (?z @ ds)"
      using 3 n ds by (auto simp: layout_decimal_def st Let_def ds_def decimal_text_def)
    moreover have "length (?z @ ds) = nat (- t)" using 3 by simp
    moreover have "digits_value (''0'' @ ?z @ ds) = s"
      using digits_value_zeros [of 1 "?z @ ds"] ds by simp
    moreover have "of_nat s = (of_nat s :: rat) * 10 powi t * 10 ^ nat (- t)"
      using 3 powi_cancel [of t] by (simp add: mult.assoc)
    ultimately show ?thesis using ds zeros
      by (intro exI [of _ "''0''"] exI [of _ "?z @ ds"]) simp
  qed
qed

lemma layout_exponent:
  assumes "strip_zeros s0 t0 = (s, t)"
    and "\<not> (int (length (show_nat s)) + t \<le> 21 \<and> - 6 < int (length (show_nat s)) + t)"
  shows "CHR ''e'' \<in> set (layout_decimal s0 t0)"
  using assms by (auto simp: layout_decimal_def Let_def)

lemma minor_units_eqI:
  assumes "of_int m / 100 = (if neg then - 1 else 1) * (of_nat (digits_value (w @ f)) / 10 ^ length f :: rat)" "length f \<le> 2"
  shows "minor_units_of neg w f = m"
proof -
  have "(of_int (minor_units_of neg w f) :: rat) / 100 = of_int m / 100"
    using minor_units_digits [OF assms(2), of neg w] assms(1) by simp
  then show ?thesis by simp
qed

lemma js_round_neg: "js_round (- x) = (case js_round x of JsFin y \<Rightarrow> JsFin (- y) | JsInf neg \<Rightarrow> JsInf (\<not> neg) | JsNaN \<Rightarrow> JsNaN)"
  by (auto simp: js_round_def Let_def)

lemma js_round_cents:
  assumes "m \<noteq> 0" "\<bar>m\<bar> < 10 ^ 15"
  shows "\<exists>v s t. js_round (of_int m / 100) = JsFin v \<and> v \<noteq> 0 \<and> (v < 0 \<longleftrightarrow> m < 0)
    \<and> shortest_digits \<bar>v\<bar> = Some (s, t) \<and> of_nat s * 10 powi t = (of_int \<bar>m\<bar> / 100 :: rat)"
proof -
  obtain d s t where d: "js_round (of_int \<bar>m\<bar> / 100) = JsFin d" "0 < d" "shortest_digits d = Some (s, t)"
      "of_nat s * 10 powi t = (of_int \<bar>m\<bar> / 100 :: rat)"
    using shortest_digits_cents [of "of_int \<bar>m\<bar> / 100" "\<bar>m\<bar>", OF refl] assms by fastforce
  show ?thesis
  proof (cases "m < 0")
    case True
    then have "(of_int m / 100 :: rat) = - (of_int \<bar>m\<bar> / 100)" by simp
    with d(1) have "js_round (of_int m / 100) = JsFin (- d)" by (simp only: js_round_neg js_number.case)
    with d True show ?thesis by (intro exI [of _ "- d"] exI [of _ s] exI [of _ t]) simp
  next
    case False
    with d show ?thesis by (intro exI [of _ d] exI [of _ s] exI [of _ t]) simp
  qed
qed

text \<open>The exponent of a stripped decimal that is a whole number of hundredths.\<close>

lemma stripped_cents:
  assumes "of_nat s * (10 :: rat) powi t = of_int k / 100" "s mod 10 \<noteq> 0"
  shows "- 2 \<le> t"
proof (rule ccontr)
  assume "\<not> - 2 \<le> t"
  then have t: "t < 0" "3 \<le> nat (- t)" by simp_all
  then obtain i where i: "nat (- t) = 3 + i" using le_Suc_ex by blast
  have "of_nat s = of_nat s * ((10 :: rat) powi t * 10 ^ nat (- t))" using powi_cancel [OF t(1)] by simp
  also have "\<dots> = of_int k / 100 * 10 ^ (3 + i)" using assms(1) by (simp only: mult.assoc [symmetric] i)
  also have "\<dots> = of_int (10 * (k * 10 ^ i))" by (simp add: power_add)
  finally have "(of_int (int s) :: rat) = of_int (10 * (k * 10 ^ i))" by simp
  then have "int s = 10 * (k * 10 ^ i)" by (simp only: of_int_eq_iff)
  then have "s mod 10 = 0" by presburger
  with assms(2) show False by simp
qed

lemma show_nat_lower: "0 < n \<Longrightarrow> 10 ^ (length (show_nat n) - 1) \<le> n"
proof (induction n rule: show_nat.induct)
  case (1 n)
  show ?case
  proof (cases "n < 10")
    case True
    with 1 show ?thesis by (simp add: show_nat.simps [of n])
  next
    case False
    then have pos: "0 < n div 10" by simp
    with 1 False have ih: "10 ^ (length (show_nat (n div 10)) - 1) \<le> n div 10" by simp
    have "(10 :: nat) ^ length (show_nat (n div 10)) = 10 * 10 ^ (length (show_nat (n div 10)) - 1)"
      by (cases "show_nat (n div 10)") simp_all
    with ih False show ?thesis by (simp add: show_nat.simps [of n])
  qed
qed

lemma decimal_text_sign: "(if neg then ''-'' else '''') @ decimal_text False w f = decimal_text neg w f"
  by (simp add: decimal_text_def)

lemma number_text_parse:
  assumes "js_to_string x = decimal_text neg w f" "w \<noteq> ''''" "list_all is_digit w" "list_all is_digit f" "length f \<le> 2"
  shows "parseMoneyToMinorUnits (NumberAmount x) = Inr (minor_units_of neg w f)"
  using assms by (intro parse_normalized) (simp_all add: normalizeMoneyInput_def MONEY_PATTERN_decimal)

lemma number_zero: "parseMoneyToMinorUnits (NumberAmount (JsFin 0)) = Inr 0"
  by (subst number_text_parse [of _ False "''0''" "''''"])
    (simp_all add: js_to_string_def decimal_text_def minor_units_of_def pad_end_def MONEY_SCALE_def
      digits_value_def digit_val_def numeral_2_eq_2)

lemma number_detour:
  assumes "\<bar>m\<bar> < 10 ^ 15"
  shows "parseMoneyToMinorUnits (NumberAmount (minorUnitsToNumber m)) = Inr m"
proof (cases "m = 0")
  case True
  then show ?thesis by (simp add: minorUnitsToNumber_round js_round_def number_zero)
next
  case False
  obtain v s t where v: "js_round (of_int m / 100) = JsFin v" "v \<noteq> 0" "v < 0 \<longleftrightarrow> m < 0"
      "shortest_digits \<bar>v\<bar> = Some (s, t)" and val: "of_nat s * 10 powi t = (of_int \<bar>m\<bar> / 100 :: rat)"
    using js_round_cents [OF False assms] by blast
  obtain s' t' where st: "strip_zeros s t = (s', t')" by fastforce
  have "s \<noteq> 0"
  proof
    assume "s = 0"
    with val False show False by simp
  qed
  with strip_zeros_value [OF st] val
  have val': "of_nat s' * 10 powi t' = (of_int \<bar>m\<bar> / 100 :: rat)" and s': "s' mod 10 \<noteq> 0"
    by simp_all
  then have s'0: "0 < s'" by (cases "s' = 0") auto
  have t': "- 2 \<le> t'" using stripped_cents [OF val' s'] .
  define len where "len = length (show_nat s')"
  have len: "1 \<le> len" by (cases "show_nat s'") (simp_all add: len_def)
  have "(10 :: rat) powi (int len - 1 + t') = 10 ^ (len - 1) * 10 powi t'"
    using len by (intro power_int_split) simp
  also have "\<dots> \<le> of_nat s' * 10 powi t'"
    using show_nat_lower [OF s'0] by (intro mult_right_mono) (simp_all add: len_def zero_le_power_int flip: of_nat_le_iff)
  also have "\<dots> < 10 powi 13"
  proof -
    have "(of_int \<bar>m\<bar> :: rat) < of_int (10 ^ 15)" using assms by (simp only: of_int_less_iff)
    then show ?thesis by (simp add: val')
  qed
  finally have "int len - 1 + t' < 13" by (intro power_int_le_imp_less_exp [of "10 :: rat"]) auto
  then obtain w f where wf: "layout_decimal s t = decimal_text False w f" "w \<noteq> ''''" "list_all is_digit w"
      "list_all is_digit f" "length f = nat (- t')" "of_nat (digits_value (w @ f)) = (of_nat s' :: rat) * 10 powi t' * 10 ^ length f"
    using layout_plain [OF st s'0] t' len by (auto simp: len_def)
  have "js_to_string (minorUnitsToNumber m) = decimal_text (m < 0) w f"
    using v wf(1) by (simp add: minorUnitsToNumber_round js_to_string_def decimal_text_def)
  then have "parseMoneyToMinorUnits (NumberAmount (minorUnitsToNumber m)) = Inr (minor_units_of (m < 0) w f)"
    using wf t' by (intro number_text_parse) auto
  also have "minor_units_of (m < 0) w f = m"
    using wf(5,6) t' val' by (intro minor_units_eqI) auto
  finally show ?thesis .
qed

lemma parse_InrE:
  assumes "parseMoneyToMinorUnits v = Inr m"
  obtains neg w f where "normalizeMoneyInput v = Inr (decimal_text neg w f)" "w \<noteq> ''''" "list_all is_digit w"
    "list_all is_digit f" "length f \<le> 2" "m = minor_units_of neg w f"
proof -
  from assms obtain s where s: "normalizeMoneyInput v = Inr s"
    by (auto simp: parseMoneyToMinorUnits_def bind_result_Inr_iff)
  with normalize_shape [OF s] obtain neg w f where
    "normalizeMoneyInput v = Inr (decimal_text neg w f)" "w \<noteq> ''''" "list_all is_digit w"
    "list_all is_digit f" "length f \<le> 2"
    by blast
  with parse_normalized [of v neg w f] assms that show thesis by simp
qed

lemma decimal_text_chars:
  "list_all is_digit w \<Longrightarrow> list_all is_digit f \<Longrightarrow> c \<in> set (decimal_text neg w f) \<Longrightarrow> is_digit c \<or> c = CHR ''.'' \<or> c = CHR ''-''"
  by (auto simp: decimal_text_def list_all_iff split: if_splits)

lemma number_text_finite:
  assumes "parseMoneyToMinorUnits (NumberAmount x) = Inr m"
  obtains v where "x = JsFin v" "CHR ''e'' \<notin> set (js_to_string x)" "js_to_string x \<noteq> ''''" "MONEY_PATTERN (js_to_string x)"
proof -
  from assms obtain neg w f where n: "normalizeMoneyInput (NumberAmount x) = Inr (decimal_text neg w f)" "w \<noteq> ''''"
      "list_all is_digit w" "list_all is_digit f" "length f \<le> 2"
    by (rule parse_InrE)
  then have t: "js_to_string x = decimal_text neg w f" and mp: "MONEY_PATTERN (js_to_string x)"
    by (auto simp: normalizeMoneyInput_def Let_def split: if_splits)
  note ch = decimal_text_chars [OF n(3,4), of _ neg, folded t]
  have e: "CHR ''e'' \<notin> set (js_to_string x)" "CHR ''I'' \<notin> set (js_to_string x)" "CHR ''N'' \<notin> set (js_to_string x)"
    using ch by fastforce+
  then obtain v where "x = JsFin v" by (cases x) (auto simp: js_to_string_def split: if_splits)
  moreover have "js_to_string x \<noteq> ''''" using n(2) by (simp add: t decimal_text_def)
  ultimately show thesis using that e mp by blast
qed

lemma number_parse_back:
  assumes "parseMoneyToMinorUnits (NumberAmount x) = Inr m"
  shows "minorUnitsToNumber m = x"
proof -
  from assms obtain v where x: "x = JsFin v" and noexp: "CHR ''e'' \<notin> set (js_to_string x)"
      and ne: "js_to_string x \<noteq> ''''" and mp: "MONEY_PATTERN (js_to_string x)"
    by (rule number_text_finite)
  show ?thesis
  proof (cases "v = 0")
    case True
    with assms x number_zero have "m = 0" by simp
    with True x show ?thesis by (simp add: minorUnitsToNumber_round js_round_def)
  next
    case False
    with ne x obtain s t where sd: "shortest_digits \<bar>v\<bar> = Some (s, t)" "MONEY_PATTERN (js_to_string x)"
        and lay: "js_to_string x = (if v < 0 then ''-'' else '''') @ layout_decimal s t"
      using mp by (auto simp: js_to_string_def MONEY_PATTERN_def split: option.splits)
    then have rnd: "js_round (of_nat s * 10 powi t) = JsFin \<bar>v\<bar>"
      using first_digits_Some pick_digits_Some [of "\<bar>v\<bar>" _ _ s] unfolding shortest_digits_def by fastforce
    then have s0: "s \<noteq> 0" using False by (cases "s = 0") (simp_all add: js_round_def)
    obtain s' t' where st: "strip_zeros s t = (s', t')" by fastforce
    with s0 have val: "of_nat s' * (10 :: rat) powi t' = of_nat s * 10 powi t" and s': "0 < s'"
      using strip_zeros_value [OF st] by (cases "s' = 0", auto)
    from noexp lay layout_exponent [OF st]
    have "int (length (show_nat s')) + t' \<le> 21" "- 6 < int (length (show_nat s')) + t'" by auto
    from layout_plain [OF st s' this] obtain w f where wf: "layout_decimal s t = decimal_text False w f" "w \<noteq> ''''"
        "list_all is_digit w" "list_all is_digit f" "of_nat (digits_value (w @ f)) = (of_nat s' :: rat) * 10 powi t' * 10 ^ length f"
      by blast
    have jt: "js_to_string x = decimal_text (v < 0) w f" using lay wf(1) by (simp add: decimal_text_def)
    with mp MONEY_PATTERN_decimal [OF wf(2,3)] have f2: "length f \<le> 2" by simp
    from number_text_parse [OF jt wf(2,3,4) f2] assms have m: "m = minor_units_of (v < 0) w f" by simp
    have "(of_int m :: rat) / 100 = (if v < 0 then - 1 else 1) * (of_nat s * 10 powi t)"
      using minor_units_digits [OF f2, of "v < 0" w] wf(5) val by (simp add: m)
    then have "minorUnitsToNumber m = js_round ((if v < 0 then - 1 else 1) * (of_nat s * 10 powi t))"
      by (simp only: minorUnitsToNumber_round)
    also have "\<dots> = JsFin v" using rnd by (simp add: js_round_neg)
    finally show ?thesis by (simp add: x)
  qed
qed

section \<open>Properties\<close>

text \<open>C26: Every amount of minor units is formatted with at least one integer digit and exactly two
  fraction digits, and the text parses back to the same amount: no amount is lost or rounded when it
  is stored in an event.\<close>

theorem format_canonical_and_exact:
  "\<exists>w f. formatMinorUnitsToMoney m = decimal_text (m < 0) w f \<and> w \<noteq> '''' \<and> list_all is_digit w
      \<and> list_all is_digit f \<and> length f = 2 \<and> digits_value (w @ f) = nat \<bar>m\<bar>
      \<and> parseMoneyToMinorUnits (StringAmount (decimal_text (m < 0) w f)) = Inr m"
proof -
  obtain w f where wf: "formatMinorUnitsToMoney m = decimal_text (m < 0) w f" "w \<noteq> ''''" "list_all is_digit w"
      "list_all is_digit f" "length f = 2" "digits_value (w @ f) = nat \<bar>m\<bar>"
    using format_shape by blast
  with parse_format [of m] show ?thesis by auto
qed

text \<open>C25: The detour of an amount through a JavaScript number, which the transfer coordinator takes
  when it hands a stored amount to the deposit and withdraw commands, is exact for every amount of
  less than ten trillion currency units: the double printed by \<open>toString\<close> parses to the same
  number of minor units, so no two such amounts share a number.\<close>

theorem number_detour_exact:
  assumes "\<bar>m\<bar> < 10 ^ 15"
  shows "parseMoneyToMinorUnits (NumberAmount (minorUnitsToNumber m)) = Inr m
    \<and> (\<forall>m'. \<bar>m'\<bar> < 10 ^ 15 \<longrightarrow> minorUnitsToNumber m' = minorUnitsToNumber m \<longrightarrow> m' = m)"
proof (intro conjI allI impI)
  show "parseMoneyToMinorUnits (NumberAmount (minorUnitsToNumber m)) = Inr m"
    using assms by (rule number_detour)
  fix m' :: int
  assume "\<bar>m'\<bar> < 10 ^ 15" "minorUnitsToNumber m' = minorUnitsToNumber m"
  then show "m' = m" using number_detour [OF assms] number_detour [of m'] by simp
qed

theorem number_detour_exact_witness:
  "parseMoneyToMinorUnits (NumberAmount (minorUnitsToNumber (- 1023))) = Inr (- 1023)"
  using number_detour_exact [of "- 1023"] by simp

text \<open>An amount that reaches the API as a JavaScript number is never changed by the system: if the
  number parses to \<open>m\<close> minor units, then converting \<open>m\<close> back to a number gives exactly the
  number that was sent, which parses to \<open>m\<close> again, without any bound on its size.\<close>

theorem number_parse_lossless:
  assumes "parseMoneyToMinorUnits (NumberAmount x) = Inr m"
  shows "minorUnitsToNumber m = x \<and> parseMoneyToMinorUnits (NumberAmount (minorUnitsToNumber m)) = Inr m"
  using assms number_parse_back [OF assms] by simp

theorem number_parse_lossless_witness:
  "parseMoneyToMinorUnits (NumberAmount (js_round (41 / 4))) = Inr 1025 \<and> minorUnitsToNumber 1025 = js_round (41 / 4)"
proof -
  have "parseMoneyToMinorUnits (NumberAmount (js_round (41 / 4))) = Inr 1025"
    using number_detour [of 1025] by (simp add: minorUnitsToNumber_round)
  then show ?thesis using number_parse_lossless by blast
qed

text \<open>C27: The parser accepts a text exactly when, after trimming, it is an optional minus, at least
  one digit and at most two fraction digits, and then returns the signed number of hundredths; every
  other text is refused with the error that names it.\<close>

theorem parse_accepts_exactly_money:
  "(case parseMoneyToMinorUnits (StringAmount s) of
      Inr m \<Rightarrow> \<exists>neg w f. js_trim s = decimal_text neg w f \<and> w \<noteq> '''' \<and> list_all is_digit w \<and> list_all is_digit f
         \<and> length f \<le> 2 \<and> of_int m / 100 = (if neg then - 1 else 1) * (of_nat (digits_value (w @ f)) / 10 ^ length f :: rat)
    | Inl e \<Rightarrow> e = GenericError (''Invalid money amount: '' @ s)
         \<and> (\<nexists>neg w f. js_trim s = decimal_text neg w f \<and> w \<noteq> '''' \<and> list_all is_digit w \<and> list_all is_digit f
              \<and> length f \<le> 2))"
proof (cases "parseMoneyToMinorUnits (StringAmount s)")
  case (Inr m)
  then obtain neg w f where n: "normalizeMoneyInput (StringAmount s) = Inr (decimal_text neg w f)" "w \<noteq> ''''"
      "list_all is_digit w" "list_all is_digit f" "length f \<le> 2" "m = minor_units_of neg w f"
    by (rule parse_InrE)
  then have "js_trim s = decimal_text neg w f" by (auto simp: normalizeMoneyInput_def Let_def split: if_splits)
  with n minor_units_digits [OF n(5), of neg w] Inr show ?thesis by auto
next
  case (Inl e)
  then have pat: "\<not> MONEY_PATTERN (js_trim s)" and "e = GenericError (''Invalid money amount: '' @ s)"
    by (auto simp: parseMoneyToMinorUnits_def normalizeMoneyInput_def input_text_def Let_def split: if_splits)
  moreover have "\<nexists>neg w f. js_trim s = decimal_text neg w f \<and> w \<noteq> '''' \<and> list_all is_digit w \<and> list_all is_digit f
      \<and> length f \<le> 2"
    using pat MONEY_PATTERN_decimal by auto
  ultimately show ?thesis using Inl by simp
qed

end
