(* ===== verification/Events.thy ===== *)
theory Events
  imports Money
begin

text \<open>
  \<open>src/common/domain\<close> and \<open>src/common/cqrs\<close>: command contexts, domain events and the aggregate root.
  The type string of an event and its \<open>data\<close> object are one datatype, with a constructor per event
  type of the accounts and transfers modules.  A field that the code may leave \<open>undefined\<close> is an
  option.  Instants (\<open>toISOString\<close> texts) are integers counting milliseconds, in the same order.
\<close>

section \<open>Command context and events\<close>

record command_context =
  ctx_commandId :: string
  ctx_correlationId :: string
  ctx_causationId :: "string option"
  ctx_actor :: "string option"
  ctx_traceId :: "string option"

record event_metadata =
  md_correlationId :: string
  md_causationId :: "string option"
  md_commandId :: string
  md_actor :: "string option"
  md_traceId :: "string option"

datatype stage = DEBIT | CREDIT

datatype event_data =
    AccountCreated string string string
  | MoneyDeposited "string option" string string string
  | MoneyWithdrawn "string option" string string string
  | AccountFrozen "string option" string
  | TransferInitiated string string string string string
  | TransferDebitStarted "string option" string int
  | TransferDebited "string option" "string option"
  | TransferCreditStarted "string option" string int
  | TransferCompleted "string option"
  | TransferFailed "string option" string stage
  | TransferCompensationStarted "string option" string int
  | TransferCompensated "string option" "string option"
  | UnknownEvent string

fun eventType :: "event_data \<Rightarrow> string" where
  "eventType (AccountCreated _ _ _) = ''AccountCreated''"
| "eventType (MoneyDeposited _ _ _ _) = ''MoneyDeposited''"
| "eventType (MoneyWithdrawn _ _ _ _) = ''MoneyWithdrawn''"
| "eventType (AccountFrozen _ _) = ''AccountFrozen''"
| "eventType (TransferInitiated _ _ _ _ _) = ''TransferInitiated''"
| "eventType (TransferDebitStarted _ _ _) = ''TransferDebitStarted''"
| "eventType (TransferDebited _ _) = ''TransferDebited''"
| "eventType (TransferCreditStarted _ _ _) = ''TransferCreditStarted''"
| "eventType (TransferCompleted _) = ''TransferCompleted''"
| "eventType (TransferFailed _ _ _) = ''TransferFailed''"
| "eventType (TransferCompensationStarted _ _ _) = ''TransferCompensationStarted''"
| "eventType (TransferCompensated _ _) = ''TransferCompensated''"
| "eventType (UnknownEvent t) = t"

record domain_event =
  ev_eventId :: string
  ev_streamId :: string
  ev_streamVersion :: int
  ev_data :: event_data
  ev_occurredAt :: int
  ev_metadata :: event_metadata

text \<open>What \<open>randomUUID()\<close> and \<open>new Date()\<close> yield when an event is made.\<close>

record stamp =
  st_uuid :: string
  st_now :: int

definition metadata_of :: "command_context \<Rightarrow> event_metadata" where
  "metadata_of context =
     \<lparr>md_correlationId = ctx_correlationId context, md_causationId = ctx_causationId context,
      md_commandId = ctx_commandId context, md_actor = ctx_actor context, md_traceId = ctx_traceId context\<rparr>"

section \<open>Aggregate root\<close>

text \<open>
  An aggregate is the state of its class and the list of uncommitted events of the root; \<open>when_ev\<close>
  is the class's event handler, which may throw.
\<close>

type_synonym 's aggregate = "'s \<times> domain_event list"

definition apply_event :: "('s \<Rightarrow> domain_event \<Rightarrow> 's result) \<Rightarrow> domain_event \<Rightarrow> bool \<Rightarrow> 's aggregate \<Rightarrow> 's aggregate result" where
  "apply_event when_ev event isFromHistory agg =
     bind_result (when_ev (fst agg) event) (\<lambda>s'.
       Inr (s', if isFromHistory then snd agg else snd agg @ [event]))"

fun loadFromHistory :: "('s \<Rightarrow> domain_event \<Rightarrow> 's result) \<Rightarrow> domain_event list \<Rightarrow> 's aggregate \<Rightarrow> 's aggregate result" where
  "loadFromHistory when_ev [] agg = Inr agg"
| "loadFromHistory when_ev (e # es) agg =
     bind_result (apply_event when_ev e True agg) (loadFromHistory when_ev es)"

definition pullUncommittedEvents :: "'s aggregate \<Rightarrow> domain_event list \<times> 's aggregate" where
  "pullUncommittedEvents agg = (snd agg, (fst agg, []))"

section \<open>Streams numbered without gaps\<close>

text \<open>The events carry the versions \<open>v + 1\<close>, \<open>v + 2\<close>, and so on.\<close>

fun numbered :: "int \<Rightarrow> domain_event list \<Rightarrow> bool" where
  "numbered v [] = True"
| "numbered v (e # es) = (ev_streamVersion e = v + 1 \<and> numbered (v + 1) es)"

lemma numbered_append: "numbered v (xs @ ys) \<longleftrightarrow> numbered v xs \<and> numbered (v + int (length xs)) ys"
  by (induction xs arbitrary: v) (auto simp: ac_simps)

lemma numbered_greater: "numbered v es \<Longrightarrow> e \<in> set es \<Longrightarrow> v < ev_streamVersion e \<and> ev_streamVersion e \<le> v + int (length es)"
  by (induction es arbitrary: v) fastforce+

lemma numbered_filter:
  "numbered v es \<Longrightarrow> v \<le> n \<Longrightarrow> filter (\<lambda>e. n < ev_streamVersion e) es = drop (nat (n - v)) es"
proof (induction es arbitrary: v)
  case Nil
  then show ?case by simp
next
  case (Cons e es)
  show ?case
  proof (cases "n = v")
    case True
    from Cons.prems numbered_greater [of v "e # es"] True have "\<forall>x \<in> set (e # es). n < ev_streamVersion x" by blast
    with True show ?thesis by (simp add: filter_id_conv)
  next
    case False
    with Cons.prems have "v + 1 \<le> n" "numbered (v + 1) es" "ev_streamVersion e = v + 1" by auto
    with Cons.IH [of "v + 1"] have "filter (\<lambda>e. n < ev_streamVersion e) (e # es) = drop (nat (n - (v + 1))) es"
      by simp
    also have "\<dots> = drop (nat (n - v)) (e # es)"
    proof -
      have "nat (n - v) = Suc (nat (n - (v + 1)))" using \<open>v + 1 \<le> n\<close> by simp
      then show ?thesis by (simp only: drop_Suc_Cons)
    qed
    finally show ?thesis .
  qed
qed

lemma numbered_last: "numbered v es \<Longrightarrow> es \<noteq> [] \<Longrightarrow> ev_streamVersion (last es) = v + int (length es)"
  by (induction es arbitrary: v) auto

section \<open>The interface of an event-sourced class\<close>

text \<open>
  The laws the repositories rely on: the handler takes the version from the event, and it looks
  only at the event's data, version and time, so an event that was persisted under another stream id
  has the same effect.
\<close>

definition same_core :: "domain_event \<Rightarrow> domain_event \<Rightarrow> bool" where
  "same_core e e' \<longleftrightarrow> ev_data e = ev_data e' \<and> ev_streamVersion e = ev_streamVersion e' \<and> ev_occurredAt e = ev_occurredAt e'"

lemma same_core_refl [simp]: "same_core e e"
  by (simp add: same_core_def)

locale event_sourced =
  fixes when_ev :: "'s \<Rightarrow> domain_event \<Rightarrow> 's result"
    and version_of :: "'s \<Rightarrow> int"
  assumes when_version: "when_ev s e = Inr s' \<Longrightarrow> version_of s' = ev_streamVersion e"
    and when_core: "same_core e e' \<Longrightarrow> when_ev s e = when_ev s e'"
begin

lemma load_append:
  "loadFromHistory when_ev (xs @ ys) agg = bind_result (loadFromHistory when_ev xs agg) (loadFromHistory when_ev ys)"
proof (induction xs arbitrary: agg)
  case Nil
  then show ?case by simp
next
  case (Cons x xs)
  then show ?case by (cases "apply_event when_ev x True agg") simp_all
qed

lemma load_uncommitted: "loadFromHistory when_ev es (s, us) = Inr (s', us') \<Longrightarrow> us' = us"
  by (induction es arbitrary: s) (auto simp: apply_event_def bind_result_Inr_iff)

lemma load_version:
  assumes "loadFromHistory when_ev es (s, us) = Inr (s', us')"
  shows "version_of s' = (if es = [] then version_of s else ev_streamVersion (last es))"
  using assms
proof (induction es arbitrary: s)
  case Nil
  then show ?case by simp
next
  case (Cons e es)
  then obtain s1 where s1: "when_ev s e = Inr s1" "loadFromHistory when_ev es (s1, us) = Inr (s', us')"
    by (auto simp: apply_event_def bind_result_Inr_iff)
  with Cons.IH [of s1] when_version [of s e s1] show ?case by auto
qed

lemma load_numbered_version:
  assumes "loadFromHistory when_ev es (s, us) = Inr (s', us')" "numbered (version_of s) es"
  shows "version_of s' = version_of s + int (length es)"
  using load_version [OF assms(1)] numbered_last [OF assms(2)] by auto

lemma load_core:
  assumes "list_all2 same_core es es'"
  shows "loadFromHistory when_ev es agg = loadFromHistory when_ev es' agg"
  using assms
proof (induction arbitrary: agg)
  case Nil
  then show ?case by simp
next
  case (Cons e es e' es')
  then show ?case using when_core [of e e'] by (simp add: apply_event_def bind_result_def split: sum.splits)
qed

lemma apply_new_then_replay:
  assumes "apply_event when_ev e False (s, us) = Inr (s', us')"
  shows "us' = us @ [e] \<and> loadFromHistory when_ev [e] (s, []) = Inr (s', [])"
  using assms by (auto simp: apply_event_def bind_result_Inr_iff)

end

section \<open>Classes with commands\<close>

text \<open>
  A command run outside a repository: one that throws leaves the object as it was.
\<close>

type_synonym ('c, 's) command_fn = "'c \<Rightarrow> command_context \<Rightarrow> stamp \<Rightarrow> 's aggregate \<Rightarrow> 's aggregate result"

fun run_commands :: "('c, 's) command_fn \<Rightarrow> ('c \<times> command_context \<times> stamp) list \<Rightarrow> 's aggregate \<Rightarrow> 's aggregate" where
  "run_commands cmd [] agg = agg"
| "run_commands cmd ((c, context, st) # cs) agg =
     run_commands cmd cs (case cmd c context st agg of Inl e \<Rightarrow> agg | Inr agg' \<Rightarrow> agg')"

text \<open>
  The law of a command: when it succeeds it has raised exactly one event, with the next version and
  the id and time of its stamp, and the new state is what the handler makes of that event.
\<close>

locale event_sourced_commands = event_sourced when_ev version_of
  for when_ev :: "'s \<Rightarrow> domain_event \<Rightarrow> 's result" and version_of :: "'s \<Rightarrow> int" +
  fixes cmd :: "('c, 's) command_fn"
  assumes cmd_emits: "cmd c context st (s, us) = Inr (s', us') \<Longrightarrow>
    \<exists>e. us' = us @ [e] \<and> ev_streamVersion e = version_of s + 1 \<and> ev_eventId e = st_uuid st
      \<and> ev_occurredAt e = st_now st \<and> when_ev s e = Inr s'"
begin

lemma cmd_replay_step:
  assumes c: "cmd c context st (s, us) = Inr (s', us')"
    and "loadFromHistory when_ev us (s0, []) = Inr (s, [])" "numbered (version_of s0) us"
  shows "loadFromHistory when_ev us' (s0, []) = Inr (s', []) \<and> numbered (version_of s0) us'"
proof -
  obtain e where e: "us' = us @ [e]" "ev_streamVersion e = version_of s + 1" "when_ev s e = Inr s'"
    using cmd_emits [OF c] by blast
  moreover have "version_of s = version_of s0 + int (length us)"
    using assms(2,3) by (rule load_numbered_version)
  ultimately show ?thesis
    using assms(2,3) by (simp add: load_append numbered_append apply_event_def)
qed

lemma run_commands_replay_from:
  assumes "run_commands cmd cs (s, us) = (s', us')"
    and "loadFromHistory when_ev us (s0, []) = Inr (s, [])" "numbered (version_of s0) us"
  shows "loadFromHistory when_ev us' (s0, []) = Inr (s', []) \<and> numbered (version_of s0) us'"
  using assms
proof (induction cs arbitrary: s us)
  case Nil
  then show ?case by simp
next
  case (Cons x cs)
  obtain c ctx st where x: "x = (c, ctx, st)" by (cases x)
  show ?case
  proof (cases "cmd c ctx st (s, us)")
    case (Inl e)
    with Cons x show ?thesis by simp
  next
    case (Inr a)
    then obtain s1 us1 where a: "cmd c ctx st (s, us) = Inr (s1, us1)" by (cases a) auto
    with Cons.IH [of s1 us1] Cons.prems cmd_replay_step [OF a] x show ?thesis by simp
  qed
qed

lemma run_commands_replay:
  assumes "run_commands cmd cs (s0, []) = (s', us')"
  shows "loadFromHistory when_ev us' (s0, []) = Inr (s', []) \<and> numbered (version_of s0) us'"
  using run_commands_replay_from [OF assms] by simp

lemma run_commands_invariant:
  assumes "run_commands cmd cs (s, us) = (s', us')" "I s"
    and "\<And>c context st s us s' us'. I s \<Longrightarrow> cmd c context st (s, us) = Inr (s', us') \<Longrightarrow> I s'"
  shows "I s'"
  using assms(1,2)
proof (induction cs arbitrary: s us)
  case Nil
  then show ?case by simp
next
  case (Cons x cs)
  obtain c ctx st where x: "x = (c, ctx, st)" by (cases x)
  show ?case
  proof (cases "cmd c ctx st (s, us)")
    case (Inl e)
    with Cons x show ?thesis by simp
  next
    case (Inr a)
    then obtain s1 us1 where a: "cmd c ctx st (s, us) = Inr (s1, us1)" by (cases a) auto
    with Cons.IH [of s1 us1] Cons.prems assms(3) [OF _ a] x show ?thesis by simp
  qed
qed

end

end
