(* ===== verification/AccountAggregate.thy ===== *)
theory AccountAggregate
  imports Events
begin

text \<open>
  \<open>src/modules/accounts/domain/account.aggregate.ts\<close>: the account aggregate, its four commands, its
  event handler and its snapshots.  The fields of the class are the record below; the balance is a
  bigint, hence \<open>int\<close>, and the fields a fresh object leaves \<open>undefined\<close> are options.
\<close>

section \<open>State\<close>

datatype account_status = ACTIVE | FROZEN

record account_state =
  acc_accountId :: "string option"
  acc_ownerId :: "string option"
  acc_currency :: "string option"
  acc_status :: account_status
  acc_balance :: int
  acc_version :: int

type_synonym account = "account_state aggregate"

definition new_account_state :: account_state where
  "new_account_state =
     \<lparr>acc_accountId = None, acc_ownerId = None, acc_currency = None, acc_status = ACTIVE,
      acc_balance = 0, acc_version = 0\<rparr>"

definition new_account :: account where
  "new_account = (new_account_state, [])"

section \<open>Event handler\<close>

definition account_when :: "account_state \<Rightarrow> domain_event \<Rightarrow> account_state result" where
  "account_when s event =
     (let s1 = s\<lparr>acc_version := ev_streamVersion event\<rparr>
      in case ev_data event of
           AccountCreated accountId ownerId currency \<Rightarrow>
             Inr (s1\<lparr>acc_accountId := Some accountId, acc_ownerId := Some ownerId,
                     acc_currency := Some currency, acc_status := ACTIVE\<rparr>)
         | MoneyDeposited _ amount _ _ \<Rightarrow>
             bind_result (parseMoneyToMinorUnits (StringAmount amount)) (\<lambda>m.
               Inr (s1\<lparr>acc_balance := acc_balance s1 + m\<rparr>))
         | MoneyWithdrawn _ amount _ _ \<Rightarrow>
             bind_result (parseMoneyToMinorUnits (StringAmount amount)) (\<lambda>m.
               Inr (s1\<lparr>acc_balance := acc_balance s1 - m\<rparr>))
         | AccountFrozen _ _ \<Rightarrow> Inr (s1\<lparr>acc_status := FROZEN\<rparr>)
         | _ \<Rightarrow> Inr s1)"

section \<open>Commands\<close>

definition account_makeEvent :: "account_state \<Rightarrow> event_data \<Rightarrow> command_context \<Rightarrow> string \<Rightarrow> stamp \<Rightarrow> domain_event" where
  "account_makeEvent s data context streamId st =
     \<lparr>ev_eventId = st_uuid st, ev_streamId = streamId, ev_streamVersion = acc_version s + 1,
      ev_data = data, ev_occurredAt = st_now st, ev_metadata = metadata_of context\<rparr>"

definition account_raise :: "account \<Rightarrow> event_data \<Rightarrow> command_context \<Rightarrow> string \<Rightarrow> stamp \<Rightarrow> account result" where
  "account_raise a data context streamId st =
     apply_event account_when (account_makeEvent (fst a) data context streamId st) False a"

definition ensureActive :: "account_state \<Rightarrow> unit result" where
  "ensureActive s =
     (if acc_status s \<noteq> ACTIVE then Inl (BadRequest ''Account is not active'') else Inr ())"

definition ensureCurrency :: "account_state \<Rightarrow> string \<Rightarrow> unit result" where
  "ensureCurrency s currency =
     (if acc_currency s \<noteq> Some currency
      then Inl (BadRequest (''Currency mismatch. Account currency='' @ show_opt (acc_currency s)
                 @ '', request='' @ currency))
      else Inr ())"

definition account_create :: "string \<Rightarrow> string \<Rightarrow> string \<Rightarrow> command_context \<Rightarrow> stamp \<Rightarrow> account \<Rightarrow> account result" where
  "account_create accountId ownerId currency context st a =
     (if truthy (acc_accountId (fst a)) then Inl (BadRequest ''Account already exists'')
      else account_raise a (AccountCreated accountId ownerId currency) context (''account-'' @ accountId) st)"

definition account_deposit :: "money_input \<Rightarrow> string \<Rightarrow> string \<Rightarrow> command_context \<Rightarrow> stamp \<Rightarrow> account \<Rightarrow> account result" where
  "account_deposit amount currency transactionId context st a =
     bind_result (ensureActive (fst a)) (\<lambda>_.
     bind_result (ensureCurrency (fst a) currency) (\<lambda>_.
     bind_result (parseMoneyToMinorUnits amount) (\<lambda>amountMinorUnits.
       if amountMinorUnits \<le> 0 then Inl (BadRequest ''Deposit amount must be positive'')
       else account_raise a
              (MoneyDeposited (acc_accountId (fst a)) (formatMinorUnitsToMoney amountMinorUnits) currency transactionId)
              context (''account-'' @ show_opt (acc_accountId (fst a))) st)))"

definition account_withdraw :: "money_input \<Rightarrow> string \<Rightarrow> string \<Rightarrow> command_context \<Rightarrow> stamp \<Rightarrow> account \<Rightarrow> account result" where
  "account_withdraw amount currency transactionId context st a =
     bind_result (ensureActive (fst a)) (\<lambda>_.
     bind_result (ensureCurrency (fst a) currency) (\<lambda>_.
     bind_result (parseMoneyToMinorUnits amount) (\<lambda>amountMinorUnits.
       if amountMinorUnits \<le> 0 then Inl (BadRequest ''Withdraw amount must be positive'')
       else if acc_balance (fst a) < amountMinorUnits then Inl (BadRequest ''Insufficient funds'')
       else account_raise a
              (MoneyWithdrawn (acc_accountId (fst a)) (formatMinorUnitsToMoney amountMinorUnits) currency transactionId)
              context (''account-'' @ show_opt (acc_accountId (fst a))) st)))"

definition account_freeze :: "string \<Rightarrow> command_context \<Rightarrow> stamp \<Rightarrow> account \<Rightarrow> account result" where
  "account_freeze reason context st a =
     (if reason = '''' then Inl (BadRequest ''Freeze reason is required'')
      else if acc_status (fst a) = FROZEN then Inl (BadRequest ''Account already frozen'')
      else account_raise a (AccountFrozen (acc_accountId (fst a)) reason) context
             (''account-'' @ show_opt (acc_accountId (fst a))) st)"

section \<open>Snapshots\<close>

record account_snapshot =
  as_accountId :: "string option"
  as_ownerId :: "string option"
  as_currency :: "string option"
  as_status :: account_status
  as_balanceMinorUnits :: string

text \<open>\<open>BigInt(s)\<close> on a decimal text with an optional minus sign.\<close>

definition js_BigInt :: "string \<Rightarrow> int result" where
  "js_BigInt s =
     (let neg = starts_with ''-'' s; u = (if neg then tl s else s)
      in if u \<noteq> '''' \<and> list_all is_digit u
         then Inr ((if neg then - 1 else 1) * int (digits_value u))
         else Inl (GenericError (''Cannot convert '' @ s @ '' to a BigInt'')))"

definition getSnapshotState :: "account \<Rightarrow> account_snapshot" where
  "getSnapshotState a =
     \<lparr>as_accountId = acc_accountId (fst a), as_ownerId = acc_ownerId (fst a), as_currency = acc_currency (fst a),
      as_status = acc_status (fst a), as_balanceMinorUnits = show_int (acc_balance (fst a))\<rparr>"

definition restoreSnapshot :: "account_snapshot \<Rightarrow> int \<Rightarrow> account \<Rightarrow> account result" where
  "restoreSnapshot snap version a =
     bind_result (js_BigInt (as_balanceMinorUnits snap)) (\<lambda>b.
       Inr ((fst a)\<lparr>acc_accountId := as_accountId snap, acc_ownerId := as_ownerId snap,
              acc_currency := as_currency snap, acc_status := as_status snap, acc_balance := b,
              acc_version := version\<rparr>, snd a))"

definition account_balance :: "account \<Rightarrow> js_number" where
  "account_balance a = js_Number (formatMinorUnitsToMoney (acc_balance (fst a)))"

section \<open>The commands as the handlers run them\<close>

text \<open>
  The operation each handler of \<open>account-command.handlers.ts\<close> passes to the repository.
\<close>

datatype account_command =
    CreateAccount string string string
  | DepositMoney money_input string string
  | WithdrawMoney money_input string string
  | FreezeAccount string

fun account_operation :: "account_command \<Rightarrow> command_context \<Rightarrow> stamp \<Rightarrow> account \<Rightarrow> account result" where
  "account_operation (CreateAccount accountId ownerId currency) context st a =
     account_create accountId ownerId currency context st a"
| "account_operation (DepositMoney amount currency transactionId) context st a =
     account_deposit amount currency transactionId context st a"
| "account_operation (WithdrawMoney amount currency transactionId) context st a =
     account_withdraw amount currency transactionId context st a"
| "account_operation (FreezeAccount reason) context st a = account_freeze reason context st a"

section \<open>Lemmas\<close>

named_theorems account_simps \<open>evaluation of the account aggregate\<close>

lemmas account_command_defs =
  account_create_def account_deposit_def account_withdraw_def account_freeze_def
  ensureActive_def ensureCurrency_def

lemma account_when_simps [account_simps]:
  "ev_data e = AccountCreated i ow c \<Longrightarrow> account_when s e = Inr (s\<lparr>acc_version := ev_streamVersion e,
     acc_accountId := Some i, acc_ownerId := Some ow, acc_currency := Some c, acc_status := ACTIVE\<rparr>)"
  "ev_data e = MoneyDeposited ai amount c t \<Longrightarrow> parseMoneyToMinorUnits (StringAmount amount) = Inr m \<Longrightarrow>
     account_when s e = Inr (s\<lparr>acc_version := ev_streamVersion e, acc_balance := acc_balance s + m\<rparr>)"
  "ev_data e = MoneyWithdrawn ai amount c t \<Longrightarrow> parseMoneyToMinorUnits (StringAmount amount) = Inr m \<Longrightarrow>
     account_when s e = Inr (s\<lparr>acc_version := ev_streamVersion e, acc_balance := acc_balance s - m\<rparr>)"
  "ev_data e = AccountFrozen ai r \<Longrightarrow> account_when s e = Inr (s\<lparr>acc_version := ev_streamVersion e, acc_status := FROZEN\<rparr>)"
  by (simp_all add: account_when_def)

lemma account_when_version: "account_when s e = Inr s' \<Longrightarrow> acc_version s' = ev_streamVersion e"
  by (auto simp: account_when_def Let_def bind_result_Inr_iff split: event_data.splits)

lemma account_when_core: "same_core e e' \<Longrightarrow> account_when s e = account_when s e'"
  by (simp add: account_when_def same_core_def)

lemma makeEvent_fields [simp]:
  "ev_data (account_makeEvent s data context sid st) = data"
  "ev_streamVersion (account_makeEvent s data context sid st) = acc_version s + 1"
  "ev_eventId (account_makeEvent s data context sid st) = st_uuid st"
  "ev_occurredAt (account_makeEvent s data context sid st) = st_now st"
  "ev_streamId (account_makeEvent s data context sid st) = sid"
  "ev_metadata (account_makeEvent s data context sid st) = metadata_of context"
  by (simp_all add: account_makeEvent_def)

lemma account_raise_emits:
  assumes "account_raise (s, us) data context sid st = Inr (s', us')"
  shows "\<exists>e. us' = us @ [e] \<and> ev_streamVersion e = acc_version s + 1 \<and> ev_eventId e = st_uuid st
      \<and> ev_occurredAt e = st_now st \<and> account_when s e = Inr s'"
  using assms by (auto simp: account_raise_def apply_event_def bind_result_Inr_iff)

lemma account_operation_raises:
  assumes "account_operation c context st a = Inr a'"
  shows "\<exists>data sid. account_raise a data context sid st = Inr a'"
  using assms by (cases c) (auto simp: account_command_defs bind_result_Inr_iff split: if_splits)

interpretation acct: event_sourced account_when acc_version
  by unfold_locales (auto intro: account_when_version account_when_core)

interpretation acct_cmd: event_sourced_commands account_when acc_version account_operation
  by unfold_locales (metis account_operation_raises account_raise_emits)

lemma account_raise_amount [account_simps]:
  "account_raise (s, us) (MoneyDeposited i (formatMinorUnitsToMoney m) c t) context sid st =
     Inr (s\<lparr>acc_version := acc_version s + 1, acc_balance := acc_balance s + m\<rparr>,
          us @ [account_makeEvent s (MoneyDeposited i (formatMinorUnitsToMoney m) c t) context sid st])"
  "account_raise (s, us) (MoneyWithdrawn i (formatMinorUnitsToMoney m) c t) context sid st =
     Inr (s\<lparr>acc_version := acc_version s + 1, acc_balance := acc_balance s - m\<rparr>,
          us @ [account_makeEvent s (MoneyWithdrawn i (formatMinorUnitsToMoney m) c t) context sid st])"
  by (simp_all add: account_raise_def apply_event_def account_simps parse_format)

lemma account_raise_other [account_simps]:
  "account_raise (s, us) (AccountCreated i ow c) context sid st =
     Inr (s\<lparr>acc_version := acc_version s + 1, acc_accountId := Some i, acc_ownerId := Some ow, acc_currency := Some c,
            acc_status := ACTIVE\<rparr>, us @ [account_makeEvent s (AccountCreated i ow c) context sid st])"
  "account_raise (s, us) (AccountFrozen ai r) context sid st =
     Inr (s\<lparr>acc_version := acc_version s + 1, acc_status := FROZEN\<rparr>,
          us @ [account_makeEvent s (AccountFrozen ai r) context sid st])"
  by (simp_all add: account_raise_def apply_event_def account_simps)

lemma show_int_BigInt: "js_BigInt (show_int i) = Inr i"
proof -
  have "\<not> starts_with ''-'' (show_nat n)" for n
    using show_nat_digits [of n] by (cases "show_nat n") auto
  then show ?thesis by (simp add: js_BigInt_def show_int_def del: starts_with_minus) (simp add: starts_with_def)
qed

lemma account_inv_step:
  assumes "0 \<le> acc_balance s" "account_operation c context st (s, us) = Inr (s', us')"
  shows "0 \<le> acc_balance s'"
  using assms
  by (cases c) (auto simp: account_command_defs bind_result_Inr_iff account_simps split: if_splits)

section \<open>Properties\<close>

text \<open>A withdrawal is refused, in this order, for an account that is not active, for a currency
  other than the account's, for an unreadable amount, for an amount that is not positive and for an
  amount above the balance; otherwise it takes exactly the parsed amount from the balance, moves the
  version on by one and raises one event for the account's stream.\<close>

theorem account_withdraw_behaviour:
  "account_withdraw amount currency transactionId context st (s, us) =
     (if acc_status s = FROZEN then Inl (BadRequest ''Account is not active'')
      else if acc_currency s \<noteq> Some currency
      then Inl (BadRequest (''Currency mismatch. Account currency='' @ show_opt (acc_currency s) @ '', request='' @ currency))
      else case parseMoneyToMinorUnits amount of
          Inl e \<Rightarrow> Inl e
        | Inr m \<Rightarrow>
            if m \<le> 0 then Inl (BadRequest ''Withdraw amount must be positive'')
            else if acc_balance s < m then Inl (BadRequest ''Insufficient funds'')
            else Inr (s\<lparr>acc_version := acc_version s + 1, acc_balance := acc_balance s - m\<rparr>,
                      us @ [\<lparr>ev_eventId = st_uuid st, ev_streamId = ''account-'' @ show_opt (acc_accountId s),
                             ev_streamVersion = acc_version s + 1,
                             ev_data = MoneyWithdrawn (acc_accountId s) (formatMinorUnitsToMoney m) currency transactionId,
                             ev_occurredAt = st_now st, ev_metadata = metadata_of context\<rparr>]))"
  by (cases "acc_status s")
    (auto simp: account_command_defs account_simps bind_result_def account_makeEvent_def split: sum.splits)

text \<open>Whatever commands are run on a new account, accepted or refused, its balance is never
  negative.\<close>

theorem account_balance_never_negative:
  "0 \<le> acc_balance (fst (run_commands account_operation cs new_account))"
proof -
  obtain s us where r: "run_commands account_operation cs new_account = (s, us)" by fastforce
  then have "0 \<le> acc_balance s"
    using acct_cmd.run_commands_invariant [of cs new_account_state "[]" s us "\<lambda>s. 0 \<le> acc_balance s"] account_inv_step
    by (auto simp: new_account_def new_account_state_def)
  then show ?thesis by (simp add: r)
qed

text \<open>C23: The events an account has raised are a faithful record of it: replayed into a fresh
  object they give exactly the state the commands built up, and they are numbered from one without a
  gap.\<close>

theorem account_events_replay:
  "loadFromHistory account_when (snd (run_commands account_operation cs new_account)) new_account
     = Inr (fst (run_commands account_operation cs new_account), [])
   \<and> numbered 0 (snd (run_commands account_operation cs new_account))"
  using acct_cmd.run_commands_replay [of cs new_account_state]
  by (cases "run_commands account_operation cs new_account") (auto simp: new_account_def, simp add: new_account_state_def)

text \<open>A snapshot loses nothing: restoring the snapshot of an account, at its version, into a fresh
  object gives back every field of its state.\<close>

theorem account_snapshot_roundtrip:
  "restoreSnapshot (getSnapshotState (s, us)) (acc_version s) new_account = Inr (s, [])"
  by (simp add: restoreSnapshot_def getSnapshotState_def show_int_BigInt new_account_def)

text \<open>A frozen account is closed for good: no sequence of commands changes any field of it or
  raises an event.\<close>

theorem frozen_account_is_inert:
  assumes "truthy (acc_accountId s)" and "acc_status s = FROZEN"
  shows "run_commands account_operation cs (s, us) = (s, us)"
proof (induction cs)
  case Nil
  then show ?case by simp
next
  case (Cons x cs)
  obtain c ctx st where x: "x = (c, ctx, st)" by (cases x)
  have "\<exists>e. account_operation c ctx st (s, us) = Inl e"
    using assms by (cases c) (auto simp: account_command_defs)
  then show ?case using Cons x by auto
qed

theorem frozen_account_is_inert_witness:
  "run_commands account_operation [(DepositMoney (StringAmount ''5.00'') ''USD'' ''t'',
       \<lparr>ctx_commandId = ''c'', ctx_correlationId = ''r'', ctx_causationId = None, ctx_actor = None, ctx_traceId = None\<rparr>,
       \<lparr>st_uuid = ''e'', st_now = 0\<rparr>)]
     (new_account_state\<lparr>acc_accountId := Some ''a'', acc_status := FROZEN\<rparr>, [])
   = (new_account_state\<lparr>acc_accountId := Some ''a'', acc_status := FROZEN\<rparr>, [])"
  by (rule frozen_account_is_inert) simp_all

text \<open>The freeze command does not check that the account exists: on a fresh object it is accepted
  and raises version 1 of the stream, and the account can still be created afterwards, as version 2,
  and is then active.\<close>

theorem freeze_of_missing_account_accepted:
  "\<exists>us. run_commands account_operation
      [(FreezeAccount ''fraud'', ctx, st1), (CreateAccount ''a-1'' ''o-1'' ''USD'', ctx, st2)] new_account
    = (\<lparr>acc_accountId = Some ''a-1'', acc_ownerId = Some ''o-1'', acc_currency = Some ''USD'', acc_status = ACTIVE,
        acc_balance = 0, acc_version = 2\<rparr>, us)
    \<and> map ev_data us = [AccountFrozen None ''fraud'', AccountCreated ''a-1'' ''o-1'' ''USD'']"
  by (simp add: new_account_def new_account_state_def account_command_defs account_simps)

end
