(* ===== verification/TransferAggregate.thy ===== *)
theory TransferAggregate
  imports Events "HOL-Library.Sublist"
begin

text \<open>
  \<open>src/modules/transfers/domain/transfer.aggregate.ts\<close> and \<open>transfer-status.enum.ts\<close>: the transfer
  aggregate, its eight commands and its event handler.
\<close>

section \<open>State\<close>

datatype transfer_status =
    T_INITIATED | T_DEBIT_IN_PROGRESS | T_DEBITED | T_CREDIT_IN_PROGRESS | T_COMPLETED
  | T_FAILED | T_COMPENSATION_IN_PROGRESS | T_COMPENSATED

fun status_name :: "transfer_status \<Rightarrow> string" where
  "status_name T_INITIATED = ''INITIATED''"
| "status_name T_DEBIT_IN_PROGRESS = ''DEBIT_IN_PROGRESS''"
| "status_name T_DEBITED = ''DEBITED''"
| "status_name T_CREDIT_IN_PROGRESS = ''CREDIT_IN_PROGRESS''"
| "status_name T_COMPLETED = ''COMPLETED''"
| "status_name T_FAILED = ''FAILED''"
| "status_name T_COMPENSATION_IN_PROGRESS = ''COMPENSATION_IN_PROGRESS''"
| "status_name T_COMPENSATED = ''COMPENSATED''"

record transfer_state =
  tr_transferId :: "string option"
  tr_sourceAccountId :: "string option"
  tr_destinationAccountId :: "string option"
  tr_amountMinorUnits :: int
  tr_currency :: "string option"
  tr_status :: "transfer_status option"
  tr_version :: int
  tr_failureReason :: "string option"
  tr_failureStage :: "stage option"
  tr_sourceDebitTransactionId :: "string option"
  tr_destinationCreditTransactionId :: "string option"
  tr_compensationTransactionId :: "string option"
  tr_debitAttempts :: int
  tr_creditAttempts :: int
  tr_compensationAttempts :: int
  tr_createdAt :: "int option"
  tr_updatedAt :: "int option"

type_synonym transfer = "transfer_state aggregate"

definition new_transfer_state :: transfer_state where
  "new_transfer_state =
     \<lparr>tr_transferId = None, tr_sourceAccountId = None, tr_destinationAccountId = None, tr_amountMinorUnits = 0,
      tr_currency = None, tr_status = None, tr_version = 0, tr_failureReason = None, tr_failureStage = None,
      tr_sourceDebitTransactionId = None, tr_destinationCreditTransactionId = None,
      tr_compensationTransactionId = None, tr_debitAttempts = 0, tr_creditAttempts = 0,
      tr_compensationAttempts = 0, tr_createdAt = None, tr_updatedAt = None\<rparr>"

definition new_transfer :: transfer where
  "new_transfer = (new_transfer_state, [])"

section \<open>Event handler\<close>

definition transfer_when :: "transfer_state \<Rightarrow> domain_event \<Rightarrow> transfer_state result" where
  "transfer_when s event =
     (let s1 = s\<lparr>tr_version := ev_streamVersion event, tr_updatedAt := Some (ev_occurredAt event)\<rparr>
      in case ev_data event of
           TransferInitiated transferId source destination amount currency \<Rightarrow>
             bind_result (parseMoneyToMinorUnits (StringAmount amount)) (\<lambda>m.
               Inr (s1\<lparr>tr_transferId := Some transferId, tr_sourceAccountId := Some source,
                       tr_destinationAccountId := Some destination, tr_amountMinorUnits := m,
                       tr_currency := Some currency, tr_status := Some T_INITIATED,
                       tr_createdAt := Some (ev_occurredAt event), tr_failureReason := None,
                       tr_failureStage := None\<rparr>))
         | TransferDebitStarted _ transactionId attempts \<Rightarrow>
             Inr (s1\<lparr>tr_status := Some T_DEBIT_IN_PROGRESS, tr_sourceDebitTransactionId := Some transactionId,
                     tr_debitAttempts := attempts, tr_failureReason := None, tr_failureStage := None\<rparr>)
         | TransferDebited _ _ \<Rightarrow> Inr (s1\<lparr>tr_status := Some T_DEBITED\<rparr>)
         | TransferCreditStarted _ transactionId attempts \<Rightarrow>
             Inr (s1\<lparr>tr_status := Some T_CREDIT_IN_PROGRESS, tr_destinationCreditTransactionId := Some transactionId,
                     tr_creditAttempts := attempts, tr_failureReason := None, tr_failureStage := None\<rparr>)
         | TransferCompleted _ \<Rightarrow> Inr (s1\<lparr>tr_status := Some T_COMPLETED\<rparr>)
         | TransferFailed _ reason stage \<Rightarrow>
             Inr (s1\<lparr>tr_status := Some T_FAILED, tr_failureReason := Some reason, tr_failureStage := Some stage\<rparr>)
         | TransferCompensationStarted _ transactionId attempts \<Rightarrow>
             Inr (s1\<lparr>tr_status := Some T_COMPENSATION_IN_PROGRESS, tr_compensationTransactionId := Some transactionId,
                     tr_compensationAttempts := attempts\<rparr>)
         | TransferCompensated _ _ \<Rightarrow> Inr (s1\<lparr>tr_status := Some T_COMPENSATED\<rparr>)
         | _ \<Rightarrow> Inr s1)"

section \<open>Commands\<close>

text \<open>The stream id falls back on the event's own transfer id while the aggregate has none (or an empty one).\<close>

fun data_transferId :: "event_data \<Rightarrow> string option" where
  "data_transferId (TransferInitiated t _ _ _ _) = Some t"
| "data_transferId (TransferDebitStarted t _ _) = t"
| "data_transferId (TransferDebited t _) = t"
| "data_transferId (TransferCreditStarted t _ _) = t"
| "data_transferId (TransferCompleted t) = t"
| "data_transferId (TransferFailed t _ _) = t"
| "data_transferId (TransferCompensationStarted t _ _) = t"
| "data_transferId (TransferCompensated t _) = t"
| "data_transferId _ = None"

definition transfer_makeEvent :: "transfer_state \<Rightarrow> event_data \<Rightarrow> command_context \<Rightarrow> stamp \<Rightarrow> domain_event" where
  "transfer_makeEvent s data context st =
     \<lparr>ev_eventId = st_uuid st,
      ev_streamId = ''transfer-'' @ show_opt (if truthy (tr_transferId s) then tr_transferId s else data_transferId data),
      ev_streamVersion = tr_version s + 1, ev_data = data, ev_occurredAt = st_now st,
      ev_metadata = metadata_of context\<rparr>"

definition transfer_raise :: "transfer \<Rightarrow> event_data \<Rightarrow> command_context \<Rightarrow> stamp \<Rightarrow> transfer result" where
  "transfer_raise a data context st =
     apply_event transfer_when (transfer_makeEvent (fst a) data context st) False a"

definition status_text :: "transfer_state \<Rightarrow> string" where
  "status_text s = (case tr_status s of None \<Rightarrow> ''UNKNOWN'' | Some t \<Rightarrow> status_name t)"

definition transfer_initiate ::
  "string \<Rightarrow> string \<Rightarrow> string \<Rightarrow> money_input \<Rightarrow> string \<Rightarrow> command_context \<Rightarrow> stamp \<Rightarrow> transfer \<Rightarrow> transfer result" where
  "transfer_initiate transferId source destination amount currency context st a =
     (if truthy (tr_transferId (fst a)) then Inl (BadRequest ''Transfer already exists'')
      else if source = destination then Inl (BadRequest ''Source and destination accounts must be different'')
      else bind_result (parseMoneyToMinorUnits amount) (\<lambda>amountMinorUnits.
        if amountMinorUnits \<le> 0 then Inl (BadRequest ''Transfer amount must be positive'')
        else transfer_raise a
               (TransferInitiated transferId source destination (formatMinorUnitsToMoney amountMinorUnits) currency)
               context st))"

definition transfer_startDebit :: "string \<Rightarrow> command_context \<Rightarrow> stamp \<Rightarrow> transfer \<Rightarrow> transfer result" where
  "transfer_startDebit transactionId context st a =
     (let s = fst a
      in if tr_status s \<notin> {Some T_INITIATED, Some T_DEBIT_IN_PROGRESS}
         then Inl (BadRequest (''Cannot start debit from status '' @ status_text s))
         else transfer_raise a (TransferDebitStarted (tr_transferId s) transactionId (tr_debitAttempts s + 1)) context st)"

definition transfer_markDebited :: "command_context \<Rightarrow> stamp \<Rightarrow> transfer \<Rightarrow> transfer result" where
  "transfer_markDebited context st a =
     (let s = fst a
      in if tr_status s \<noteq> Some T_DEBIT_IN_PROGRESS
         then Inl (BadRequest (''Cannot mark transfer debited from status '' @ status_text s))
         else transfer_raise a (TransferDebited (tr_transferId s) (tr_sourceDebitTransactionId s)) context st)"

definition transfer_startCredit :: "string \<Rightarrow> command_context \<Rightarrow> stamp \<Rightarrow> transfer \<Rightarrow> transfer result" where
  "transfer_startCredit transactionId context st a =
     (let s = fst a
      in if tr_status s \<notin> {Some T_DEBITED, Some T_CREDIT_IN_PROGRESS}
         then Inl (BadRequest (''Cannot start credit from status '' @ status_text s))
         else transfer_raise a (TransferCreditStarted (tr_transferId s) transactionId (tr_creditAttempts s + 1)) context st)"

definition transfer_complete :: "command_context \<Rightarrow> stamp \<Rightarrow> transfer \<Rightarrow> transfer result" where
  "transfer_complete context st a =
     (let s = fst a
      in if tr_status s \<noteq> Some T_CREDIT_IN_PROGRESS
         then Inl (BadRequest (''Cannot complete transfer from status '' @ status_text s))
         else transfer_raise a (TransferCompleted (tr_transferId s)) context st)"

definition transfer_fail :: "string \<Rightarrow> stage \<Rightarrow> command_context \<Rightarrow> stamp \<Rightarrow> transfer \<Rightarrow> transfer result" where
  "transfer_fail reason stage context st a =
     (let s = fst a
      in if tr_status s \<notin> {Some T_DEBIT_IN_PROGRESS, Some T_CREDIT_IN_PROGRESS}
         then Inl (BadRequest (''Cannot fail transfer from status '' @ status_text s))
         else if reason = '''' then Inl (BadRequest ''Failure reason is required'')
         else transfer_raise a (TransferFailed (tr_transferId s) reason stage) context st)"

definition transfer_startCompensation :: "string \<Rightarrow> command_context \<Rightarrow> stamp \<Rightarrow> transfer \<Rightarrow> transfer result" where
  "transfer_startCompensation transactionId context st a =
     (let s = fst a
      in if tr_status s \<notin> {Some T_FAILED, Some T_COMPENSATION_IN_PROGRESS}
         then Inl (BadRequest (''Cannot start compensation from status '' @ status_text s))
         else if tr_failureStage s \<noteq> Some CREDIT
         then Inl (BadRequest ''Compensation is only allowed after a debited transfer fails during credit'')
         else transfer_raise a
                (TransferCompensationStarted (tr_transferId s) transactionId (tr_compensationAttempts s + 1)) context st)"

definition transfer_markCompensated :: "command_context \<Rightarrow> stamp \<Rightarrow> transfer \<Rightarrow> transfer result" where
  "transfer_markCompensated context st a =
     (let s = fst a
      in if tr_status s \<noteq> Some T_COMPENSATION_IN_PROGRESS
         then Inl (BadRequest (''Cannot mark transfer compensated from status '' @ status_text s))
         else transfer_raise a (TransferCompensated (tr_transferId s) (tr_compensationTransactionId s)) context st)"

section \<open>The commands as the handlers run them\<close>

datatype transfer_command =
    InitiateTransfer string string string money_input string
  | StartDebitTransfer string
  | MarkTransferDebited
  | StartCreditTransfer string
  | CompleteTransfer
  | FailTransfer string stage
  | StartTransferCompensation string
  | CompleteTransferCompensation

fun transfer_operation :: "transfer_command \<Rightarrow> command_context \<Rightarrow> stamp \<Rightarrow> transfer \<Rightarrow> transfer result" where
  "transfer_operation (InitiateTransfer t src dst amount currency) context st a =
     transfer_initiate t src dst amount currency context st a"
| "transfer_operation (StartDebitTransfer transactionId) context st a = transfer_startDebit transactionId context st a"
| "transfer_operation MarkTransferDebited context st a = transfer_markDebited context st a"
| "transfer_operation (StartCreditTransfer transactionId) context st a = transfer_startCredit transactionId context st a"
| "transfer_operation CompleteTransfer context st a = transfer_complete context st a"
| "transfer_operation (FailTransfer reason stage) context st a = transfer_fail reason stage context st a"
| "transfer_operation (StartTransferCompensation transactionId) context st a =
     transfer_startCompensation transactionId context st a"
| "transfer_operation CompleteTransferCompensation context st a = transfer_markCompensated context st a"

section \<open>Lemmas\<close>

named_theorems transfer_simps \<open>evaluation of the transfer aggregate\<close>

lemmas transfer_command_defs =
  transfer_initiate_def transfer_startDebit_def transfer_markDebited_def transfer_startCredit_def
  transfer_complete_def transfer_fail_def transfer_startCompensation_def transfer_markCompensated_def

lemma transfer_when_version: "transfer_when s e = Inr s' \<Longrightarrow> tr_version s' = ev_streamVersion e"
  by (auto simp: transfer_when_def Let_def bind_result_Inr_iff split: event_data.splits)

lemma transfer_when_core: "same_core e e' \<Longrightarrow> transfer_when s e = transfer_when s e'"
  by (simp add: transfer_when_def same_core_def Let_def split: event_data.splits)

lemma transfer_makeEvent_fields [simp]:
  "ev_data (transfer_makeEvent s data context st) = data"
  "ev_streamVersion (transfer_makeEvent s data context st) = tr_version s + 1"
  "ev_eventId (transfer_makeEvent s data context st) = st_uuid st"
  "ev_occurredAt (transfer_makeEvent s data context st) = st_now st"
  "ev_metadata (transfer_makeEvent s data context st) = metadata_of context"
  by (simp_all add: transfer_makeEvent_def)

text \<open>Raising an event is the handler's update and one more uncommitted event.\<close>

lemma transfer_raise_apply:
  "transfer_raise (s, us) data context st =
     bind_result (transfer_when s (transfer_makeEvent s data context st)) (\<lambda>s'.
       Inr (s', us @ [transfer_makeEvent s data context st]))"
  by (simp add: transfer_raise_def apply_event_def)

lemma transfer_when_initiated [transfer_simps]:
  "ev_data e = TransferInitiated t src dst (formatMinorUnitsToMoney m) c \<Longrightarrow> transfer_when s e =
     Inr (s\<lparr>tr_version := ev_streamVersion e, tr_updatedAt := Some (ev_occurredAt e), tr_transferId := Some t,
            tr_sourceAccountId := Some src, tr_destinationAccountId := Some dst, tr_amountMinorUnits := m,
            tr_currency := Some c, tr_status := Some T_INITIATED, tr_createdAt := Some (ev_occurredAt e),
            tr_failureReason := None, tr_failureStage := None\<rparr>)"
  by (simp add: transfer_when_def)

lemma transfer_operation_raises:
  assumes "transfer_operation c context st a = Inr a'"
  shows "\<exists>data. transfer_raise a data context st = Inr a'"
  using assms by (cases c) (auto simp: transfer_command_defs bind_result_Inr_iff Let_def split: if_splits)

interpretation trf: event_sourced transfer_when tr_version
  by unfold_locales (auto intro: transfer_when_version transfer_when_core)

interpretation trf_cmd: event_sourced_commands transfer_when tr_version transfer_operation
proof unfold_locales
  fix c :: transfer_command and ctx st s us s' us'
  assume "transfer_operation c ctx st (s, us) = Inr (s', us')"
  then obtain data where "transfer_raise (s, us) data ctx st = Inr (s', us')"
    using transfer_operation_raises by blast
  then show "\<exists>e. us' = us @ [e] \<and> ev_streamVersion e = tr_version s + 1 \<and> ev_eventId e = st_uuid st
      \<and> ev_occurredAt e = st_now st \<and> transfer_when s e = Inr s'"
    by (auto simp: transfer_raise_apply bind_result_Inr_iff)
qed

text \<open>The event each command raises, with the guard under which it does.\<close>

fun command_data :: "transfer_command \<Rightarrow> transfer_state \<Rightarrow> event_data result" where
  "command_data (InitiateTransfer t src dst amount currency) s =
     (if truthy (tr_transferId s) then Inl (BadRequest ''Transfer already exists'')
      else if src = dst then Inl (BadRequest ''Source and destination accounts must be different'')
      else bind_result (parseMoneyToMinorUnits amount) (\<lambda>m.
        if m \<le> 0 then Inl (BadRequest ''Transfer amount must be positive'')
        else Inr (TransferInitiated t src dst (formatMinorUnitsToMoney m) currency)))"
| "command_data (StartDebitTransfer x) s =
     (if tr_status s \<in> {Some T_INITIATED, Some T_DEBIT_IN_PROGRESS}
      then Inr (TransferDebitStarted (tr_transferId s) x (tr_debitAttempts s + 1))
      else Inl (BadRequest (''Cannot start debit from status '' @ status_text s)))"
| "command_data MarkTransferDebited s =
     (if tr_status s = Some T_DEBIT_IN_PROGRESS then Inr (TransferDebited (tr_transferId s) (tr_sourceDebitTransactionId s))
      else Inl (BadRequest (''Cannot mark transfer debited from status '' @ status_text s)))"
| "command_data (StartCreditTransfer x) s =
     (if tr_status s \<in> {Some T_DEBITED, Some T_CREDIT_IN_PROGRESS}
      then Inr (TransferCreditStarted (tr_transferId s) x (tr_creditAttempts s + 1))
      else Inl (BadRequest (''Cannot start credit from status '' @ status_text s)))"
| "command_data CompleteTransfer s =
     (if tr_status s = Some T_CREDIT_IN_PROGRESS then Inr (TransferCompleted (tr_transferId s))
      else Inl (BadRequest (''Cannot complete transfer from status '' @ status_text s)))"
| "command_data (FailTransfer reason stage) s =
     (if tr_status s \<in> {Some T_DEBIT_IN_PROGRESS, Some T_CREDIT_IN_PROGRESS}
      then if reason = '''' then Inl (BadRequest ''Failure reason is required'')
           else Inr (TransferFailed (tr_transferId s) reason stage)
      else Inl (BadRequest (''Cannot fail transfer from status '' @ status_text s)))"
| "command_data (StartTransferCompensation x) s =
     (if tr_status s \<in> {Some T_FAILED, Some T_COMPENSATION_IN_PROGRESS}
      then if tr_failureStage s = Some CREDIT
           then Inr (TransferCompensationStarted (tr_transferId s) x (tr_compensationAttempts s + 1))
           else Inl (BadRequest ''Compensation is only allowed after a debited transfer fails during credit'')
      else Inl (BadRequest (''Cannot start compensation from status '' @ status_text s)))"
| "command_data CompleteTransferCompensation s =
     (if tr_status s = Some T_COMPENSATION_IN_PROGRESS
      then Inr (TransferCompensated (tr_transferId s) (tr_compensationTransactionId s))
      else Inl (BadRequest (''Cannot mark transfer compensated from status '' @ status_text s)))"

lemma transfer_operation_data:
  "transfer_operation c context st (s, us) =
     bind_result (command_data c s) (\<lambda>data. transfer_raise (s, us) data context st)"
  by (cases c) (auto simp: transfer_command_defs Let_def bind_result_def split: sum.splits)

section \<open>The life of a transfer\<close>

text \<open>
  The specification of the aggregate: the phases of a transfer and the events that move it from one
  to the next.  A failure remembers the stage it was reported for.
\<close>

datatype phase =
    Absent | Initiated | Debiting | Debited | Crediting | Completed | FailedAt stage | Compensating | Compensated

inductive lifecycle :: "phase \<Rightarrow> event_data \<Rightarrow> phase \<Rightarrow> bool" where
  lc_initiate: "src \<noteq> dst \<Longrightarrow> lifecycle Absent (TransferInitiated t src dst amount c) Initiated"
| lc_debit: "p = Initiated \<or> p = Debiting \<Longrightarrow> lifecycle p (TransferDebitStarted t x n) Debiting"
| lc_debited: "lifecycle Debiting (TransferDebited t x) Debited"
| lc_credit: "p = Debited \<or> p = Crediting \<Longrightarrow> lifecycle p (TransferCreditStarted t x n) Crediting"
| lc_complete: "lifecycle Crediting (TransferCompleted t) Completed"
| lc_fail: "p = Debiting \<or> p = Crediting \<Longrightarrow> r \<noteq> '''' \<Longrightarrow> lifecycle p (TransferFailed t r stage) (FailedAt stage)"
| lc_compensate: "p = FailedAt CREDIT \<or> p = Compensating \<Longrightarrow> lifecycle p (TransferCompensationStarted t x n) Compensating"
| lc_compensated: "lifecycle Compensating (TransferCompensated t x) Compensated"

inductive_simps lifecycle_to_simps:
  "lifecycle p d Absent" "lifecycle p d Initiated" "lifecycle p d Debiting" "lifecycle p d Debited"
  "lifecycle p d Crediting" "lifecycle p d Completed" "lifecycle p d (FailedAt st)" "lifecycle p d Compensating"
  "lifecycle p d Compensated"

inductive_cases lifecycle_from_terminalE: "lifecycle Completed d q" "lifecycle Compensated d q" "lifecycle (FailedAt DEBIT) d q"

text \<open>The phase a state of the aggregate stands for.\<close>

definition phase_of :: "transfer_state \<Rightarrow> phase" where
  "phase_of s = (case tr_status s of
       None \<Rightarrow> Absent
     | Some T_INITIATED \<Rightarrow> Initiated
     | Some T_DEBIT_IN_PROGRESS \<Rightarrow> Debiting
     | Some T_DEBITED \<Rightarrow> Debited
     | Some T_CREDIT_IN_PROGRESS \<Rightarrow> Crediting
     | Some T_COMPLETED \<Rightarrow> Completed
     | Some T_FAILED \<Rightarrow> FailedAt (case tr_failureStage s of None \<Rightarrow> DEBIT | Some st \<Rightarrow> st)
     | Some T_COMPENSATION_IN_PROGRESS \<Rightarrow> Compensating
     | Some T_COMPENSATED \<Rightarrow> Compensated)"

text \<open>
  The states reached from a new transfer, as long as its id is not the empty text: the id is set with
  the first event and the failure stage is there exactly when it is needed.
\<close>

definition transfer_ok :: "transfer_state \<Rightarrow> bool" where
  "transfer_ok s \<longleftrightarrow> (truthy (tr_transferId s) \<longleftrightarrow> tr_status s \<noteq> None)
     \<and> (tr_status s = Some T_FAILED \<longrightarrow> tr_failureStage s \<noteq> None)
     \<and> (tr_status s = Some T_COMPENSATION_IN_PROGRESS \<longrightarrow> tr_failureStage s = Some CREDIT)"

fun names_transfer :: "transfer_command \<Rightarrow> bool" where
  "names_transfer (InitiateTransfer t _ _ _ _) = (t \<noteq> '''')"
| "names_transfer _ = True"

lemma transfer_operation_event:
  "transfer_operation c context st (s, us) = Inr (s', us') \<longleftrightarrow>
     (\<exists>data. command_data c s = Inr data \<and> us' = us @ [transfer_makeEvent s data context st]
        \<and> transfer_when s (transfer_makeEvent s data context st) = Inr s')"
  by (auto simp: transfer_operation_data transfer_raise_apply bind_result_Inr_iff)

lemma transfer_step_lifecycle:
  assumes "transfer_ok s" "names_transfer c" "command_data c s = Inr data"
    "transfer_when s (transfer_makeEvent s data context st) = Inr s'"
  shows "transfer_ok s' \<and> lifecycle (phase_of s) data (phase_of s')"
  using assms
  by (cases c)
    (auto simp: transfer_ok_def bind_result_Inr_iff transfer_when_def phase_of_def lifecycle_to_simps split: if_splits)

lemma run_refines_lifecycle:
  assumes "run_commands transfer_operation cs (s, us) = (s', us')" "transfer_ok s" "list_all (\<lambda>c. names_transfer (fst c)) cs"
    and "path lifecycle p (map ev_data us) (phase_of s)"
  shows "transfer_ok s' \<and> path lifecycle p (map ev_data us') (phase_of s')"
  using assms
proof (induction cs arbitrary: s us)
  case Nil
  then show ?case by simp
next
  case (Cons x cs)
  obtain c ctx st where x: "x = (c, ctx, st)" by (cases x)
  show ?case
  proof (cases "transfer_operation c ctx st (s, us)")
    case (Inl e)
    with Cons x show ?thesis by auto
  next
    case (Inr a)
    then obtain s1 us1 where a: "transfer_operation c ctx st (s, us) = Inr (s1, us1)" by (cases a) auto
    then obtain data where data: "command_data c s = Inr data" "us1 = us @ [transfer_makeEvent s data ctx st]"
        "transfer_when s (transfer_makeEvent s data ctx st) = Inr s1"
      by (auto simp: transfer_operation_event)
    moreover have "names_transfer c" using Cons.prems x by auto
    ultimately have "transfer_ok s1" "lifecycle (phase_of s) data (phase_of s1)"
      using transfer_step_lifecycle [of s c data ctx st s1] Cons.prems(2) by auto
    with Cons.IH [of s1 us1] Cons.prems x a data
      path_snoc [of lifecycle p "map ev_data us" "phase_of s" data "phase_of s1"]
    show ?thesis by simp
  qed
qed

lemma new_transfer_ok: "transfer_ok new_transfer_state" "phase_of new_transfer_state = Absent"
  by (simp_all add: transfer_ok_def phase_of_def new_transfer_state_def)

text \<open>What the log of a transfer must contain, by the phase it has reached.\<close>

fun milestones :: "phase \<Rightarrow> string list" where
  "milestones Absent = []"
| "milestones Initiated = [''TransferInitiated'']"
| "milestones Debiting = [''TransferInitiated'', ''TransferDebitStarted'']"
| "milestones Debited = [''TransferInitiated'', ''TransferDebitStarted'', ''TransferDebited'']"
| "milestones Crediting = [''TransferInitiated'', ''TransferDebitStarted'', ''TransferDebited'', ''TransferCreditStarted'']"
| "milestones Completed =
     [''TransferInitiated'', ''TransferDebitStarted'', ''TransferDebited'', ''TransferCreditStarted'', ''TransferCompleted'']"
| "milestones (FailedAt _) = [''TransferInitiated'', ''TransferDebitStarted'', ''TransferFailed'']"
| "milestones Compensating =
     [''TransferInitiated'', ''TransferDebitStarted'', ''TransferFailed'', ''TransferCompensationStarted'']"
| "milestones Compensated =
     [''TransferInitiated'', ''TransferDebitStarted'', ''TransferFailed'', ''TransferCompensationStarted'',
      ''TransferCompensated'']"

lemma subseq_snocI:
  assumes "subseq (xs @ zs) ys"
  shows "subseq (xs @ [z]) (ys @ [z])" "subseq (xs @ zs) (ys @ w)"
  using assms subseq_order.trans [OF subseq_rev_drop_many [OF subseq_order.order_refl, of xs zs] assms]
  by (auto intro: subseq_rev_drop_many)

lemma path_milestones: "path lifecycle Absent ds p \<Longrightarrow> subseq (milestones p) (map eventType ds)"
proof (induction Absent ds p rule: path.induct)
  case path_Nil
  then show ?case by simp
next
  case (path_snoc ls q l r)
  have stay: "subseq (milestones r) (map eventType (ls @ [l]))" if "r = q"
    using that path_snoc(2) by (simp add: subseq_rev_drop_many)
  have go: "subseq (milestones r) (map eventType (ls @ [l]))"
    if "milestones q = xs @ zs" "milestones r = xs @ [eventType l]" for xs zs
    using that path_snoc(2) subseq_snocI(1) [of xs zs "map eventType ls" "eventType l"] by simp
  show ?case
    using path_snoc(3) stay go [of "milestones q" "[]"] go [of "milestones Debiting" "[]"]
      go [of "milestones Debiting" "[''TransferDebited'', ''TransferCreditStarted'']"]
    by cases auto
qed

lemma command_keeps_agreement:
  assumes "truthy (tr_transferId s)" "tr_status s \<noteq> None"
    "transfer_operation c context st (s, us) = Inr (s', us')"
  shows "tr_transferId s' = tr_transferId s \<and> tr_sourceAccountId s' = tr_sourceAccountId s
       \<and> tr_destinationAccountId s' = tr_destinationAccountId s \<and> tr_amountMinorUnits s' = tr_amountMinorUnits s
       \<and> tr_currency s' = tr_currency s \<and> tr_createdAt s' = tr_createdAt s \<and> tr_status s' \<noteq> None"
proof -
  obtain data where "command_data c s = Inr data" "transfer_when s (transfer_makeEvent s data context st) = Inr s'"
    using assms(3) by (auto simp: transfer_operation_event)
  with assms(1,2) show ?thesis
    by (cases c) (auto simp: transfer_when_def split: if_splits)
qed

text \<open>The number of attempts of each leg is the number of times it was started.\<close>

definition times :: "string \<Rightarrow> domain_event list \<Rightarrow> int" where
  "times t us = int (length (filter (\<lambda>e. eventType (ev_data e) = t) us))"

lemma times_simps [simp]:
  "times t [] = 0"
  "times t (us @ [e]) = (if eventType (ev_data e) = t then times t us + 1 else times t us)"
  by (simp_all add: times_def)

definition attempts_counted :: "transfer_state \<Rightarrow> domain_event list \<Rightarrow> bool" where
  "attempts_counted s us \<longleftrightarrow>
     tr_debitAttempts s = times ''TransferDebitStarted'' us \<and> tr_creditAttempts s = times ''TransferCreditStarted'' us
   \<and> tr_compensationAttempts s = times ''TransferCompensationStarted'' us"

lemma transfer_when_attempts:
  assumes "transfer_when s e = Inr s'"
  shows "tr_debitAttempts s' = (case ev_data e of TransferDebitStarted _ _ n \<Rightarrow> n | _ \<Rightarrow> tr_debitAttempts s)"
    and "tr_creditAttempts s' = (case ev_data e of TransferCreditStarted _ _ n \<Rightarrow> n | _ \<Rightarrow> tr_creditAttempts s)"
    and "tr_compensationAttempts s' =
       (case ev_data e of TransferCompensationStarted _ _ n \<Rightarrow> n | _ \<Rightarrow> tr_compensationAttempts s)"
  using assms by (auto simp: transfer_when_def bind_result_Inr_iff Let_def split: event_data.splits)

lemma attempts_step:
  assumes "attempts_counted s us" "transfer_operation c context st (s, us) = Inr (s', us')"
  shows "attempts_counted s' us'"
proof -
  obtain data where "command_data c s = Inr data" "us' = us @ [transfer_makeEvent s data context st]"
      "transfer_when s (transfer_makeEvent s data context st) = Inr s'"
    using assms(2) by (auto simp: transfer_operation_event)
  note facts = this(1,2) transfer_when_attempts [OF this(3)] assms(1) [unfolded attempts_counted_def]
  show ?thesis
  proof (cases c)
    case (InitiateTransfer t src dst amount cur)
    with facts show ?thesis by (auto simp: attempts_counted_def bind_result_Inr_iff split: if_split_asm)
  next
    case (FailTransfer r stg)
    with facts show ?thesis by (auto simp: attempts_counted_def split: if_split_asm)
  next
    case (StartDebitTransfer x)
    with facts show ?thesis by (auto simp: attempts_counted_def split: if_split_asm)
  next
    case (StartCreditTransfer x)
    with facts show ?thesis by (auto simp: attempts_counted_def split: if_split_asm)
  next
    case (StartTransferCompensation x)
    with facts show ?thesis by (auto simp: attempts_counted_def split: if_split_asm)
  qed (use facts in \<open>auto simp: attempts_counted_def split: if_split_asm\<close>)
qed

lemma run_attempts:
  assumes "run_commands transfer_operation cs (s, us) = (s', us')" "attempts_counted s us"
  shows "attempts_counted s' us'"
  using assms
proof (induction cs arbitrary: s us)
  case Nil
  then show ?case by simp
next
  case (Cons x cs)
  obtain c ctx st where x: "x = (c, ctx, st)" by (cases x)
  show ?case
  proof (cases "transfer_operation c ctx st (s, us)")
    case (Inl e)
    with Cons x show ?thesis by simp
  next
    case (Inr a)
    then obtain s1 us1 where "transfer_operation c ctx st (s, us) = Inr (s1, us1)" by (cases a) auto
    with Cons.IH [of s1 us1] Cons.prems attempts_step [of s us c ctx st s1 us1] x show ?thesis by simp
  qed
qed

section \<open>Properties\<close>


definition sample_context :: command_context where
  "sample_context = \<lparr>ctx_commandId = ''c'', ctx_correlationId = ''r'', ctx_causationId = None, ctx_actor = None, ctx_traceId = None\<rparr>"


text \<open>No transfer skips a stage: the log of a transfer in any phase contains, in order, the
  milestones of that phase.  A completed transfer has recorded its initiation, the start and the end of
  the debit, the start of the credit and the completion; a compensated one its failure and its
  compensation after the start of the debit.\<close>

theorem transfer_log_has_milestones:
  assumes "list_all (\<lambda>c. names_transfer (fst c)) cs"
  shows "subseq (milestones (phase_of (fst (run_commands transfer_operation cs new_transfer))))
           (map (\<lambda>e. eventType (ev_data e)) (snd (run_commands transfer_operation cs new_transfer)))"
proof -
  have "path lifecycle Absent (map ev_data (snd (run_commands transfer_operation cs new_transfer)))
           (phase_of (fst (run_commands transfer_operation cs new_transfer)))"
    using run_refines_lifecycle [OF _ new_transfer_ok(1) assms, of "[]" _ _ Absent] new_transfer_ok(2) path_Nil [of lifecycle Absent]
    by (cases "run_commands transfer_operation cs new_transfer") (auto simp: new_transfer_def)
  from path_milestones [OF this] show ?thesis by (simp add: comp_def)
qed

theorem transfer_log_has_milestones_witness:
  "subseq (milestones (phase_of (fst (run_commands transfer_operation
      [(StartDebitTransfer ''T:debit'', sample_context, \<lparr>st_uuid = ''e'', st_now = 0\<rparr>)] new_transfer))))
    (map (\<lambda>e. eventType (ev_data e)) (snd (run_commands transfer_operation
      [(StartDebitTransfer ''T:debit'', sample_context, \<lparr>st_uuid = ''e'', st_now = 0\<rparr>)] new_transfer)))"
  by (rule transfer_log_has_milestones) simp

text \<open>A transfer that is completed, compensated, or failed in its debit stage is final: no
  sequence of commands changes any field of it or raises an event.\<close>

theorem final_transfer_is_inert:
  assumes "truthy (tr_transferId s)"
    and "tr_status s = Some T_COMPLETED \<or> tr_status s = Some T_COMPENSATED
       \<or> tr_status s = Some T_FAILED \<and> tr_failureStage s = Some DEBIT"
  shows "run_commands transfer_operation cs (s, us) = (s, us)"
proof (induction cs)
  case Nil
  then show ?case by simp
next
  case (Cons x cs)
  obtain c ctx st where x: "x = (c, ctx, st)" by (cases x)
  have "\<exists>e. transfer_operation c ctx st (s, us) = Inl e"
    using assms by (cases c) (auto simp: transfer_command_defs)
  then show ?case using Cons x by auto
qed

theorem final_transfer_is_inert_witness:
  "run_commands transfer_operation [(FailTransfer ''late'' CREDIT, sample_context, \<lparr>st_uuid = ''e'', st_now = 0\<rparr>)]
     (new_transfer_state\<lparr>tr_transferId := Some ''T'', tr_status := Some T_COMPLETED\<rparr>, [])
   = (new_transfer_state\<lparr>tr_transferId := Some ''T'', tr_status := Some T_COMPLETED\<rparr>, [])"
  by (rule final_transfer_is_inert) simp_all

text \<open>The events a transfer has raised are a faithful record of it: replayed into a fresh object
  they give exactly the state the commands built up, they are numbered from one without a gap, and the
  attempt counters of the state are the numbers of start events in the log.\<close>

theorem transfer_events_replay:
  "loadFromHistory transfer_when (snd (run_commands transfer_operation cs new_transfer)) new_transfer
     = Inr (fst (run_commands transfer_operation cs new_transfer), [])
   \<and> numbered 0 (snd (run_commands transfer_operation cs new_transfer))
   \<and> attempts_counted (fst (run_commands transfer_operation cs new_transfer))
       (snd (run_commands transfer_operation cs new_transfer))"
  using trf_cmd.run_commands_replay [of cs new_transfer_state] run_attempts [of cs new_transfer_state "[]"]
  by (cases "run_commands transfer_operation cs new_transfer")
    (auto simp: new_transfer_def, simp_all add: new_transfer_state_def attempts_counted_def)

text \<open>Once initiated, the parties, the amount and the currency of a transfer never change.\<close>

theorem transfer_agreement_is_fixed:
  assumes "transfer_ok s" and "tr_status s \<noteq> None"
    and "run_commands transfer_operation cs (s, us) = (s', us')"
  shows "tr_transferId s' = tr_transferId s \<and> tr_sourceAccountId s' = tr_sourceAccountId s
       \<and> tr_destinationAccountId s' = tr_destinationAccountId s \<and> tr_amountMinorUnits s' = tr_amountMinorUnits s
       \<and> tr_currency s' = tr_currency s \<and> tr_createdAt s' = tr_createdAt s"
proof -
  let ?I = "\<lambda>x. truthy (tr_transferId x) \<and> tr_status x \<noteq> None \<and> tr_transferId x = tr_transferId s
    \<and> tr_sourceAccountId x = tr_sourceAccountId s \<and> tr_destinationAccountId x = tr_destinationAccountId s
    \<and> tr_amountMinorUnits x = tr_amountMinorUnits s \<and> tr_currency x = tr_currency s \<and> tr_createdAt x = tr_createdAt s"
  have "?I s'"
  proof (rule trf_cmd.run_commands_invariant [where I = ?I, OF assms(3)])
    show "?I s" using assms(1,2) by (auto simp: transfer_ok_def)
  next
    fix c ctx st x vs x' vs'
    assume "?I x" "transfer_operation c ctx st (x, vs) = Inr (x', vs')"
    then show "?I x'" using command_keeps_agreement [of x c ctx st vs x' vs'] by auto
  qed
  then show ?thesis by simp
qed

theorem transfer_agreement_is_fixed_witness:
  "tr_amountMinorUnits (fst (run_commands transfer_operation
      [(InitiateTransfer ''T'' ''c'' ''d'' (StringAmount ''9.00'') ''EUR'', sample_context, \<lparr>st_uuid = ''e'', st_now = 0\<rparr>)]
      (new_transfer_state\<lparr>tr_transferId := Some ''T'', tr_amountMinorUnits := 500, tr_status := Some T_INITIATED\<rparr>, []))) = 500"
  using transfer_agreement_is_fixed
    [of "new_transfer_state\<lparr>tr_transferId := Some ''T'', tr_amountMinorUnits := 500, tr_status := Some T_INITIATED\<rparr>"
      "[(InitiateTransfer ''T'' ''c'' ''d'' (StringAmount ''9.00'') ''EUR'', sample_context, \<lparr>st_uuid = ''e'', st_now = 0\<rparr>)]" "[]"]
  by (cases "run_commands transfer_operation
      [(InitiateTransfer ''T'' ''c'' ''d'' (StringAmount ''9.00'') ''EUR'', sample_context, \<lparr>st_uuid = ''e'', st_now = 0\<rparr>)]
      (new_transfer_state\<lparr>tr_transferId := Some ''T'', tr_amountMinorUnits := 500, tr_status := Some T_INITIATED\<rparr>, [])")
    (simp add: transfer_ok_def new_transfer_state_def)

lemma parse_500: "parseMoneyToMinorUnits (StringAmount ''5.00'') = Inr 500"
  by code_simp

text \<open>The failure stage is not tied to the stage the transfer is in: a transfer whose debit never
  happened can be failed with the credit stage and is then compensated, that is, the source is paid
  back without a debit on record.\<close>

theorem compensation_without_debit:
  "map (\<lambda>e. eventType (ev_data e)) (snd (run_commands transfer_operation
      [(InitiateTransfer ''T'' ''a'' ''b'' (StringAmount ''5.00'') ''USD'', sample_context, st1),
       (StartDebitTransfer ''T:debit'', sample_context, st2), (FailTransfer ''x'' CREDIT, sample_context, st3),
       (StartTransferCompensation ''T:compensation'', sample_context, st4),
       (CompleteTransferCompensation, sample_context, st5)] new_transfer))
   = [''TransferInitiated'', ''TransferDebitStarted'', ''TransferFailed'', ''TransferCompensationStarted'',
      ''TransferCompensated'']"
  by (simp add: new_transfer_def new_transfer_state_def transfer_command_defs transfer_raise_apply transfer_when_def
      parse_500)

end
