(* ===== verification/Outbox.thy ===== *)
theory Outbox
  imports Events "HOL-Library.AList" "HOL-Library.Product_Lexorder" "HOL-Library.List_Lexorder" "HOL-Library.Char_ord"
    "HOL-Library.Multiset"
begin

text \<open>
  \<open>src/infrastructure/outbox\<close>: the messages waiting for the broker, the in-memory store, the Postgres
  table and the publisher's loop.  A JavaScript \<open>Map\<close> that is iterated over is an association list:
  \<open>AList.update\<close> keeps the place of a key that is there and appends a new one, as \<open>Map.set\<close> does.
\<close>

section \<open>Messages\<close>

record outbox_message =
  om_id :: string
  om_topic :: string
  om_messageKey :: string
  om_payload :: domain_event
  om_createdAt :: int
  om_eventPosition :: "int option"
  om_publishedAt :: "int option"
  om_attempts :: int
  om_lastError :: "string option"

text \<open>The interface the publisher and the event store are given.\<close>

record 'o outbox_ops =
  ob_stage :: "outbox_message list \<Rightarrow> 'o \<Rightarrow> 'o"
  ob_claimPending :: "nat \<Rightarrow> 'o \<Rightarrow> outbox_message list \<times> 'o"
  ob_markPublished :: "string \<Rightarrow> int \<Rightarrow> 'o \<Rightarrow> 'o"
  ob_markFailed :: "string \<Rightarrow> string \<Rightarrow> 'o \<Rightarrow> 'o"

section \<open>The in-memory store\<close>

record memory_outbox =
  mo_messages :: "(string \<times> outbox_message) list"
  mo_claimed :: "string set"

definition empty_memory_outbox :: memory_outbox where
  "empty_memory_outbox = \<lparr>mo_messages = [], mo_claimed = {}\<rparr>"

definition mo_stage_one :: "outbox_message \<Rightarrow> memory_outbox \<Rightarrow> memory_outbox" where
  "mo_stage_one message s =
     (if map_of (mo_messages s) (om_id message) \<noteq> None then s
      else s\<lparr>mo_messages := AList.update (om_id message) message (mo_messages s)\<rparr>)"

definition mo_stage :: "outbox_message list \<Rightarrow> memory_outbox \<Rightarrow> memory_outbox" where
  "mo_stage messages s = fold mo_stage_one messages s"

definition MAX_SAFE_INTEGER :: int where
  "MAX_SAFE_INTEGER = 2 ^ 53 - 1"

text \<open>The comparison of \<open>sort\<close>: by position, a missing one counting as the largest safe integer, then by
  time; \<open>sort\<close> is stable, as \<open>sort_key\<close> is.\<close>

definition claim_key :: "outbox_message \<Rightarrow> int \<times> int" where
  "claim_key m = (case om_eventPosition m of None \<Rightarrow> MAX_SAFE_INTEGER | Some p \<Rightarrow> p, om_createdAt m)"

definition mo_pending :: "memory_outbox \<Rightarrow> outbox_message list" where
  "mo_pending s =
     sort_key claim_key
       (filter (\<lambda>m. om_publishedAt m = None \<and> om_id m \<notin> mo_claimed s) (map snd (mo_messages s)))"

definition mo_claimPending :: "nat \<Rightarrow> memory_outbox \<Rightarrow> outbox_message list \<times> memory_outbox" where
  "mo_claimPending limit s =
     (let pending = take limit (mo_pending s)
      in (pending, s\<lparr>mo_claimed := mo_claimed s \<union> om_id ` set pending\<rparr>))"

definition mo_markPublished :: "string \<Rightarrow> int \<Rightarrow> memory_outbox \<Rightarrow> memory_outbox" where
  "mo_markPublished i publishedAt s =
     (case map_of (mo_messages s) i of
        None \<Rightarrow> s
      | Some current \<Rightarrow>
          s\<lparr>mo_messages := AList.update i (current\<lparr>om_publishedAt := Some publishedAt, om_lastError := None\<rparr>) (mo_messages s),
            mo_claimed := mo_claimed s - {i}\<rparr>)"

definition mo_markFailed :: "string \<Rightarrow> string \<Rightarrow> memory_outbox \<Rightarrow> memory_outbox" where
  "mo_markFailed i err s =
     (case map_of (mo_messages s) i of
        None \<Rightarrow> s
      | Some current \<Rightarrow>
          s\<lparr>mo_messages := AList.update i (current\<lparr>om_attempts := om_attempts current + 1, om_lastError := Some err\<rparr>) (mo_messages s),
            mo_claimed := mo_claimed s - {i}\<rparr>)"

definition memory_outbox_store :: "memory_outbox outbox_ops" where
  "memory_outbox_store =
     \<lparr>ob_stage = mo_stage, ob_claimPending = mo_claimPending, ob_markPublished = mo_markPublished,
      ob_markFailed = mo_markFailed\<rparr>"

section \<open>The Postgres table\<close>

text \<open>
  The table \<open>outbox_events\<close> is the list of its rows, in the order they were inserted.
\<close>

record outbox_row = outbox_message +
  or_processing_started_at :: "int option"

type_synonym outbox_table = "outbox_row list"

text \<open>\<open>INSERT ... ON CONFLICT (id) DO NOTHING\<close>.\<close>

definition outbox_insert :: "outbox_row \<Rightarrow> outbox_table \<Rightarrow> outbox_table" where
  "outbox_insert row t = (if om_id row \<in> om_id ` set t then t else t @ [row])"

definition row_of :: "outbox_message \<Rightarrow> int option \<Rightarrow> outbox_row" where
  "row_of m p =
     \<lparr>om_id = om_id m, om_topic = om_topic m, om_messageKey = om_messageKey m, om_payload = om_payload m,
      om_createdAt = om_createdAt m, om_eventPosition = p, om_publishedAt = om_publishedAt m,
      om_attempts = om_attempts m, om_lastError = om_lastError m, or_processing_started_at = None\<rparr>"

text \<open>The statement of \<open>stage\<close> does not name the column \<open>event_position\<close>, which stays null.\<close>

definition po_stage :: "outbox_message list \<Rightarrow> outbox_table \<Rightarrow> outbox_table" where
  "po_stage messages t = fold (\<lambda>m. outbox_insert (row_of m None)) messages t"

text \<open>\<open>ORDER BY event_position ASC NULLS LAST, created_at ASC, id ASC\<close>.\<close>

definition po_key :: "outbox_row \<Rightarrow> (bool \<times> int) \<times> int \<times> string" where
  "po_key r = (case om_eventPosition r of None \<Rightarrow> (True, 0) | Some p \<Rightarrow> (False, p), om_createdAt r, om_id r)"

definition po_pending :: "outbox_table \<Rightarrow> outbox_row list" where
  "po_pending t = sort_key po_key (filter (\<lambda>r. om_publishedAt r = None \<and> or_processing_started_at r = None) t)"

text \<open>
  \<open>locked\<close> is the set of ids whose rows other transactions have locked (\<open>SKIP LOCKED\<close>), \<open>now\<close> the
  time of the transaction, and \<open>returning\<close> the order in which the server reports updated rows, which
  the language leaves open.
\<close>

definition po_claimPending ::
  "(outbox_row list \<Rightarrow> outbox_row list) \<Rightarrow> string set \<Rightarrow> int \<Rightarrow> nat \<Rightarrow> outbox_table \<Rightarrow> outbox_message list \<times> outbox_table" where
  "po_claimPending returning locked now limit t =
     (let batch = take limit (filter (\<lambda>r. om_id r \<notin> locked) (po_pending t));
          ids = om_id ` set batch
      in (map outbox_message.truncate (returning batch),
          map (\<lambda>r. if om_id r \<in> ids then r\<lparr>or_processing_started_at := Some now\<rparr> else r) t))"

definition po_markPublished :: "string \<Rightarrow> int \<Rightarrow> outbox_table \<Rightarrow> outbox_table" where
  "po_markPublished i publishedAt t =
     map (\<lambda>r. if om_id r = i
              then r\<lparr>om_publishedAt := Some publishedAt, or_processing_started_at := None, om_lastError := None\<rparr> else r) t"

definition po_markFailed :: "string \<Rightarrow> string \<Rightarrow> outbox_table \<Rightarrow> outbox_table" where
  "po_markFailed i err t =
     map (\<lambda>r. if om_id r = i
              then r\<lparr>om_attempts := om_attempts r + 1, or_processing_started_at := None, om_lastError := Some err\<rparr> else r) t"

definition postgres_outbox_store ::
  "(outbox_row list \<Rightarrow> outbox_row list) \<Rightarrow> string set \<Rightarrow> int \<Rightarrow> outbox_table outbox_ops" where
  "postgres_outbox_store returning locked now =
     \<lparr>ob_stage = po_stage, ob_claimPending = po_claimPending returning locked now,
      ob_markPublished = po_markPublished, ob_markFailed = po_markFailed\<rparr>"

section \<open>The publisher\<close>

text \<open>
  The broker is a parameter: \<open>publish\<close> takes its own state and says whether the message was accepted or
  with which error it was refused.  \<open>pb_sent\<close> lists the messages it accepted.
\<close>

type_synonym 'k broker = "'k \<Rightarrow> outbox_message \<Rightarrow> string option \<times> 'k"

record ('o, 'k) publisher =
  pb_outbox :: 'o
  pb_broker :: 'k
  pb_sent :: "outbox_message list"

definition publish_message :: "'o outbox_ops \<Rightarrow> 'k broker \<Rightarrow> int \<Rightarrow> outbox_message \<Rightarrow> ('o, 'k) publisher \<Rightarrow> ('o, 'k) publisher" where
  "publish_message ops publish now message s =
     (case publish (pb_broker s) message of
        (None, k) \<Rightarrow>
          s\<lparr>pb_broker := k, pb_sent := pb_sent s @ [message],
            pb_outbox := ob_markPublished ops (om_id message) now (pb_outbox s)\<rparr>
      | (Some msg, k) \<Rightarrow>
          s\<lparr>pb_broker := k, pb_outbox := ob_markFailed ops (om_id message) msg (pb_outbox s)\<rparr>)"

definition BATCH_SIZE :: nat where
  "BATCH_SIZE = 100"

text \<open>One turn of \<open>runLoop\<close>: claim a batch and offer its messages one after the other.\<close>

definition publisher_turn :: "'o outbox_ops \<Rightarrow> 'k broker \<Rightarrow> int \<Rightarrow> ('o, 'k) publisher \<Rightarrow> ('o, 'k) publisher" where
  "publisher_turn ops publish now s =
     (case ob_claimPending ops BATCH_SIZE (pb_outbox s) of
        (messages, o') \<Rightarrow> fold (publish_message ops publish now) messages (s\<lparr>pb_outbox := o'\<rparr>))"

fun publisher_turns :: "'o outbox_ops \<Rightarrow> 'k broker \<Rightarrow> int list \<Rightarrow> ('o, 'k) publisher \<Rightarrow> ('o, 'k) publisher" where
  "publisher_turns ops publish [] s = s"
| "publisher_turns ops publish (now # nows) s = publisher_turns ops publish nows (publisher_turn ops publish now s)"

section \<open>What an outbox promises\<close>

text \<open>
  An entry is what is to be delivered (topic, key and payload) and how far it got.  The contract says
  what each operation does to the entries: claiming hands out waiting messages once, a refusal makes a
  message wait again, and a published message stays published.
\<close>

datatype delivery = Waiting | Claimed | Published

type_synonym entry = "(string \<times> string \<times> domain_event) \<times> delivery"

definition contents :: "'x outbox_message_scheme \<Rightarrow> string \<times> string \<times> domain_event" where
  "contents m = (om_topic m, om_messageKey m, om_payload m)"

definition set_delivery :: "delivery \<Rightarrow> entry \<Rightarrow> entry" where
  "set_delivery d e = (fst e, d)"

definition refuse :: "entry \<Rightarrow> entry" where
  "refuse e = (fst e, if snd e = Published then Published else Waiting)"

lemma delivery_simps [simp]:
  "set_delivery d (c, d') = (c, d)"
  "refuse (c, Claimed) = (c, Waiting)" "refuse (c, Waiting) = (c, Waiting)" "refuse (c, Published) = (c, Published)"
  by (simp_all add: set_delivery_def refuse_def)

lemma set_delivery_twice [simp]:
  "map_option (set_delivery d) (map_option (set_delivery d') x) = map_option (set_delivery d) x"
  by (cases x) (auto simp: set_delivery_def)

locale outbox =
  fixes ops :: "'o outbox_ops"
    and inv :: "'o \<Rightarrow> bool"
    and entry :: "'o \<Rightarrow> string \<Rightarrow> entry option"
    and blocked :: "string set"
  assumes finite_entries: "inv s \<Longrightarrow> finite (dom (entry s))"
    and stage: "inv s \<Longrightarrow> \<forall>m \<in> set ms. om_publishedAt m = None \<Longrightarrow> inv (ob_stage ops ms s) \<and>
      (\<forall>i. entry (ob_stage ops ms s) i =
        (if entry s i = None then map_option (\<lambda>m. (contents m, Waiting)) (find (\<lambda>m. om_id m = i) ms) else entry s i))"
    and claim: "inv s \<Longrightarrow> ob_claimPending ops limit s = (ms, s') \<Longrightarrow>
      inv s' \<and> distinct (map om_id ms) \<and> length ms \<le> limit
      \<and> (\<forall>m \<in> set ms. entry s (om_id m) = Some (contents m, Waiting))
      \<and> (\<forall>i. entry s' i = (if i \<in> om_id ` set ms then map_option (set_delivery Claimed) (entry s i) else entry s i))"
    and claim_progress: "inv s \<Longrightarrow> 0 < limit \<Longrightarrow> entry s i = Some (c, Waiting) \<Longrightarrow> i \<notin> blocked \<Longrightarrow>
      fst (ob_claimPending ops limit s) \<noteq> []"
    and published: "inv s \<Longrightarrow> inv (ob_markPublished ops i now s)
      \<and> (\<forall>j. entry (ob_markPublished ops i now s) j = (if j = i then map_option (set_delivery Published) (entry s j) else entry s j))"
    and failed: "inv s \<Longrightarrow> inv (ob_markFailed ops i err s)
      \<and> (\<forall>j. entry (ob_markFailed ops i err s) j = (if j = i then map_option refuse (entry s j) else entry s j))"
begin

lemma publish_batch:
  assumes "inv (pb_outbox s)" "distinct (map om_id ms)"
    and "\<forall>m \<in> set ms. entry (pb_outbox s) (om_id m) = Some (contents m, Claimed)"
  shows "\<exists>sent. pb_sent (fold (publish_message ops publish now) ms s) = pb_sent s @ sent
       \<and> inv (pb_outbox (fold (publish_message ops publish now) ms s))
       \<and> set sent \<subseteq> set ms \<and> distinct (map om_id sent)
       \<and> ((\<forall>k m. fst (publish k m) = None) \<longrightarrow> sent = ms)
       \<and> (\<forall>i. entry (pb_outbox (fold (publish_message ops publish now) ms s)) i =
            (if i \<in> om_id ` set sent then map_option (set_delivery Published) (entry (pb_outbox s) i)
             else if i \<in> om_id ` set ms then map_option (set_delivery Waiting) (entry (pb_outbox s) i)
             else entry (pb_outbox s) i))"
  using assms
proof (induction ms arbitrary: s)
  case Nil
  then show ?case by simp
next
  case (Cons m ms)
  let ?s1 = "publish_message ops publish now m s"
  obtain r k where pub: "publish (pb_broker s) m = (r, k)" by fastforce
  have e1: "entry (pb_outbox ?s1) j = (if j = om_id m then Some (contents m, if r = None then Published else Waiting)
      else entry (pb_outbox s) j)" for j
    using Cons.prems(1,3) published [of "pb_outbox s" "om_id m" now] failed [of "pb_outbox s" "om_id m"]
    by (auto simp: publish_message_def pub split: option.splits)
  have i1: "inv (pb_outbox ?s1)" "pb_sent ?s1 = (if r = None then pb_sent s @ [m] else pb_sent s)"
    using Cons.prems(1) published [of "pb_outbox s" "om_id m" now] failed [of "pb_outbox s" "om_id m"]
    by (auto simp: publish_message_def pub split: option.splits)
  have dist: "om_id m \<notin> om_id ` set ms" "distinct (map om_id ms)" using Cons.prems(2) by auto
  have claimed: "\<forall>x \<in> set ms. entry (pb_outbox ?s1) (om_id x) = Some (contents x, Claimed)"
    using Cons.prems(3) dist(1) by (auto simp: e1 image_iff)
  obtain sent where sent: "pb_sent (fold (publish_message ops publish now) ms ?s1) = pb_sent ?s1 @ sent"
      "inv (pb_outbox (fold (publish_message ops publish now) ms ?s1))"
      "set sent \<subseteq> set ms" "distinct (map om_id sent)" "(\<forall>k m. fst (publish k m) = None) \<longrightarrow> sent = ms"
      "\<forall>i. entry (pb_outbox (fold (publish_message ops publish now) ms ?s1)) i =
            (if i \<in> om_id ` set sent then map_option (set_delivery Published) (entry (pb_outbox ?s1) i)
             else if i \<in> om_id ` set ms then map_option (set_delivery Waiting) (entry (pb_outbox ?s1) i)
             else entry (pb_outbox ?s1) i)"
    using Cons.IH [OF i1(1) dist(2) claimed] by blast
  have notin: "om_id m \<notin> om_id ` set sent" using sent(3) dist(1) by auto
  have here: "entry (pb_outbox s) (om_id m) = Some (contents m, Claimed)" using Cons.prems(3) by simp
  show ?case
  proof (cases r)
    case None
    have "(\<forall>k m. fst (publish k m) = None) \<longrightarrow> m # sent = m # ms" using sent(5) by simp
    moreover have "pb_sent (fold (publish_message ops publish now) (m # ms) s) = pb_sent s @ (m # sent)"
      using sent(1) i1(2) None by simp
    moreover have "distinct (map om_id (m # sent))" using sent(4) notin by auto
    moreover have "\<forall>i. entry (pb_outbox (fold (publish_message ops publish now) (m # ms) s)) i =
            (if i \<in> om_id ` set (m # sent) then map_option (set_delivery Published) (entry (pb_outbox s) i)
             else if i \<in> om_id ` set (m # ms) then map_option (set_delivery Waiting) (entry (pb_outbox s) i)
             else entry (pb_outbox s) i)"
      using sent(6) e1 here notin None dist(1) by auto
    ultimately show ?thesis using sent(2,3)
      by (intro exI [of _ "m # sent"]) auto
  next
    case (Some msg)
    have "(\<forall>k m. fst (publish k m) = None) \<longrightarrow> sent = m # ms" using pub Some by (metis fst_conv option.distinct(1))
    moreover have "pb_sent (fold (publish_message ops publish now) (m # ms) s) = pb_sent s @ sent"
      using sent(1) i1(2) Some by simp
    moreover have "\<forall>i. entry (pb_outbox (fold (publish_message ops publish now) (m # ms) s)) i =
            (if i \<in> om_id ` set sent then map_option (set_delivery Published) (entry (pb_outbox s) i)
             else if i \<in> om_id ` set (m # ms) then map_option (set_delivery Waiting) (entry (pb_outbox s) i)
             else entry (pb_outbox s) i)"
      using sent(6) e1 here notin Some dist(1) by auto
    ultimately show ?thesis using sent(2,3,4)
      by (intro exI [of _ sent]) auto
  qed
qed

lemma turn:
  assumes "inv (pb_outbox s)"
  shows "\<exists>sent. pb_sent (publisher_turn ops publish now s) = pb_sent s @ sent
       \<and> inv (pb_outbox (publisher_turn ops publish now s)) \<and> distinct (map om_id sent)
       \<and> (\<forall>m \<in> set sent. entry (pb_outbox s) (om_id m) = Some (contents m, Waiting))
       \<and> ((\<forall>k m. fst (publish k m) = None) \<longrightarrow> sent = fst (ob_claimPending ops BATCH_SIZE (pb_outbox s)))
       \<and> (\<forall>i. entry (pb_outbox (publisher_turn ops publish now s)) i =
            (if i \<in> om_id ` set sent then map_option (set_delivery Published) (entry (pb_outbox s) i)
             else entry (pb_outbox s) i))"
proof -
  obtain ms o' where c: "ob_claimPending ops BATCH_SIZE (pb_outbox s) = (ms, o')" by fastforce
  note cl = claim [OF assms c]
  have waiting: "entry (pb_outbox s) (om_id m) = Some (contents m, Waiting)" if "m \<in> set ms" for m
    using cl that by blast
  have claimed: "\<forall>m \<in> set ms. entry (pb_outbox (s\<lparr>pb_outbox := o'\<rparr>)) (om_id m) = Some (contents m, Claimed)"
    using cl waiting by (auto simp: image_iff)
  have "inv (pb_outbox (s\<lparr>pb_outbox := o'\<rparr>))" "distinct (map om_id ms)" using cl by auto
  moreover have turn: "publisher_turn ops publish now s = fold (publish_message ops publish now) ms (s\<lparr>pb_outbox := o'\<rparr>)"
    "pb_sent (s\<lparr>pb_outbox := o'\<rparr>) = pb_sent s" "pb_outbox (s\<lparr>pb_outbox := o'\<rparr>) = o'"
    by (simp_all add: publisher_turn_def c)
  ultimately obtain sent where sent: "pb_sent (publisher_turn ops publish now s) = pb_sent s @ sent"
       "inv (pb_outbox (publisher_turn ops publish now s))"
       "set sent \<subseteq> set ms" "distinct (map om_id sent)" "(\<forall>k m. fst (publish k m) = None) \<longrightarrow> sent = ms"
       "\<forall>i. entry (pb_outbox (publisher_turn ops publish now s)) i =
            (if i \<in> om_id ` set sent then map_option (set_delivery Published) (entry o' i)
             else if i \<in> om_id ` set ms then map_option (set_delivery Waiting) (entry o' i)
             else entry o' i)"
    using publish_batch [OF _ _ claimed, of publish now] unfolding turn by blast
  have "entry (pb_outbox (publisher_turn ops publish now s)) i =
            (if i \<in> om_id ` set sent then map_option (set_delivery Published) (entry (pb_outbox s) i)
             else entry (pb_outbox s) i)" for i
    using sent(3,6) cl waiting by (auto simp: image_iff)
  then show ?thesis using sent waiting c by (intro exI [of _ sent]) auto
qed

lemma turns:
  assumes "inv (pb_outbox s)"
  shows "\<exists>sent. pb_sent (publisher_turns ops publish nows s) = pb_sent s @ sent
       \<and> inv (pb_outbox (publisher_turns ops publish nows s)) \<and> distinct (map om_id sent)
       \<and> (\<forall>m \<in> set sent. entry (pb_outbox s) (om_id m) = Some (contents m, Waiting))
       \<and> (\<forall>i. entry (pb_outbox (publisher_turns ops publish nows s)) i =
            (if i \<in> om_id ` set sent then map_option (set_delivery Published) (entry (pb_outbox s) i)
             else entry (pb_outbox s) i))"
  using assms
proof (induction nows arbitrary: s)
  case Nil
  then show ?case by simp
next
  case (Cons now nows)
  let ?s1 = "publisher_turn ops publish now s"
  obtain a where a: "pb_sent ?s1 = pb_sent s @ a" "inv (pb_outbox ?s1)" "distinct (map om_id a)"
      "\<forall>m \<in> set a. entry (pb_outbox s) (om_id m) = Some (contents m, Waiting)"
      "\<forall>i. entry (pb_outbox ?s1) i = (if i \<in> om_id ` set a then map_option (set_delivery Published) (entry (pb_outbox s) i)
             else entry (pb_outbox s) i)"
    using turn [OF Cons.prems] by blast
  obtain b where b: "pb_sent (publisher_turns ops publish nows ?s1) = pb_sent ?s1 @ b"
      "inv (pb_outbox (publisher_turns ops publish nows ?s1))" "distinct (map om_id b)"
      "\<forall>m \<in> set b. entry (pb_outbox ?s1) (om_id m) = Some (contents m, Waiting)"
      "\<forall>i. entry (pb_outbox (publisher_turns ops publish nows ?s1)) i =
         (if i \<in> om_id ` set b then map_option (set_delivery Published) (entry (pb_outbox ?s1) i)
             else entry (pb_outbox ?s1) i)"
    using Cons.IH [OF a(2)] by blast
  have sep: "om_id m \<notin> om_id ` set a" if "m \<in> set b" for m
    using a(4,5) b(4) that by (auto simp: set_delivery_def)
  have "distinct (map om_id (a @ b))" using a(3) b(3) sep by (auto, metis imageI)
  moreover have "\<forall>m \<in> set (a @ b). entry (pb_outbox s) (om_id m) = Some (contents m, Waiting)"
    using a(4,5) b(4) sep by auto
  moreover have "\<forall>i. entry (pb_outbox (publisher_turns ops publish nows ?s1)) i =
      (if i \<in> om_id ` set (a @ b) then map_option (set_delivery Published) (entry (pb_outbox s) i)
       else entry (pb_outbox s) i)"
    using a(5) b(5) sep by auto
  ultimately show ?case using a(1) b(1,2) by (intro exI [of _ "a @ b"]) simp
qed

text \<open>The ids still waiting.\<close>

definition waiting :: "'o \<Rightarrow> string set" where
  "waiting s = {i. \<exists>c. entry s i = Some (c, Waiting)}"

lemma finite_waiting: "inv s \<Longrightarrow> finite (waiting s)"
  by (rule finite_subset [OF _ finite_entries]) (auto simp: waiting_def)

lemma turn_drains:
  assumes "inv (pb_outbox s)" "\<forall>k m. fst (publish k m) = None" "blocked = {}"
  shows "card (waiting (pb_outbox (publisher_turn ops publish now s))) \<le> card (waiting (pb_outbox s)) - 1"
proof -
  obtain sent where sent: "sent = fst (ob_claimPending ops BATCH_SIZE (pb_outbox s))"
      "\<forall>m \<in> set sent. entry (pb_outbox s) (om_id m) = Some (contents m, Waiting)"
      "\<forall>i. entry (pb_outbox (publisher_turn ops publish now s)) i =
            (if i \<in> om_id ` set sent then map_option (set_delivery Published) (entry (pb_outbox s) i)
             else entry (pb_outbox s) i)"
    using turn [OF assms(1), of publish now] assms(2) by auto
  have eq: "waiting (pb_outbox (publisher_turn ops publish now s)) = waiting (pb_outbox s) - om_id ` set sent"
    using sent(3) by (auto simp: waiting_def set_delivery_def split: if_splits)
  show ?thesis
  proof (cases "waiting (pb_outbox s) = {}")
    case True
    then show ?thesis using eq by simp
  next
    case False
    then obtain i c where "entry (pb_outbox s) i = Some (c, Waiting)" by (auto simp: waiting_def)
    then have "sent \<noteq> []" using claim_progress [OF assms(1), of BATCH_SIZE i c] sent(1) assms(3) by (simp add: BATCH_SIZE_def)
    then obtain m where "m \<in> set sent" by (cases sent) auto
    then have "om_id m \<in> waiting (pb_outbox s)" using sent(2) unfolding waiting_def by blast
    then have "waiting (pb_outbox (publisher_turn ops publish now s)) \<subseteq> waiting (pb_outbox s) - {om_id m}"
      using eq \<open>m \<in> set sent\<close> by auto
    then have "card (waiting (pb_outbox (publisher_turn ops publish now s))) \<le> card (waiting (pb_outbox s) - {om_id m})"
      using finite_waiting [OF assms(1)] by (intro card_mono) auto
    then show ?thesis using \<open>om_id m \<in> waiting (pb_outbox s)\<close> finite_waiting [OF assms(1)] by simp
  qed
qed

lemma turns_drain:
  assumes "inv (pb_outbox s)" "\<forall>k m. fst (publish k m) = None" "blocked = {}" "card (waiting (pb_outbox s)) \<le> length nows"
  shows "waiting (pb_outbox (publisher_turns ops publish nows s)) = {}"
  using assms(1,4)
proof (induction nows arbitrary: s)
  case Nil
  then show ?case using finite_waiting by simp
next
  case (Cons now nows)
  have "inv (pb_outbox (publisher_turn ops publish now s))" using turn [OF Cons.prems(1)] by blast
  moreover have "card (waiting (pb_outbox (publisher_turn ops publish now s))) \<le> length nows"
    using turn_drains [OF Cons.prems(1) assms(2,3), of now] Cons.prems(2) by simp
  ultimately show ?case using Cons.IH by simp
qed

end

section \<open>The in-memory store keeps the contract\<close>

definition mo_inv :: "memory_outbox \<Rightarrow> bool" where
  "mo_inv s \<longleftrightarrow> distinct (map fst (mo_messages s)) \<and> (\<forall>(i, m) \<in> set (mo_messages s). om_id m = i)
     \<and> (\<forall>i \<in> mo_claimed s. \<exists>m. map_of (mo_messages s) i = Some m \<and> om_publishedAt m = None)"

definition mo_entry :: "memory_outbox \<Rightarrow> string \<Rightarrow> entry option" where
  "mo_entry s i = map_option (\<lambda>m. (contents m,
       if om_publishedAt m \<noteq> None then Published else if i \<in> mo_claimed s then Claimed else Waiting))
     (map_of (mo_messages s) i)"

lemma map_of_id: "mo_inv s \<Longrightarrow> map_of (mo_messages s) i = Some m \<Longrightarrow> om_id m = i"
  by (auto simp: mo_inv_def dest: map_of_SomeD)

lemma mo_in_messages:
  assumes "mo_inv s"
  shows "m \<in> set (map snd (mo_messages s)) \<longleftrightarrow> map_of (mo_messages s) (om_id m) = Some m"
proof
  assume "m \<in> set (map snd (mo_messages s))"
  then obtain i where "(i, m) \<in> set (mo_messages s)" by auto
  with assms show "map_of (mo_messages s) (om_id m) = Some m"
    by (auto simp: mo_inv_def intro: map_of_is_SomeI)
next
  assume "map_of (mo_messages s) (om_id m) = Some m"
  then show "m \<in> set (map snd (mo_messages s))" using map_of_SomeD by force
qed

lemma mo_pending_iff:
  assumes "mo_inv s"
  shows "m \<in> set (mo_pending s) \<longleftrightarrow> map_of (mo_messages s) (om_id m) = Some m \<and> om_publishedAt m = None \<and> om_id m \<notin> mo_claimed s"
  using mo_in_messages [OF assms, of m] by (auto simp: mo_pending_def)

lemma mo_pending_distinct:
  assumes "mo_inv s"
  shows "distinct (map om_id (mo_pending s))"
proof -
  have eq: "map om_id (map snd (mo_messages s)) = map fst (mo_messages s)"
    using assms by (auto simp: mo_inv_def)
  have "distinct (map om_id (map snd (mo_messages s)))"
    unfolding eq using assms by (simp add: mo_inv_def)
  then have "distinct (map om_id (filter P (map snd (mo_messages s))))" for P
    by (rule distinct_map_filter)
  moreover have "mset (map om_id (sort_key claim_key xs)) = mset (map om_id xs)" for xs :: "outbox_message list"
    by simp
  ultimately show ?thesis unfolding mo_pending_def by (metis mset_eq_imp_distinct_iff)
qed

lemma mo_update_inv:
  assumes "mo_inv s" "om_id m = i" "\<forall>j \<in> cl. j \<in> mo_claimed s \<and> j \<noteq> i"
  shows "mo_inv (s\<lparr>mo_messages := AList.update i m (mo_messages s), mo_claimed := cl\<rparr>)"
proof -
  have "distinct (map fst (AList.update i m (mo_messages s)))"
    using assms(1) by (simp add: mo_inv_def distinct_update)
  moreover have "\<forall>(j, x) \<in> set (AList.update i m (mo_messages s)). om_id x = j"
  proof clarify
    fix j x assume "(j, x) \<in> set (AList.update i m (mo_messages s))"
    then have "map_of (AList.update i m (mo_messages s)) j = Some x"
      using calculation by (simp add: map_of_is_SomeI)
    then show "om_id x = j" using assms(1,2) map_of_id by (auto simp: update_conv split: if_splits)
  qed
  ultimately show ?thesis using assms by (auto simp: mo_inv_def update_conv)
qed

lemma mo_stage_one:
  assumes "mo_inv s" "om_publishedAt m = None"
  shows "mo_inv (mo_stage_one m s)
     \<and> (\<forall>i. mo_entry (mo_stage_one m s) i =
          (if mo_entry s i = None \<and> om_id m = i then Some (contents m, Waiting) else mo_entry s i))"
proof (cases "map_of (mo_messages s) (om_id m)")
  case None
  then have "om_id m \<notin> mo_claimed s" using assms(1) by (auto simp: mo_inv_def)
  then have "mo_inv (mo_stage_one m s)"
    using mo_update_inv [OF assms(1), of m "om_id m" "mo_claimed s"] None by (auto simp: mo_stage_one_def)
  then show ?thesis using assms None \<open>om_id m \<notin> mo_claimed s\<close>
    by (auto simp: mo_stage_one_def mo_entry_def update_conv)
next
  case (Some x)
  then show ?thesis using assms by (auto simp: mo_stage_one_def mo_entry_def)
qed

lemma mo_stage_contract:
  assumes "mo_inv s" "\<forall>m \<in> set ms. om_publishedAt m = None"
  shows "mo_inv (mo_stage ms s)
     \<and> (\<forall>i. mo_entry (mo_stage ms s) i =
          (if mo_entry s i = None then map_option (\<lambda>m. (contents m, Waiting)) (find (\<lambda>m. om_id m = i) ms) else mo_entry s i))"
  using assms
proof (induction ms arbitrary: s)
  case Nil
  then show ?case by (simp add: mo_stage_def)
next
  case (Cons m ms)
  have "mo_stage (m # ms) s = mo_stage ms (mo_stage_one m s)" by (simp add: mo_stage_def)
  then show ?case using Cons mo_stage_one [of s m] by (auto split: if_splits)
qed

lemma mo_claim_contract:
  assumes "mo_inv s" "mo_claimPending limit s = (ms, s')"
  shows "mo_inv s' \<and> distinct (map om_id ms) \<and> length ms \<le> limit
      \<and> (\<forall>m \<in> set ms. mo_entry s (om_id m) = Some (contents m, Waiting))
      \<and> (\<forall>i. mo_entry s' i = (if i \<in> om_id ` set ms then map_option (set_delivery Claimed) (mo_entry s i) else mo_entry s i))"
proof -
  have ms: "ms = take limit (mo_pending s)" "s' = s\<lparr>mo_claimed := mo_claimed s \<union> om_id ` set ms\<rparr>"
    using assms(2) by (auto simp: mo_claimPending_def Let_def)
  have sub: "m \<in> set (mo_pending s)" if "m \<in> set ms" for m using that ms(1) in_set_takeD by metis
  have "mo_inv s'" using assms(1) sub mo_pending_iff [OF assms(1)] by (auto simp: mo_inv_def ms(2))
  moreover have "distinct (map om_id ms)"
    using mo_pending_distinct [OF assms(1)] by (simp add: ms(1) take_map [symmetric])
  moreover have w: "mo_entry s (om_id m) = Some (contents m, Waiting)" if "m \<in> set ms" for m
    using mo_pending_iff [OF assms(1)] sub that by (simp add: mo_entry_def)
  moreover have "mo_entry s' i = (if i \<in> om_id ` set ms then map_option (set_delivery Claimed) (mo_entry s i) else mo_entry s i)" for i
  proof (cases "i \<in> om_id ` set ms")
    case True
    then obtain m where m: "m \<in> set ms" "i = om_id m" by auto
    then show ?thesis using mo_pending_iff [OF assms(1), of m] sub by (simp add: mo_entry_def ms(2))
  next
    case False
    then show ?thesis by (auto simp: mo_entry_def ms(2) intro: option.map_cong)
  qed
  ultimately show ?thesis by (auto simp: ms(1))
qed

lemma mo_published_contract:
  assumes "mo_inv s"
  shows "mo_inv (mo_markPublished i now s)
      \<and> (\<forall>j. mo_entry (mo_markPublished i now s) j = (if j = i then map_option (set_delivery Published) (mo_entry s j) else mo_entry s j))"
proof (cases "map_of (mo_messages s) i")
  case None
  then show ?thesis using assms by (simp add: mo_markPublished_def mo_entry_def)
next
  case (Some m)
  then have "om_id (m\<lparr>om_publishedAt := Some now, om_lastError := None\<rparr>) = i" using map_of_id assms by simp
  from mo_update_inv [OF assms this, of "mo_claimed s - {i}"] Some show ?thesis
    by (auto simp: mo_markPublished_def mo_entry_def update_conv contents_def intro!: option.map_cong)
qed

lemma mo_failed_contract:
  assumes "mo_inv s"
  shows "mo_inv (mo_markFailed i err s)
      \<and> (\<forall>j. mo_entry (mo_markFailed i err s) j = (if j = i then map_option refuse (mo_entry s j) else mo_entry s j))"
proof (cases "map_of (mo_messages s) i")
  case None
  then show ?thesis using assms by (simp add: mo_markFailed_def mo_entry_def)
next
  case (Some m)
  then have "om_id (m\<lparr>om_attempts := om_attempts m + 1, om_lastError := Some err\<rparr>) = i" using map_of_id assms by simp
  from mo_update_inv [OF assms this, of "mo_claimed s - {i}"] Some show ?thesis
    by (auto simp: mo_markFailed_def mo_entry_def update_conv contents_def refuse_def intro!: option.map_cong)
qed

interpretation memory_outbox: outbox memory_outbox_store mo_inv mo_entry "{}"
proof unfold_locales
  fix s and limit :: nat and i :: string and c
  assume a: "mo_inv s" "0 < limit" "mo_entry s i = Some (c, Waiting)"
  then obtain m where m: "map_of (mo_messages s) i = Some m" "om_publishedAt m = None" "i \<notin> mo_claimed s"
    by (auto simp: mo_entry_def split: if_splits)
  with mo_pending_iff [OF a(1), of m] map_of_id [OF a(1) m(1)] have "m \<in> set (mo_pending s)" by simp
  with a(2) show "fst (ob_claimPending memory_outbox_store limit s) \<noteq> []"
    by (auto simp: memory_outbox_store_def mo_claimPending_def Let_def)
next
  fix s assume "mo_inv s"
  have "dom (mo_entry s) = dom (map_of (mo_messages s))" by (auto simp: mo_entry_def)
  then show "finite (dom (mo_entry s))" by (simp add: finite_dom_map_of)
qed (simp_all add: memory_outbox_store_def mo_stage_contract mo_claim_contract mo_published_contract mo_failed_contract)

section \<open>The Postgres table keeps the contract\<close>

definition po_inv :: "outbox_table \<Rightarrow> bool" where
  "po_inv t \<longleftrightarrow> distinct (map om_id t) \<and> (\<forall>r \<in> set t. om_publishedAt r \<noteq> None \<longrightarrow> or_processing_started_at r = None)"

definition row_delivery :: "outbox_row \<Rightarrow> delivery" where
  "row_delivery r =
     (if om_publishedAt r \<noteq> None then Published else if or_processing_started_at r \<noteq> None then Claimed else Waiting)"

definition po_entry :: "outbox_table \<Rightarrow> string \<Rightarrow> entry option" where
  "po_entry t i = map_option (\<lambda>r. (contents r, row_delivery r)) (find (\<lambda>r. om_id r = i) t)"

lemma contents_truncate [simp]: "contents (outbox_message.truncate r) = contents r"
  "om_id (outbox_message.truncate r) = om_id r"
  by (simp_all add: contents_def outbox_message.truncate_def)

lemma po_entry_row: "po_inv t \<Longrightarrow> r \<in> set t \<Longrightarrow> po_entry t (om_id r) = Some (contents r, row_delivery r)"
  by (induction t) (auto simp: po_inv_def po_entry_def image_iff)

lemma po_entry_Some: "po_entry t i = Some e \<Longrightarrow> \<exists>r \<in> set t. om_id r = i \<and> e = (contents r, row_delivery r)"
  by (auto simp: po_entry_def find_Some_iff intro: nth_mem)

lemma po_entry_map:
  assumes "\<And>r. om_id (f r) = om_id r" "\<And>r. contents (f r) = contents r"
    and "\<And>r. r \<in> set t \<Longrightarrow> (contents r, row_delivery (f r)) = (if om_id r \<in> I then g (contents r, row_delivery r) else (contents r, row_delivery r))"
  shows "po_entry (map f t) i = (if i \<in> I then map_option g (po_entry t i) else po_entry t i)"
  using assms(3) by (induction t) (auto simp: po_entry_def assms(1,2))

lemma po_inv_map:
  assumes "po_inv t" "\<And>r. om_id (f r) = om_id r"
    and "\<And>r. r \<in> set t \<Longrightarrow> om_publishedAt (f r) \<noteq> None \<longrightarrow> or_processing_started_at (f r) = None"
  shows "po_inv (map f t)"
  using assms by (auto simp: po_inv_def comp_def)

lemma outbox_insert_contract:
  assumes "po_inv t" "om_publishedAt m = None"
  shows "po_inv (outbox_insert (row_of m p) t)
     \<and> (\<forall>i. po_entry (outbox_insert (row_of m p) t) i =
          (if po_entry t i = None \<and> om_id m = i then Some (contents m, Waiting) else po_entry t i))"
proof -
  have none: "po_entry t i = None \<longleftrightarrow> i \<notin> om_id ` set t" for i
    by (auto simp: po_entry_def find_None_iff)
  have app: "po_entry (t @ [r]) i = (if po_entry t i = None \<and> om_id r = i then Some (contents r, row_delivery r) else po_entry t i)"
    for r i by (induction t) (auto simp: po_entry_def)
  show ?thesis using assms
    by (auto simp: outbox_insert_def po_inv_def app none row_of_def contents_def row_delivery_def)
qed

lemma po_stage_contract:
  assumes "po_inv t" "\<forall>m \<in> set ms. om_publishedAt m = None"
  shows "po_inv (po_stage ms t)
     \<and> (\<forall>i. po_entry (po_stage ms t) i =
          (if po_entry t i = None then map_option (\<lambda>m. (contents m, Waiting)) (find (\<lambda>m. om_id m = i) ms) else po_entry t i))"
  using assms
proof (induction ms arbitrary: t)
  case Nil
  then show ?case by (simp add: po_stage_def)
next
  case (Cons m ms)
  have "po_stage (m # ms) t = po_stage ms (outbox_insert (row_of m None) t)" by (simp add: po_stage_def)
  then show ?case using Cons outbox_insert_contract [of t m None] by (auto split: if_splits)
qed

lemma po_pending_iff: "r \<in> set (po_pending t) \<longleftrightarrow> r \<in> set t \<and> om_publishedAt r = None \<and> or_processing_started_at r = None"
  by (auto simp: po_pending_def)

lemma po_batch_distinct:
  assumes "po_inv t"
  shows "distinct (map om_id (take limit (filter P (po_pending t))))"
proof -
  have "mset (map om_id (po_pending t)) = mset (map om_id (filter (\<lambda>r. om_publishedAt r = None \<and> or_processing_started_at r = None) t))"
    by (simp add: po_pending_def)
  moreover have "distinct (map om_id (filter (\<lambda>r. om_publishedAt r = None \<and> or_processing_started_at r = None) t))"
    using assms by (auto simp: po_inv_def intro: distinct_map_filter)
  ultimately have "distinct (map om_id (po_pending t))" by (metis mset_eq_imp_distinct_iff)
  then have "distinct (map om_id (filter P (po_pending t)))" by (rule distinct_map_filter)
  then show ?thesis by (simp add: take_map [symmetric])
qed

lemma po_claim_contract:
  assumes perm: "\<forall>xs. mset (returning xs) = mset xs"
    and "po_inv t" "po_claimPending returning locked now limit t = (ms, t')"
  shows "po_inv t' \<and> distinct (map om_id ms) \<and> length ms \<le> limit
      \<and> (\<forall>m \<in> set ms. po_entry t (om_id m) = Some (contents m, Waiting))
      \<and> (\<forall>i. po_entry t' i = (if i \<in> om_id ` set ms then map_option (set_delivery Claimed) (po_entry t i) else po_entry t i))"
proof -
  define batch where "batch = take limit (filter (\<lambda>r. om_id r \<notin> locked) (po_pending t))"
  let ?f = "\<lambda>r. if om_id r \<in> om_id ` set batch then r\<lparr>or_processing_started_at := Some now\<rparr> else r"
  have ms: "ms = map outbox_message.truncate (returning batch)" "t' = map ?f t"
    using assms(3) by (auto simp: po_claimPending_def Let_def batch_def)
  have same: "set (returning batch) = set batch" "length (returning batch) = length batch"
    using perm mset_eq_setD [of "returning batch" batch] mset_eq_length [of "returning batch" batch] by auto
  have batch: "r \<in> set t \<and> om_publishedAt r = None \<and> or_processing_started_at r = None" if "r \<in> set batch" for r
    using that in_set_takeD [of r limit] po_pending_iff [of r t] by (fastforce simp: batch_def)
  have ids: "om_id ` set ms = om_id ` set batch" by (auto simp: ms(1) same(1) image_iff)
  have "mset (map om_id (returning batch)) = mset (map om_id batch)" using perm by simp
  then have "distinct (map om_id (returning batch))"
    using po_batch_distinct [OF assms(2), of limit] mset_eq_imp_distinct_iff unfolding batch_def by blast
  then have "distinct (map om_id ms)" by (simp add: ms(1) comp_def)
  moreover have unp: "r \<in> set batch" if "r \<in> set t" "om_id r \<in> om_id ` set batch" for r
    using that batch assms(2) by (auto simp: po_inv_def distinct_map inj_on_def)
  moreover have "po_inv t'" unfolding ms(2)
    by (rule po_inv_map [OF assms(2)]) (use unp batch assms(2) in \<open>auto simp: po_inv_def\<close>)
  moreover have "po_entry t' i = (if i \<in> om_id ` set batch then map_option (set_delivery Claimed) (po_entry t i) else po_entry t i)" for i
    unfolding ms(2)
    by (rule po_entry_map) (use unp batch in \<open>auto simp: contents_def row_delivery_def\<close>)
  moreover have "po_entry t (om_id m) = Some (contents m, Waiting)" if m: "m \<in> set ms" for m
  proof -
    obtain r where r: "m = outbox_message.truncate r" "r \<in> set batch" using m by (auto simp: ms(1) same(1))
    then show ?thesis using po_entry_row [OF assms(2), of r] batch [of r] by (simp add: row_delivery_def)
  qed
  moreover have "length ms \<le> limit" using same(2) by (simp add: ms(1)) (simp add: batch_def)
  ultimately show ?thesis by (simp add: ids)
qed

lemma po_published_contract:
  assumes "po_inv t"
  shows "po_inv (po_markPublished i now t)
      \<and> (\<forall>j. po_entry (po_markPublished i now t) j = (if j = i then map_option (set_delivery Published) (po_entry t j) else po_entry t j))"
proof -
  have "po_inv (po_markPublished i now t)" unfolding po_markPublished_def
    by (rule po_inv_map [OF assms]) (use assms in \<open>auto simp: po_inv_def\<close>)
  moreover have "po_entry (po_markPublished i now t) j =
      (if j \<in> {i} then map_option (set_delivery Published) (po_entry t j) else po_entry t j)" for j
    unfolding po_markPublished_def
    by (rule po_entry_map) (auto simp: contents_def row_delivery_def)
  ultimately show ?thesis by simp
qed

lemma po_failed_contract:
  assumes "po_inv t"
  shows "po_inv (po_markFailed i err t)
      \<and> (\<forall>j. po_entry (po_markFailed i err t) j = (if j = i then map_option refuse (po_entry t j) else po_entry t j))"
proof -
  have "po_inv (po_markFailed i err t)" unfolding po_markFailed_def
    by (rule po_inv_map [OF assms]) (use assms in \<open>auto simp: po_inv_def\<close>)
  moreover have "po_entry (po_markFailed i err t) j =
      (if j \<in> {i} then map_option refuse (po_entry t j) else po_entry t j)" for j
    unfolding po_markFailed_def
    by (rule po_entry_map) (auto simp: contents_def row_delivery_def refuse_def)
  ultimately show ?thesis by simp
qed

lemma po_contract:
  assumes "\<forall>xs. mset (returning xs) = mset xs"
  shows "outbox (postgres_outbox_store returning locked now) po_inv po_entry locked"
proof unfold_locales
  fix s and limit :: nat and i :: string and c
  assume a: "po_inv s" "0 < limit" "po_entry s i = Some (c, Waiting)" "i \<notin> locked"
  from po_entry_Some [OF a(3)] obtain r where "r \<in> set s" "om_id r = i" "row_delivery r = Waiting" by force
  then have "r \<in> set (filter (\<lambda>r. om_id r \<notin> locked) (po_pending s))"
    using a(4) by (auto simp: po_pending_iff row_delivery_def split: if_splits)
  then have "take limit (filter (\<lambda>r. om_id r \<notin> locked) (po_pending s)) \<noteq> []" using a(2)
    by (metis length_pos_if_in_set less_numeral_extra(3) list.size(3) take_eq_Nil)
  moreover have "returning xs \<noteq> []" if "xs \<noteq> []" for xs using assms that by (metis mset_zero_iff)
  ultimately show "fst (ob_claimPending (postgres_outbox_store returning locked now) limit s) \<noteq> []"
    by (simp add: postgres_outbox_store_def po_claimPending_def Let_def)
next
  fix s assume "po_inv s"
  have "dom (po_entry s) \<subseteq> om_id ` set s" using po_entry_Some by force
  then show "finite (dom (po_entry s))" by (rule finite_subset) simp
qed (use po_claim_contract [OF assms] in
  \<open>simp_all add: postgres_outbox_store_def po_stage_contract po_published_contract po_failed_contract\<close>)

interpretation postgres_outbox: outbox "postgres_outbox_store (\<lambda>rows. rows) locked now" po_inv po_entry locked for locked now
  by (rule po_contract) simp

section \<open>Properties\<close>


definition sample_message :: "string \<Rightarrow> int \<Rightarrow> outbox_message" where
  "sample_message i now =
     \<lparr>om_id = i, om_topic = ''account-events'', om_messageKey = ''account-a'',
      om_payload = \<lparr>ev_eventId = i, ev_streamId = ''account-a'', ev_streamVersion = 1,
        ev_data = AccountCreated ''a'' ''o'' ''USD'', ev_occurredAt = now,
        ev_metadata = \<lparr>md_correlationId = ''r'', md_causationId = None, md_commandId = ''c'', md_actor = None, md_traceId = None\<rparr>\<rparr>,
      om_createdAt = now, om_eventPosition = None, om_publishedAt = None, om_attempts = 0, om_lastError = None\<rparr>"

definition sample_publisher :: "(outbox_table, nat) publisher" where
  "sample_publisher =
     \<lparr>pb_outbox = po_stage [sample_message ''e1'' 1, sample_message ''e2'' 2] [], pb_broker = 0, pb_sent = []\<rparr>"

lemma sample_publisher_inv: "po_inv (pb_outbox sample_publisher)"
  using po_stage_contract [of "[]" "[sample_message ''e1'' 1, sample_message ''e2'' 2]"]
  by (simp add: sample_publisher_def po_inv_def sample_message_def)


text \<open>C24: The publisher makes progress: with a broker that accepts everything and no rows locked by
  other instances, as many turns as there are waiting messages leave none waiting.\<close>

theorem publisher_drains_the_outbox:
  assumes "\<forall>xs. mset (returning xs) = mset xs" and "po_inv (pb_outbox s)"
    and "\<forall>k m. fst (publish k m) = None"
    and "card {i. \<exists>c. po_entry (pb_outbox s) i = Some (c, Waiting)} \<le> length nows"
  shows "\<forall>i c. po_entry (pb_outbox (publisher_turns (postgres_outbox_store returning {} t) publish nows s)) i \<noteq> Some (c, Waiting)"
proof -
  note contract = po_contract [OF assms(1), of "{}" t]
  show ?thesis
    using outbox.turns_drain [OF contract assms(2,3) refl, of nows] assms(4)
    by (auto simp: outbox.waiting_def [OF contract])
qed

theorem publisher_drains_the_outbox_witness:
  "\<forall>i c. po_entry (pb_outbox (publisher_turns (postgres_outbox_store rev {} 0) (\<lambda>k m. (None, k)) [1, 2] sample_publisher)) i
     \<noteq> Some (c, Waiting)"
proof (rule publisher_drains_the_outbox)
  have "{i. \<exists>c. po_entry (pb_outbox sample_publisher) i = Some (c, Waiting)} \<subseteq> {''e1'', ''e2''}"
    using po_stage_contract [of "[]" "[sample_message ''e1'' 1, sample_message ''e2'' 2]"]
    by (auto simp: sample_publisher_def po_inv_def sample_message_def po_entry_def split: if_splits)
  then have "card {i. \<exists>c. po_entry (pb_outbox sample_publisher) i = Some (c, Waiting)} \<le> card {''e1'', ''e2''}"
    by (intro card_mono) auto
  then show "card {i. \<exists>c. po_entry (pb_outbox sample_publisher) i = Some (c, Waiting)} \<le> length [1, 2::int]" by simp
qed (use sample_publisher_inv in auto)

end
