(* ===== verification/EventStores.thy ===== *)
theory EventStores
  imports Outbox
begin

text \<open>
  \<open>src/infrastructure/event-store\<close>: the interface, the in-memory store and the Postgres store, each with
  the outbox messages it stages, and the contract the repositories rely on.
\<close>

section \<open>The interface\<close>

record 'es event_store_ops =
  es_append :: "string \<Rightarrow> domain_event list \<Rightarrow> int \<Rightarrow> ('es, unit) prog"
  es_readStream :: "string \<Rightarrow> int \<Rightarrow> 'es \<Rightarrow> domain_event list"
  es_readAll :: "int \<Rightarrow> nat \<Rightarrow> 'es \<Rightarrow> (domain_event \<times> int) list"

definition topicForStream :: "string \<Rightarrow> string" where
  "topicForStream streamId = hd (str_split (CHR ''-'') streamId) @ ''-events''"

text \<open>The events in turn, each changed by \<open>f\<close> with the next version after \<open>v\<close>.\<close>

fun number_from :: "(int \<Rightarrow> domain_event \<Rightarrow> domain_event) \<Rightarrow> int \<Rightarrow> domain_event list \<Rightarrow> domain_event list" where
  "number_from f v [] = []"
| "number_from f v (e # es) = f (v + 1) e # number_from f (v + 1) es"

section \<open>The in-memory store\<close>

record memory_events =
  me_streams :: "string \<rightharpoonup> domain_event list"
  me_allEvents :: "(domain_event \<times> int) list"
  me_outbox :: memory_outbox

definition empty_memory_events :: memory_events where
  "empty_memory_events = \<lparr>me_streams = Map.empty, me_allEvents = [], me_outbox = empty_memory_outbox\<rparr>"

definition me_stream :: "memory_events \<Rightarrow> string \<Rightarrow> domain_event list" where
  "me_stream s streamId = (case me_streams s streamId of None \<Rightarrow> [] | Some es \<Rightarrow> es)"

fun push_all :: "domain_event list \<Rightarrow> (domain_event \<times> int) list \<Rightarrow> (domain_event \<times> int) list" where
  "push_all [] journal = journal"
| "push_all (e # es) journal = push_all es (journal @ [(e, int (length journal) + 1)])"

definition me_message :: "string \<Rightarrow> domain_event \<Rightarrow> outbox_message" where
  "me_message streamId event =
     \<lparr>om_id = ev_eventId event, om_topic = topicForStream streamId, om_messageKey = streamId, om_payload = event,
      om_createdAt = ev_occurredAt event, om_eventPosition = None, om_publishedAt = None, om_attempts = 0,
      om_lastError = None\<rparr>"

definition me_append :: "string \<Rightarrow> domain_event list \<Rightarrow> int \<Rightarrow> (memory_events, unit) prog" where
  "me_append streamId events expectedVersion s =
     (let current = me_stream s streamId; currentVersion = int (length current)
      in if expectedVersion \<noteq> currentVersion
         then (Inl (WrongExpectedVersion streamId expectedVersion currentVersion), s)
         else (let appended = number_from (\<lambda>v e. e\<lparr>ev_streamVersion := v\<rparr>) currentVersion events
               in (Inr (), s\<lparr>me_streams := (me_streams s)(streamId \<mapsto> current @ appended),
                             me_allEvents := push_all appended (me_allEvents s),
                             me_outbox := mo_stage (map (me_message streamId) appended) (me_outbox s)\<rparr>)))"

definition me_readStream :: "string \<Rightarrow> int \<Rightarrow> memory_events \<Rightarrow> domain_event list" where
  "me_readStream streamId fromVersion s = filter (\<lambda>e. fromVersion < ev_streamVersion e) (me_stream s streamId)"

definition me_readAll :: "int \<Rightarrow> nat \<Rightarrow> memory_events \<Rightarrow> (domain_event \<times> int) list" where
  "me_readAll fromPosition maxCount s = take maxCount (filter (\<lambda>e. fromPosition < snd e) (me_allEvents s))"

definition memory_event_store :: "memory_events event_store_ops" where
  "memory_event_store = \<lparr>es_append = me_append, es_readStream = me_readStream, es_readAll = me_readAll\<rparr>"

section \<open>The Postgres store\<close>

text \<open>
  A row of \<open>events\<close> is its \<open>BIGSERIAL\<close> id and the event; the sequence behind the ids is not rolled back
  with a transaction.  The table has unique constraints on the event id and on stream and version.
\<close>

record event_row =
  er_id :: int
  er_event :: domain_event

record pg_events =
  pg_rows :: "event_row list"
  pg_sequence :: int
  pg_outbox :: outbox_table

definition empty_pg_events :: pg_events where
  "empty_pg_events = \<lparr>pg_rows = [], pg_sequence = 0, pg_outbox = []\<rparr>"

definition violates_unique :: "domain_event \<Rightarrow> event_row list \<Rightarrow> bool" where
  "violates_unique e rows \<longleftrightarrow>
     list_ex (\<lambda>r. ev_eventId (er_event r) = ev_eventId e
       \<or> ev_streamId (er_event r) = ev_streamId e \<and> ev_streamVersion (er_event r) = ev_streamVersion e) rows"

definition duplicate_key :: js_error where
  "duplicate_key = GenericError ''duplicate key value violates unique constraint''"

definition insert_event :: "domain_event \<Rightarrow> (pg_events, int) prog" where
  "insert_event e s =
     (let i = pg_sequence s + 1
      in if violates_unique e (pg_rows s)
         then (Inl duplicate_key, s\<lparr>pg_sequence := i\<rparr>)
         else (Inr i, s\<lparr>pg_sequence := i, pg_rows := pg_rows s @ [\<lparr>er_id = i, er_event = e\<rparr>]\<rparr>))"

definition pg_message :: "string \<Rightarrow> domain_event \<Rightarrow> int \<Rightarrow> outbox_row" where
  "pg_message streamId event eventPosition =
     \<lparr>om_id = ev_eventId event, om_topic = topicForStream streamId, om_messageKey = streamId, om_payload = event,
      om_createdAt = ev_occurredAt event, om_eventPosition = Some eventPosition, om_publishedAt = None,
      om_attempts = 0, om_lastError = None, or_processing_started_at = None\<rparr>"

text \<open>The loop of \<open>append\<close>: insert each event and its outbox message.\<close>

fun insert_events :: "string \<Rightarrow> int \<Rightarrow> domain_event list \<Rightarrow> (pg_events, unit) prog" where
  "insert_events streamId v [] s = (Inr (), s)"
| "insert_events streamId v (e # es) s =
     (let persistedEvent = e\<lparr>ev_streamId := streamId, ev_streamVersion := v + 1\<rparr>
      in case insert_event persistedEvent s of
           (Inl err, s1) \<Rightarrow> (Inl err, s1)
         | (Inr eventPosition, s1) \<Rightarrow>
             insert_events streamId (v + 1) es
               (s1\<lparr>pg_outbox := outbox_insert (pg_message streamId persistedEvent eventPosition) (pg_outbox s1)\<rparr>))"

definition max_version :: "string \<Rightarrow> pg_events \<Rightarrow> int" where
  "max_version streamId s =
     fold max (map (\<lambda>r. ev_streamVersion (er_event r)) (filter (\<lambda>r. ev_streamId (er_event r) = streamId) (pg_rows s))) 0"

definition pg_append :: "string \<Rightarrow> domain_event list \<Rightarrow> int \<Rightarrow> (pg_events, unit) prog" where
  "pg_append streamId events expectedVersion s =
     (let currentVersion = max_version streamId s
      in if currentVersion \<noteq> expectedVersion
         then (Inl (WrongExpectedVersion streamId expectedVersion currentVersion), s)
         else case insert_events streamId currentVersion events s of
                (Inl err, s1) \<Rightarrow> (Inl err, s\<lparr>pg_sequence := pg_sequence s1\<rparr>)
              | (Inr u, s1) \<Rightarrow> (Inr u, s1))"

definition pg_readStream :: "string \<Rightarrow> int \<Rightarrow> pg_events \<Rightarrow> domain_event list" where
  "pg_readStream streamId fromVersion s =
     sort_key ev_streamVersion
       (filter (\<lambda>e. ev_streamId e = streamId \<and> fromVersion < ev_streamVersion e) (map er_event (pg_rows s)))"

definition pg_readAll :: "int \<Rightarrow> nat \<Rightarrow> pg_events \<Rightarrow> (domain_event \<times> int) list" where
  "pg_readAll fromPosition maxCount s =
     map (\<lambda>r. (er_event r, er_id r)) (take maxCount (sort_key er_id (filter (\<lambda>r. fromPosition < er_id r) (pg_rows s))))"

definition postgres_event_store :: "pg_events event_store_ops" where
  "postgres_event_store = \<lparr>es_append = pg_append, es_readStream = pg_readStream, es_readAll = pg_readAll\<rparr>"

section \<open>What an event store promises\<close>

text \<open>
  \<open>stream\<close> is the history of a stream, \<open>journal\<close> all events with their positions, \<open>restamp\<close> the change a
  store makes to an event it persists, \<open>fresh\<close> says that no constraint of the store stands against the
  events.  An append either adds the whole batch behind the expected version or changes nothing.
\<close>

locale event_store =
  fixes ops :: "'es event_store_ops"
    and inv :: "'es \<Rightarrow> bool"
    and stream :: "'es \<Rightarrow> string \<Rightarrow> domain_event list"
    and journal :: "'es \<Rightarrow> (domain_event \<times> int) list"
    and restamp :: "string \<Rightarrow> int \<Rightarrow> domain_event \<Rightarrow> domain_event"
    and fresh :: "'es \<Rightarrow> domain_event list \<Rightarrow> bool"
  assumes restamp_fields: "ev_data (restamp sid v e) = ev_data e" "ev_streamVersion (restamp sid v e) = v"
      "ev_eventId (restamp sid v e) = ev_eventId e" "ev_occurredAt (restamp sid v e) = ev_occurredAt e"
      "ev_metadata (restamp sid v e) = ev_metadata e"
    and numbered_stream: "inv s \<Longrightarrow> numbered 0 (stream s sid)"
    and journal_sorted: "inv s \<Longrightarrow> sorted_wrt (<) (map snd (journal s)) \<and> (\<forall>x \<in> set (journal s). 0 < snd x)"
    and read_stream: "inv s \<Longrightarrow> es_readStream ops sid n s = filter (\<lambda>e. n < ev_streamVersion e) (stream s sid)"
    and read_all: "inv s \<Longrightarrow> es_readAll ops p k s = take k (filter (\<lambda>x. p < snd x) (journal s))"
    and append_conflict: "inv s \<Longrightarrow> expected \<noteq> int (length (stream s sid)) \<Longrightarrow>
      es_append ops sid events expected s = (Inl (WrongExpectedVersion sid expected (int (length (stream s sid)))), s)"
    and append_refused: "inv s \<Longrightarrow> expected = int (length (stream s sid)) \<Longrightarrow> \<not> fresh s events \<Longrightarrow>
      \<exists>s'. es_append ops sid events expected s = (Inl duplicate_key, s') \<and> inv s'
        \<and> stream s' = stream s \<and> journal s' = journal s"
    and append_ok: "inv s \<Longrightarrow> expected = int (length (stream s sid)) \<Longrightarrow> fresh s events \<Longrightarrow>
      \<exists>s' ps. es_append ops sid events expected s = (Inr (), s') \<and> inv s'
        \<and> stream s' = (stream s)(sid := stream s sid @ number_from (restamp sid) expected events)
        \<and> length ps = length events \<and> journal s' = journal s @ zip (number_from (restamp sid) expected events) ps"
begin

lemma numbered_number_from: "numbered v (number_from (restamp sid) v es)"
  by (induction es arbitrary: v) (simp_all add: restamp_fields)

lemma length_number_from [simp]: "length (number_from (restamp sid) v es) = length es"
  by (induction es arbitrary: v) simp_all

lemma number_from_core: "numbered v es \<Longrightarrow> list_all2 same_core es (number_from (restamp sid) v es)"
  by (induction es arbitrary: v) (auto simp: same_core_def restamp_fields)

lemma read_tail: "inv s \<Longrightarrow> 0 \<le> n \<Longrightarrow> es_readStream ops sid n s = drop (nat n) (stream s sid)"
  using numbered_filter [OF numbered_stream, of s n sid] read_stream [of s sid n] by simp

lemma read_whole: "inv s \<Longrightarrow> es_readStream ops sid 0 s = stream s sid"
  by (simp add: read_tail)

text \<open>Whatever an append does, the history that is there stays there and the invariant holds.\<close>

lemma append_keeps_history:
  assumes "inv s" "es_append ops sid events expected s = (r, s')"
  shows "inv s' \<and> (\<forall>x. \<exists>es. stream s' x = stream s x @ es) \<and> (\<exists>l. journal s' = journal s @ l)"
proof (cases "expected = int (length (stream s sid))")
  case False
  then show ?thesis using append_conflict [OF assms(1) False, of events] assms by auto
next
  case True
  show ?thesis
  proof (cases "fresh s events")
    case False
    then show ?thesis using append_refused [OF assms(1) True False] assms(2) by auto
  next
    case fresh: True
    then show ?thesis using append_ok [OF assms(1) True fresh] assms(2) by auto
  qed
qed

text \<open>The pages of \<open>readAll\<close> put together are the journal.\<close>

lemma read_all_from_last:
  assumes "inv s" "journal s = xs @ ys" "xs \<noteq> []"
  shows "es_readAll ops (snd (last xs)) k s = take k ys"
proof -
  have sorted: "sorted_wrt (<) (map snd (xs @ ys))" using journal_sorted [OF assms(1)] assms(2) by simp
  have xs: "xs = butlast xs @ [last xs]" using assms(3) by simp
  have low: "\<not> snd (last xs) < snd x" if "x \<in> set xs" for x
  proof -
    have "sorted_wrt (<) (map snd (butlast xs @ [last xs]))" using sorted xs by (simp add: sorted_wrt_append)
    moreover have "x \<in> set (butlast xs @ [last xs])" using that xs by simp
    ultimately show ?thesis by (auto simp: sorted_wrt_append)
  qed
  have "snd (last xs) < snd x" if "x \<in> set ys" for x
    using sorted that assms(3) by (auto simp: sorted_wrt_append)
  then have "filter (\<lambda>x. snd (last xs) < snd x) (xs @ ys) = ys"
    using low by (simp add: filter_empty_conv filter_id_conv)
  then show ?thesis by (simp only: read_all [OF assms(1)] assms(2))
qed

lemma read_all_first: "inv s \<Longrightarrow> es_readAll ops 0 k s = take k (journal s)"
  using journal_sorted [of s] read_all [of s 0 k] by (simp add: filter_id_conv)

end

section \<open>The in-memory store keeps the contract\<close>

definition me_inv :: "memory_events \<Rightarrow> bool" where
  "me_inv s \<longleftrightarrow> (\<forall>sid. numbered 0 (me_stream s sid))
     \<and> map snd (me_allEvents s) = map (\<lambda>i. int i + 1) [0..<length (me_allEvents s)]"

definition me_restamp :: "string \<Rightarrow> int \<Rightarrow> domain_event \<Rightarrow> domain_event" where
  "me_restamp sid v e = e\<lparr>ev_streamVersion := v\<rparr>"

lemma push_all_eq: "push_all es lg = lg @ zip es (map (\<lambda>i. int i + 1) [length lg..<length lg + length es])"
  by (induction es arbitrary: lg) (simp_all add: upt_conv_Cons del: upt_Suc)

lemma numbered_me: "numbered v (number_from (me_restamp sid) v es)" "length (number_from (me_restamp sid) v es) = length es"
  by (induction es arbitrary: v) (simp_all add: me_restamp_def)

lemma me_append_unfold:
  "me_append sid events expected s =
     (if expected \<noteq> int (length (me_stream s sid))
      then (Inl (WrongExpectedVersion sid expected (int (length (me_stream s sid)))), s)
      else (Inr (), s\<lparr>me_streams := (me_streams s)(sid \<mapsto> me_stream s sid @ number_from (me_restamp sid) expected events),
                   me_allEvents := push_all (number_from (me_restamp sid) expected events) (me_allEvents s),
                   me_outbox := mo_stage (map (me_message sid) (number_from (me_restamp sid) expected events)) (me_outbox s)\<rparr>))"
proof -
  have f: "(\<lambda>v e. e\<lparr>ev_streamVersion := v\<rparr>) = me_restamp sid" by (auto simp: me_restamp_def fun_eq_iff)
  show ?thesis by (simp add: me_append_def Let_def f)
qed

interpretation memory_events: event_store memory_event_store me_inv me_stream me_allEvents me_restamp "\<lambda>_ _. True"
proof unfold_locales
  fix s and sid :: string
  assume "me_inv s"
  then show "numbered 0 (me_stream s sid)" by (simp add: me_inv_def)
next
  fix s assume inv: "me_inv s"
  have "sorted_wrt (<) (map (\<lambda>i. int i + 1) [0..<n])" for n
    by (induction n) (auto simp: sorted_wrt_append)
  moreover have "0 < snd x" if "x \<in> set (me_allEvents s)" for x
  proof -
    have "snd x \<in> set (map snd (me_allEvents s))" using that by simp
    then have "snd x \<in> set (map (\<lambda>i. int i + 1) [0..<length (me_allEvents s)])"
      using inv by (simp add: me_inv_def del: set_map)
    then show ?thesis by auto
  qed
  ultimately show "sorted_wrt (<) (map snd (me_allEvents s)) \<and> (\<forall>x \<in> set (me_allEvents s). 0 < snd x)"
    using inv by (simp add: me_inv_def)
next
  fix s and sid :: string and expected events
  assume inv: "me_inv s" and e: "expected = int (length (me_stream s sid))"
  let ?new = "number_from (me_restamp sid) expected events"
  let ?ps = "map (\<lambda>i. int i + 1) [length (me_allEvents s)..<length (me_allEvents s) + length ?new]"
  obtain s' where s': "es_append memory_event_store sid events expected s = (Inr (), s')"
      "me_streams s' = (me_streams s)(sid \<mapsto> me_stream s sid @ ?new)" "me_allEvents s' = me_allEvents s @ zip ?new ?ps"
    by (simp add: memory_event_store_def me_append_unfold e push_all_eq)
  have stream: "me_stream s' = (me_stream s)(sid := me_stream s sid @ ?new)"
    using s'(2) by (auto simp: me_stream_def fun_eq_iff)
  have "numbered 0 (me_stream s' x)" for x
    using inv by (auto simp: stream me_inv_def numbered_append e numbered_me)
  moreover have "map snd (me_allEvents s') = map (\<lambda>i. int i + 1) [0..<length (me_allEvents s')]"
    using inv upt_add_eq_append [of 0 "length (me_allEvents s)" "length ?new"] by (simp add: s'(3) me_inv_def)
  ultimately have "me_inv s'" by (simp add: me_inv_def)
  then show "\<exists>s' ps. es_append memory_event_store sid events expected s = (Inr (), s') \<and> me_inv s'
        \<and> me_stream s' = (me_stream s)(sid := me_stream s sid @ ?new)
        \<and> length ps = length events \<and> me_allEvents s' = me_allEvents s @ zip ?new ps"
    using s' stream by (intro exI [of _ s'] exI [of _ ?ps]) (simp add: numbered_me)
qed (auto simp: memory_event_store_def me_readStream_def me_readAll_def me_append_unfold me_restamp_def)

section \<open>The Postgres store keeps the contract\<close>

definition pg_stream :: "pg_events \<Rightarrow> string \<Rightarrow> domain_event list" where
  "pg_stream s sid = filter (\<lambda>e. ev_streamId e = sid) (map er_event (pg_rows s))"

definition pg_journal :: "pg_events \<Rightarrow> (domain_event \<times> int) list" where
  "pg_journal s = map (\<lambda>r. (er_event r, er_id r)) (pg_rows s)"

definition pg_restamp :: "string \<Rightarrow> int \<Rightarrow> domain_event \<Rightarrow> domain_event" where
  "pg_restamp sid v e = e\<lparr>ev_streamId := sid, ev_streamVersion := v\<rparr>"

definition pg_ids :: "pg_events \<Rightarrow> string list" where
  "pg_ids s = map (\<lambda>r. ev_eventId (er_event r)) (pg_rows s)"

definition pg_fresh :: "pg_events \<Rightarrow> domain_event list \<Rightarrow> bool" where
  "pg_fresh s events \<longleftrightarrow> distinct (map ev_eventId events) \<and> set (map ev_eventId events) \<inter> set (pg_ids s) = {}"

text \<open>Every event row has its message in the outbox, with the same id, key and payload and its position.\<close>

definition outbox_covers :: "event_row list \<Rightarrow> outbox_table \<Rightarrow> bool" where
  "outbox_covers rows t \<longleftrightarrow>
     map (\<lambda>m. (om_id m, om_topic m, om_messageKey m, om_payload m, om_eventPosition m)) t =
     map (\<lambda>r. (ev_eventId (er_event r), topicForStream (ev_streamId (er_event r)), ev_streamId (er_event r),
               er_event r, Some (er_id r))) rows"

definition pg_inv :: "pg_events \<Rightarrow> bool" where
  "pg_inv s \<longleftrightarrow> (\<forall>sid. numbered 0 (pg_stream s sid))
     \<and> sorted_wrt (<) (map er_id (pg_rows s)) \<and> (\<forall>r \<in> set (pg_rows s). 0 < er_id r \<and> er_id r \<le> pg_sequence s)
     \<and> 0 \<le> pg_sequence s \<and> distinct (pg_ids s) \<and> outbox_covers (pg_rows s) (pg_outbox s)"

lemma numbered_max: "numbered v es \<Longrightarrow> fold max (map ev_streamVersion es) v = v + int (length es)"
  by (induction es arbitrary: v) (auto simp: max_def)

lemma max_version_length: "pg_inv s \<Longrightarrow> max_version sid s = int (length (pg_stream s sid))"
proof -
  assume "pg_inv s"
  then have "numbered 0 (pg_stream s sid)" by (simp add: pg_inv_def)
  from numbered_max [OF this] show ?thesis by (simp add: max_version_def pg_stream_def filter_map comp_def)
qed

lemma numbered_sorted: "numbered v es \<Longrightarrow> sorted (map ev_streamVersion es)"
proof (induction es arbitrary: v)
  case Nil
  then show ?case by simp
next
  case (Cons e es)
  then show ?case using numbered_greater [of "v + 1" es] by fastforce
qed

lemma pg_insert_fresh:
  assumes "pg_inv s" "v = int (length (pg_stream s sid))" "ev_eventId e \<notin> set (pg_ids s)"
  shows "violates_unique (pg_restamp sid (v + 1) e) (pg_rows s) = False"
proof -
  have "ev_streamVersion (er_event r) \<noteq> v + 1" if "r \<in> set (pg_rows s)" "ev_streamId (er_event r) = sid" for r
  proof -
    have "er_event r \<in> set (pg_stream s sid)" using that by (auto simp: pg_stream_def)
    then have "ev_streamVersion (er_event r) \<le> v"
      using numbered_greater [of 0 "pg_stream s sid"] assms(1,2) by (auto simp: pg_inv_def)
    then show ?thesis by simp
  qed
  moreover have "ev_eventId (er_event r) \<noteq> ev_eventId e" if "r \<in> set (pg_rows s)" for r
    using assms(3) that by (force simp: pg_ids_def)
  ultimately show ?thesis by (auto simp: violates_unique_def list_ex_iff pg_restamp_def)
qed

lemma outbox_covers_ids: "outbox_covers rows t \<Longrightarrow> map om_id t = map (\<lambda>r. ev_eventId (er_event r)) rows"
  unfolding outbox_covers_def by (drule arg_cong [where f = "map fst"]) (simp add: comp_def)

lemma insert_one_inv:
  assumes inv: "pg_inv s" and v: "v = int (length (pg_stream s sid))" and new: "ev_eventId e \<notin> set (pg_ids s)"
    and s': "s' = s\<lparr>pg_sequence := pg_sequence s + 1,
        pg_rows := pg_rows s @ [\<lparr>er_id = pg_sequence s + 1, er_event = pg_restamp sid (v + 1) e\<rparr>],
        pg_outbox := outbox_insert (pg_message sid (pg_restamp sid (v + 1) e) (pg_sequence s + 1)) (pg_outbox s)\<rparr>"
  shows "pg_inv s' \<and> pg_stream s' = (pg_stream s)(sid := pg_stream s sid @ [pg_restamp sid (v + 1) e])
     \<and> pg_journal s' = pg_journal s @ [(pg_restamp sid (v + 1) e, pg_sequence s + 1)] \<and> pg_ids s' = pg_ids s @ [ev_eventId e]"
proof -
  have stream: "pg_stream s' = (pg_stream s)(sid := pg_stream s sid @ [pg_restamp sid (v + 1) e])"
    by (auto simp: pg_stream_def s' pg_restamp_def fun_eq_iff)
  have ids: "pg_ids s' = pg_ids s @ [ev_eventId e]" by (simp add: pg_ids_def s' pg_restamp_def)
  have "om_id ` set (pg_outbox s) = set (pg_ids s)"
    using outbox_covers_ids [of "pg_rows s" "pg_outbox s"] inv
    by (metis (no_types, lifting) list.set_map pg_ids_def pg_inv_def)
  then have "outbox_covers (pg_rows s') (pg_outbox s')"
    using inv new by (simp add: s' outbox_insert_def pg_message_def pg_inv_def outbox_covers_def pg_restamp_def)
  moreover have "numbered 0 (pg_stream s' x)" for x
    using inv v by (simp add: stream pg_inv_def numbered_append pg_restamp_def)
  moreover have "sorted_wrt (<) (map er_id (pg_rows s'))"
    using inv by (force simp: s' sorted_wrt_append pg_inv_def)
  moreover have "\<forall>r \<in> set (pg_rows s'). 0 < er_id r \<and> er_id r \<le> pg_sequence s'" "0 \<le> pg_sequence s'"
    using inv by (force simp: s' pg_inv_def)+
  moreover have "distinct (pg_ids s')" using inv new by (simp add: ids pg_inv_def)
  ultimately show ?thesis using stream ids by (simp add: pg_inv_def pg_journal_def s')
qed

lemma insert_events_ok:
  assumes "pg_inv s" "v = int (length (pg_stream s sid))" "pg_fresh s es"
  shows "\<exists>s' ps. insert_events sid v es s = (Inr (), s') \<and> pg_inv s'
        \<and> pg_stream s' = (pg_stream s)(sid := pg_stream s sid @ number_from (pg_restamp sid) v es)
        \<and> length ps = length es \<and> pg_journal s' = pg_journal s @ zip (number_from (pg_restamp sid) v es) ps"
  using assms
proof (induction es arbitrary: s v)
  case Nil
  then show ?case by (intro exI [of _ s]) simp
next
  case (Cons e es)
  let ?e = "pg_restamp sid (v + 1) e"
  define s1 where "s1 = s\<lparr>pg_sequence := pg_sequence s + 1,
        pg_rows := pg_rows s @ [\<lparr>er_id = pg_sequence s + 1, er_event = ?e\<rparr>],
        pg_outbox := outbox_insert (pg_message sid ?e (pg_sequence s + 1)) (pg_outbox s)\<rparr>"
  have new: "ev_eventId e \<notin> set (pg_ids s)" using Cons.prems(3) by (simp add: pg_fresh_def)
  note one = insert_one_inv [OF Cons.prems(1,2) new s1_def]
  have step: "insert_events sid v (e # es) s = insert_events sid (v + 1) es s1"
    using pg_insert_fresh [OF Cons.prems(1,2) new] by (simp add: insert_event_def Let_def s1_def pg_restamp_def)
  have "pg_fresh s1 es" using Cons.prems(3) one by (auto simp: pg_fresh_def)
  then obtain s' ps where "insert_events sid (v + 1) es s1 = (Inr (), s')" "pg_inv s'"
      "pg_stream s' = (pg_stream s1)(sid := pg_stream s1 sid @ number_from (pg_restamp sid) (v + 1) es)"
      "length ps = length es" "pg_journal s' = pg_journal s1 @ zip (number_from (pg_restamp sid) (v + 1) es) ps"
    using Cons.IH [of s1 "v + 1"] one Cons.prems(2) by fastforce
  then show ?case unfolding step using one
    by (intro exI [of _ s'] exI [of _ "(pg_sequence s + 1) # ps"]) simp
qed

lemma insert_events_not_fresh:
  assumes "pg_inv s" "v = int (length (pg_stream s sid))" "\<not> pg_fresh s es"
  shows "\<exists>s'. insert_events sid v es s = (Inl duplicate_key, s') \<and> pg_sequence s \<le> pg_sequence s'"
  using assms
proof (induction es arbitrary: s v)
  case Nil
  then show ?case by (simp add: pg_fresh_def)
next
  case (Cons e es)
  let ?e = "pg_restamp sid (v + 1) e"
  define s1 where "s1 = s\<lparr>pg_sequence := pg_sequence s + 1,
        pg_rows := pg_rows s @ [\<lparr>er_id = pg_sequence s + 1, er_event = ?e\<rparr>],
        pg_outbox := outbox_insert (pg_message sid ?e (pg_sequence s + 1)) (pg_outbox s)\<rparr>"
  show ?case
  proof (cases "ev_eventId e \<in> set (pg_ids s)")
    case True
    then have "violates_unique ?e (pg_rows s)"
      by (auto simp: violates_unique_def list_ex_iff pg_ids_def pg_restamp_def)
    then show ?thesis by (simp add: insert_event_def Let_def pg_restamp_def)
  next
    case False
    note one = insert_one_inv [OF Cons.prems(1,2) False s1_def]
    have step: "insert_events sid v (e # es) s = insert_events sid (v + 1) es s1"
      using pg_insert_fresh [OF Cons.prems(1,2) False] by (simp add: insert_event_def Let_def s1_def pg_restamp_def)
    have "\<not> pg_fresh s1 es" using Cons.prems(3) one False by (auto simp: pg_fresh_def)
    then show ?thesis using Cons.IH [of s1 "v + 1"] one Cons.prems(2)
      unfolding step by (fastforce simp: s1_def)
  qed
qed

interpretation postgres_events: event_store postgres_event_store pg_inv pg_stream pg_journal pg_restamp pg_fresh
proof unfold_locales
  fix s and sid :: string
  assume "pg_inv s"
  then show "numbered 0 (pg_stream s sid)" by (simp add: pg_inv_def)
next
  fix s assume inv: "pg_inv s"
  then show "sorted_wrt (<) (map snd (pg_journal s)) \<and> (\<forall>x \<in> set (pg_journal s). 0 < snd x)"
    by (auto simp: pg_inv_def pg_journal_def comp_def)
next
  fix s and sid :: string and n :: int
  assume inv: "pg_inv s"
  have "numbered 0 (pg_stream s sid)" using inv by (simp add: pg_inv_def)
  then have "sorted (map ev_streamVersion (pg_stream s sid))" by (rule numbered_sorted)
  then have "sorted (map ev_streamVersion (filter (\<lambda>e. n < ev_streamVersion e) (pg_stream s sid)))"
    by (rule sorted_filter)
  moreover have "filter (\<lambda>e. ev_streamId e = sid \<and> n < ev_streamVersion e) (map er_event (pg_rows s))
      = filter (\<lambda>e. n < ev_streamVersion e) (pg_stream s sid)"
    by (simp add: pg_stream_def conj_commute)
  ultimately show "es_readStream postgres_event_store sid n s = filter (\<lambda>e. n < ev_streamVersion e) (pg_stream s sid)"
    by (simp add: postgres_event_store_def pg_readStream_def sort_key_id_if_sorted)
next
  fix s and p :: int and k :: nat
  assume inv: "pg_inv s"
  then have "sorted_wrt (<) (map er_id (filter (\<lambda>r. p < er_id r) (pg_rows s)))"
    by (simp add: pg_inv_def sorted_wrt_map sorted_wrt_filter)
  then have "sorted (map er_id (filter (\<lambda>r. p < er_id r) (pg_rows s)))" by (simp add: strict_sorted_iff)
  then show "es_readAll postgres_event_store p k s = take k (filter (\<lambda>x. p < snd x) (pg_journal s))"
    by (simp add: postgres_event_store_def pg_readAll_def pg_journal_def filter_map comp_def take_map
        sort_key_id_if_sorted)
next
  fix s and sid :: string and expected events
  assume inv: "pg_inv s" and e: "expected = int (length (pg_stream s sid))" and f: "\<not> pg_fresh s events"
  obtain s1 where "insert_events sid expected events s = (Inl duplicate_key, s1)" "pg_sequence s \<le> pg_sequence s1"
    using insert_events_not_fresh [OF inv e f] by blast
  then have "es_append postgres_event_store sid events expected s = (Inl duplicate_key, s\<lparr>pg_sequence := pg_sequence s1\<rparr>)"
    by (simp add: postgres_event_store_def pg_append_def max_version_length [OF inv] e)
  moreover have "pg_inv (s\<lparr>pg_sequence := pg_sequence s1\<rparr>)"
    using inv \<open>pg_sequence s \<le> pg_sequence s1\<close> by (fastforce simp: pg_inv_def pg_stream_def pg_ids_def)
  ultimately show "\<exists>s'. es_append postgres_event_store sid events expected s = (Inl duplicate_key, s') \<and> pg_inv s'
        \<and> pg_stream s' = pg_stream s \<and> pg_journal s' = pg_journal s"
    by (auto simp: pg_stream_def pg_journal_def fun_eq_iff)
next
  fix s and sid :: string and expected events
  assume inv: "pg_inv s" and e: "expected = int (length (pg_stream s sid))" and f: "pg_fresh s events"
  show "\<exists>s' ps. es_append postgres_event_store sid events expected s = (Inr (), s') \<and> pg_inv s'
        \<and> pg_stream s' = (pg_stream s)(sid := pg_stream s sid @ number_from (pg_restamp sid) expected events)
        \<and> length ps = length events \<and> pg_journal s' = pg_journal s @ zip (number_from (pg_restamp sid) expected events) ps"
    using insert_events_ok [OF inv e f]
    by (auto simp: postgres_event_store_def pg_append_def max_version_length [OF inv] e)
qed (auto simp: postgres_event_store_def pg_append_def max_version_length pg_restamp_def)

section \<open>Histories of a store\<close>

text \<open>What happens to the Postgres tables: appends, and the publisher's operations on the outbox.\<close>

datatype pg_step =
    PgAppend string "domain_event list" int
  | PgClaim nat int "string set"
  | PgMarkPublished string int
  | PgMarkFailed string string

fun pg_run_step :: "(outbox_row list \<Rightarrow> outbox_row list) \<Rightarrow> pg_step \<Rightarrow> pg_events \<Rightarrow> pg_events" where
  "pg_run_step returning (PgAppend sid events expected) s = snd (pg_append sid events expected s)"
| "pg_run_step returning (PgClaim limit now locked) s =
     s\<lparr>pg_outbox := snd (po_claimPending returning locked now limit (pg_outbox s))\<rparr>"
| "pg_run_step returning (PgMarkPublished i now) s = s\<lparr>pg_outbox := po_markPublished i now (pg_outbox s)\<rparr>"
| "pg_run_step returning (PgMarkFailed i err) s = s\<lparr>pg_outbox := po_markFailed i err (pg_outbox s)\<rparr>"

lemma outbox_covers_map:
  assumes "\<And>m. (om_id (f m), om_topic (f m), om_messageKey (f m), om_payload (f m), om_eventPosition (f m))
      = (om_id m, om_topic m, om_messageKey m, om_payload m, om_eventPosition m)"
  shows "outbox_covers rows (map f t) = outbox_covers rows t"
  by (simp add: outbox_covers_def comp_def assms)

lemma pg_inv_outbox_map:
  assumes "pg_inv s"
    and "\<And>m. (om_id (f m), om_topic (f m), om_messageKey (f m), om_payload (f m), om_eventPosition (f m))
      = (om_id m, om_topic m, om_messageKey m, om_payload m, om_eventPosition m)"
  shows "pg_inv (s\<lparr>pg_outbox := map f (pg_outbox s)\<rparr>)"
  using assms(1) outbox_covers_map [OF assms(2)] by (simp add: pg_inv_def pg_stream_def pg_ids_def)

lemma pg_step_inv:
  assumes "pg_inv s"
  shows "pg_inv (pg_run_step returning st s)"
proof (cases st)
  case (PgAppend sid events expected)
  then show ?thesis
    using postgres_events.append_keeps_history [OF assms, of sid events expected]
    by (cases "pg_append sid events expected s") (simp add: postgres_event_store_def)
next
  case (PgClaim limit now locked)
  then show ?thesis using assms
    by (simp add: po_claimPending_def Let_def pg_inv_outbox_map)
next
  case (PgMarkPublished i now)
  then show ?thesis using assms
    by (simp add: po_markPublished_def pg_inv_outbox_map)
next
  case (PgMarkFailed i err)
  then show ?thesis using assms
    by (simp add: po_markFailed_def pg_inv_outbox_map)
qed

lemma empty_pg_inv: "pg_inv empty_pg_events"
  by (simp add: pg_inv_def empty_pg_events_def pg_stream_def pg_ids_def outbox_covers_def)

lemma empty_me_inv: "me_inv empty_memory_events"
  by (simp add: me_inv_def empty_memory_events_def me_stream_def)

text \<open>A sequence of appends, with the results they gave.\<close>

fun append_all :: "'es event_store_ops \<Rightarrow> (string \<times> domain_event list \<times> int) list \<Rightarrow> 'es \<Rightarrow> unit result list \<times> 'es" where
  "append_all ops [] s = ([], s)"
| "append_all ops ((sid, events, expected) # as) s =
     (case es_append ops sid events expected s of
        (r, s1) \<Rightarrow> (case append_all ops as s1 of (rs, s2) \<Rightarrow> (r # rs, s2)))"

definition all_ids :: "(string \<times> domain_event list \<times> int) list \<Rightarrow> string list" where
  "all_ids as = concat (map (\<lambda>(_, events, _). map ev_eventId events) as)"

lemma all_ids_simps [simp]:
  "all_ids [] = []" "all_ids ((sid, events, n) # as) = map ev_eventId events @ all_ids as"
  by (simp_all add: all_ids_def)

definition same_streams :: "memory_events \<Rightarrow> pg_events \<Rightarrow> bool" where
  "same_streams m p \<longleftrightarrow> (\<forall>sid. list_all2 same_core (me_stream m sid) (pg_stream p sid))"

lemma number_from_same: "list_all2 same_core (number_from (me_restamp sid) v es) (number_from (pg_restamp sid) v es)"
  by (induction es arbitrary: v) (simp_all add: same_core_def me_restamp_def pg_restamp_def)

lemma pg_ids_journal: "set (pg_ids s) = ev_eventId ` fst ` set (pg_journal s)"
  by (force simp: pg_ids_def pg_journal_def)

lemma pg_ids_append:
  assumes "pg_inv s" "es_append postgres_event_store sid events expected s = (r, s')"
  shows "set (pg_ids s') \<subseteq> set (pg_ids s) \<union> set (map ev_eventId events)"
proof -
  have "set (map ev_eventId (number_from (pg_restamp sid) v es)) = set (map ev_eventId es)" for v es
    by (induction es arbitrary: v) (simp_all add: pg_restamp_def)
  then have new: "ev_eventId ` fst ` set (zip (number_from (pg_restamp sid) expected events) ps) \<subseteq> set (map ev_eventId events)" for ps
    by (auto dest!: set_zip_leftD) (metis image_eqI list.set_map)
  show ?thesis
  proof (cases "expected = int (length (pg_stream s sid))")
    case False
    then show ?thesis using postgres_events.append_conflict [OF assms(1) False, of events] assms(2) by auto
  next
    case e: True
    show ?thesis
    proof (cases "pg_fresh s events")
      case False
      then have "pg_journal s' = pg_journal s"
        using postgres_events.append_refused [OF assms(1) e False] assms(2) by auto
      then show ?thesis by (simp add: pg_ids_journal)
    next
      case True
      then obtain ps where "pg_journal s' = pg_journal s @ zip (number_from (pg_restamp sid) expected events) ps"
        using postgres_events.append_ok [OF assms(1) e True] assms(2) by auto
      then have "set (pg_ids s') = set (pg_ids s)
          \<union> ev_eventId ` fst ` set (zip (number_from (pg_restamp sid) expected events) ps)"
        by (simp only: pg_ids_journal set_append image_Un)
      then show ?thesis using new [of ps] by blast
    qed
  qed
qed

lemma stores_agree_from:
  assumes "me_inv m" "pg_inv p" "same_streams m p" "distinct (all_ids as)" "set (all_ids as) \<inter> set (pg_ids p) = {}"
  shows "fst (append_all memory_event_store as m) = fst (append_all postgres_event_store as p)
     \<and> me_inv (snd (append_all memory_event_store as m)) \<and> pg_inv (snd (append_all postgres_event_store as p))
     \<and> same_streams (snd (append_all memory_event_store as m)) (snd (append_all postgres_event_store as p))"
  using assms
proof (induction as arbitrary: m p)
  case Nil
  then show ?case by simp
next
  case (Cons a as)
  obtain sid events expected where a: "a = (sid, events, expected)" by (cases a)
  have len: "length (me_stream m sid) = length (pg_stream p sid)"
    using Cons.prems(3) by (auto simp: same_streams_def dest: list_all2_lengthD)
  show ?case
  proof (cases "expected = int (length (pg_stream p sid))")
    case False
    then have "es_append memory_event_store sid events expected m = es_append memory_event_store sid events expected m"
        "fst (es_append memory_event_store sid events expected m) = fst (es_append postgres_event_store sid events expected p)"
        "snd (es_append memory_event_store sid events expected m) = m"
        "snd (es_append postgres_event_store sid events expected p) = p"
      using memory_events.append_conflict [OF Cons.prems(1), of expected sid events]
        postgres_events.append_conflict [OF Cons.prems(2), of expected sid events] len by simp_all
    moreover have "distinct (all_ids as)" "set (all_ids as) \<inter> set (pg_ids p) = {}"
      using Cons.prems(4,5) by (auto simp: a)
    ultimately show ?thesis using Cons.IH [OF Cons.prems(1-3)] by (simp add: a split_beta)
  next
    case True
    have fresh: "pg_fresh p events" using Cons.prems(4,5) by (auto simp: pg_fresh_def a)
    obtain m' where m': "es_append memory_event_store sid events expected m = (Inr (), m')" "me_inv m'"
        "me_stream m' = (me_stream m)(sid := me_stream m sid @ number_from (me_restamp sid) expected events)"
      using memory_events.append_ok [OF Cons.prems(1), of expected sid events] True len by auto
    obtain p' where p': "es_append postgres_event_store sid events expected p = (Inr (), p')" "pg_inv p'"
        "pg_stream p' = (pg_stream p)(sid := pg_stream p sid @ number_from (pg_restamp sid) expected events)"
      using postgres_events.append_ok [OF Cons.prems(2) True fresh] by auto
    have "same_streams m' p'"
      using Cons.prems(3) by (auto simp: same_streams_def m'(3) p'(3) intro: list_all2_appendI number_from_same)
    moreover have "distinct (all_ids as)" using Cons.prems(4) by (simp add: a)
    moreover have "set (all_ids as) \<inter> set (pg_ids p') = {}"
      using pg_ids_append [OF Cons.prems(2) p'(1)] Cons.prems(4,5) by (auto simp: a)
    ultimately show ?thesis
      using Cons.IH [OF m'(2) p'(2)] by (simp add: a m'(1) p'(1) split_beta)
  qed
qed

lemma filter_same_core:
  "list_all2 same_core xs ys \<Longrightarrow>
     list_all2 same_core (filter (\<lambda>e. n < ev_streamVersion e) xs) (filter (\<lambda>e. n < ev_streamVersion e) ys)"
  by (induction rule: list_all2_induct) (auto simp: same_core_def)

section \<open>Properties\<close>

text \<open>C16: The event log and its outbox are never apart: whatever appends, claims, acknowledgements and
  refusals happen to the Postgres tables, every stream reads back numbered from one without a gap, event
  ids are unique, and the outbox holds exactly one message per stored event, in the same order, with its
  id, topic, key, payload and position.\<close>

theorem postgres_log_and_outbox_agree:
  "(\<forall>sid. numbered 0 (pg_readStream sid 0 (fold (pg_run_step returning) steps empty_pg_events)))
   \<and> distinct (pg_ids (fold (pg_run_step returning) steps empty_pg_events))
   \<and> outbox_covers (pg_rows (fold (pg_run_step returning) steps empty_pg_events))
       (pg_outbox (fold (pg_run_step returning) steps empty_pg_events))"
proof -
  have "pg_inv (fold (pg_run_step returning) steps s)" if "pg_inv s" for s
    using that by (induction steps arbitrary: s) (simp_all add: pg_step_inv)
  then have inv: "pg_inv (fold (pg_run_step returning) steps empty_pg_events)" by (simp add: empty_pg_inv)
  then show ?thesis
    using postgres_events.read_whole [OF inv] postgres_events.numbered_stream [OF inv]
    by (simp add: pg_inv_def postgres_event_store_def)
qed



end
