(* ===== verification/Snapshots.thy ===== *)
theory Snapshots
  imports AccountAggregate
begin

text \<open>
  \<open>src/infrastructure/snapshots\<close>: the snapshot stores.  Only accounts have snapshots, so the state of a
  snapshot is the account's.
\<close>

record snapshot =
  sn_streamId :: string
  sn_version :: int
  sn_state :: account_snapshot
  sn_createdAt :: "int option"

text \<open>\<open>now\<close> is what the clock says when \<open>save\<close> runs.\<close>

record 'ss snapshot_ops =
  so_getLatest :: "string \<Rightarrow> 'ss \<Rightarrow> snapshot option"
  so_save :: "snapshot \<Rightarrow> int \<Rightarrow> 'ss \<Rightarrow> 'ss"

section \<open>The in-memory store\<close>

type_synonym memory_snapshots = "string \<rightharpoonup> snapshot"

definition ms_getLatest :: "string \<Rightarrow> memory_snapshots \<Rightarrow> snapshot option" where
  "ms_getLatest streamId s = s streamId"

definition ms_save :: "snapshot \<Rightarrow> int \<Rightarrow> memory_snapshots \<Rightarrow> memory_snapshots" where
  "ms_save snap now s =
     (case ms_getLatest (sn_streamId snap) s of
        Some current \<Rightarrow>
          if sn_version snap \<le> sn_version current then s
          else s(sn_streamId snap \<mapsto>
                 snap\<lparr>sn_createdAt := Some (case sn_createdAt snap of None \<Rightarrow> now | Some t \<Rightarrow> t)\<rparr>)
      | None \<Rightarrow>
          s(sn_streamId snap \<mapsto> snap\<lparr>sn_createdAt := Some (case sn_createdAt snap of None \<Rightarrow> now | Some t \<Rightarrow> t)\<rparr>))"

definition memory_snapshot_store :: "memory_snapshots snapshot_ops" where
  "memory_snapshot_store = \<lparr>so_getLatest = ms_getLatest, so_save = ms_save\<rparr>"

section \<open>The Postgres store\<close>

text \<open>The table \<open>snapshots\<close>, unique in stream and version.\<close>

type_synonym pg_snapshots = "snapshot list"

definition ps_getLatest :: "string \<Rightarrow> pg_snapshots \<Rightarrow> snapshot option" where
  "ps_getLatest streamId s =
     (case sort_key (\<lambda>r. - sn_version r) (filter (\<lambda>r. sn_streamId r = streamId) s) of [] \<Rightarrow> None | r # _ \<Rightarrow> Some r)"

definition ps_save :: "snapshot \<Rightarrow> int \<Rightarrow> pg_snapshots \<Rightarrow> pg_snapshots" where
  "ps_save snap now s =
     (if list_ex (\<lambda>r. sn_streamId r = sn_streamId snap \<and> sn_version r = sn_version snap) s then s
      else s @ [snap\<lparr>sn_createdAt := Some (case sn_createdAt snap of None \<Rightarrow> now | Some t \<Rightarrow> t)\<rparr>])"

definition postgres_snapshot_store :: "pg_snapshots snapshot_ops" where
  "postgres_snapshot_store = \<lparr>so_getLatest = ps_getLatest, so_save = ps_save\<rparr>"

section \<open>What a snapshot store promises\<close>

text \<open>The latest snapshot of a stream, by version; saving never goes back to an older version.\<close>

locale snapshot_store =
  fixes ops :: "'ss snapshot_ops"
    and inv :: "'ss \<Rightarrow> bool"
    and latest :: "'ss \<Rightarrow> string \<Rightarrow> (int \<times> account_snapshot) option"
  assumes get_latest: "inv s \<Longrightarrow> map_option (\<lambda>x. (sn_version x, sn_state x)) (so_getLatest ops sid s) = latest s sid"
    and save_latest: "inv s \<Longrightarrow> inv (so_save ops snap now s) \<and>
      latest (so_save ops snap now s) = (latest s)(sn_streamId snap :=
        (case latest s (sn_streamId snap) of
           None \<Rightarrow> Some (sn_version snap, sn_state snap)
         | Some (v, st) \<Rightarrow> if sn_version snap \<le> v then Some (v, st) else Some (sn_version snap, sn_state snap)))"
begin

lemma latest_after_save:
  assumes "inv s" "latest (so_save ops snap now s) sid = Some (v, st)"
  shows "latest s sid = Some (v, st) \<or> sid = sn_streamId snap \<and> v = sn_version snap \<and> st = sn_state snap"
  using save_latest [OF assms(1), of snap now] assms(2) by (auto split: option.splits if_splits)

end

definition ms_latest :: "memory_snapshots \<Rightarrow> string \<Rightarrow> (int \<times> account_snapshot) option" where
  "ms_latest s sid = map_option (\<lambda>x. (sn_version x, sn_state x)) (s sid)"

interpretation memory_snapshots: snapshot_store memory_snapshot_store "\<lambda>_. True" ms_latest
  by unfold_locales
    (auto simp: memory_snapshot_store_def ms_getLatest_def ms_save_def ms_latest_def fun_eq_iff split: option.splits)

definition ps_latest :: "pg_snapshots \<Rightarrow> string \<Rightarrow> (int \<times> account_snapshot) option" where
  "ps_latest s sid = map_option (\<lambda>x. (sn_version x, sn_state x)) (ps_getLatest sid s)"

definition ps_inv :: "pg_snapshots \<Rightarrow> bool" where
  "ps_inv s \<longleftrightarrow> distinct (map (\<lambda>r. (sn_streamId r, sn_version r)) s)"

lemma ps_getLatest_None: "ps_getLatest sid s = None \<longleftrightarrow> (\<forall>r \<in> set s. sn_streamId r \<noteq> sid)"
proof -
  let ?l = "sort_key (\<lambda>r. - sn_version r) (filter (\<lambda>r. sn_streamId r = sid) s)"
  have "ps_getLatest sid s = None \<longleftrightarrow> set ?l = {}" unfolding ps_getLatest_def by (cases ?l) (simp_all del: set_sort)
  also have "set ?l = {r \<in> set s. sn_streamId r = sid}" by auto
  finally show ?thesis by auto
qed

lemma ps_getLatest_Some:
  assumes "ps_getLatest sid s = Some r"
  shows "r \<in> set s \<and> sn_streamId r = sid \<and> (\<forall>x \<in> set s. sn_streamId x = sid \<longrightarrow> sn_version x \<le> sn_version r)"
proof -
  let ?l = "sort_key (\<lambda>r. - sn_version r) (filter (\<lambda>r. sn_streamId r = sid) s)"
  obtain rs where l: "?l = r # rs" using assms by (auto simp: ps_getLatest_def split: list.splits)
  have "sorted (map (\<lambda>r. - sn_version r) (r # rs))" unfolding l [symmetric] by simp
  moreover have "set (r # rs) = {r \<in> set s. sn_streamId r = sid}" unfolding l [symmetric] by auto
  ultimately show ?thesis by auto
qed

lemma ps_getLatest_eq:
  assumes "ps_inv s" "r \<in> set s" "sn_streamId r = sid" "\<forall>x \<in> set s. sn_streamId x = sid \<longrightarrow> sn_version x \<le> sn_version r"
  shows "ps_getLatest sid s = Some r"
proof (cases "ps_getLatest sid s")
  case None
  then show ?thesis using ps_getLatest_None assms(2,3) by blast
next
  case (Some x)
  from ps_getLatest_Some [OF this] have "x \<in> set s" "sn_streamId x = sid" "sn_version x = sn_version r"
    using assms(2-4) by (auto intro: antisym)
  then have "x = r" using assms(1-3) by (auto simp: ps_inv_def distinct_map inj_on_def)
  then show ?thesis using Some by simp
qed

lemma ps_save_inv: "ps_inv s \<Longrightarrow> ps_inv (ps_save snap now s)"
  by (auto simp: ps_inv_def ps_save_def list_ex_iff)

lemma ps_save_latest:
  assumes inv: "ps_inv s"
  shows "ps_latest (ps_save snap now s) = (ps_latest s)(sn_streamId snap :=
        (case ps_latest s (sn_streamId snap) of
           None \<Rightarrow> Some (sn_version snap, sn_state snap)
         | Some (v, st) \<Rightarrow> if sn_version snap \<le> v then Some (v, st) else Some (sn_version snap, sn_state snap)))"
proof (rule ext)
  fix sid
  let ?new = "snap\<lparr>sn_createdAt := Some (case sn_createdAt snap of None \<Rightarrow> now | Some t \<Rightarrow> t)\<rparr>"
  note inv' = ps_save_inv [OF inv, of snap now]
  show "ps_latest (ps_save snap now s) sid = ((ps_latest s)(sn_streamId snap :=
        (case ps_latest s (sn_streamId snap) of
           None \<Rightarrow> Some (sn_version snap, sn_state snap)
         | Some (v, st) \<Rightarrow> if sn_version snap \<le> v then Some (v, st) else Some (sn_version snap, sn_state snap)))) sid"
  proof (cases "list_ex (\<lambda>r. sn_streamId r = sn_streamId snap \<and> sn_version r = sn_version snap) s")
    case True
    then obtain r where r: "r \<in> set s" "sn_streamId r = sn_streamId snap" "sn_version r = sn_version snap"
      by (auto simp: list_ex_iff)
    then obtain x where x: "ps_getLatest (sn_streamId snap) s = Some x" using ps_getLatest_None by fastforce
    with ps_getLatest_Some [OF x] r True show ?thesis by (auto simp: ps_latest_def ps_save_def)
  next
    case False
    then have save: "ps_save snap now s = s @ [?new]" by (simp add: ps_save_def)
    show ?thesis
    proof (cases "sid = sn_streamId snap")
      case other: False
      have "ps_getLatest sid (s @ [?new]) = ps_getLatest sid s" using other by (simp add: ps_getLatest_def)
      then show ?thesis using other by (simp add: ps_latest_def save)
    next
      case sid: True
      show ?thesis
      proof (cases "ps_getLatest sid s")
        case None
        then have "ps_getLatest sid (s @ [?new]) = Some ?new"
          using inv' sid ps_getLatest_None [of sid s] unfolding save by (intro ps_getLatest_eq) auto
        then show ?thesis using None sid by (simp add: ps_latest_def save)
      next
        case (Some x)
        note top = ps_getLatest_Some [OF Some]
        show ?thesis
        proof (cases "sn_version snap \<le> sn_version x")
          case True
          then have "ps_getLatest sid (s @ [?new]) = Some x"
            using inv' sid top unfolding save by (intro ps_getLatest_eq) auto
          then show ?thesis using Some sid True by (simp add: ps_latest_def save)
        next
          case low: False
          then have "ps_getLatest sid (s @ [?new]) = Some ?new"
            using inv' sid top unfolding save by (intro ps_getLatest_eq) force+
          then show ?thesis using Some sid low by (simp add: ps_latest_def save)
        qed
      qed
    qed
  qed
qed

interpretation postgres_snapshots: snapshot_store postgres_snapshot_store ps_inv ps_latest
  by unfold_locales (simp_all add: postgres_snapshot_store_def ps_save_inv ps_save_latest ps_latest_def [symmetric])

end
