(* ===== verification/Repositories.thy ===== *)
theory Repositories
  imports EventStores Snapshots TransferAggregate
begin

text \<open>
  \<open>account.repository.ts\<close> and \<open>transfer.repository.ts\<close>: loading an aggregate from its latest snapshot
  and the tail of its stream, saving it under its expected version, and the retries.
\<close>

section \<open>Dependencies and state\<close>

definition account_stream :: "string \<Rightarrow> string" where
  "account_stream accountId = ''account-'' @ accountId"

definition transfer_stream :: "string \<Rightarrow> string" where
  "transfer_stream transferId = ''transfer-'' @ transferId"

lemma streams_differ [simp]:
  "account_stream i \<noteq> transfer_stream j" "transfer_stream j \<noteq> account_stream i"
  "account_stream i = account_stream j \<longleftrightarrow> i = j" "transfer_stream i = transfer_stream j \<longleftrightarrow> i = j"
  by (simp_all add: account_stream_def transfer_stream_def)

text \<open>
  What the repositories are constructed with, and the outside world: \<open>dp_stamps\<close> gives the ids and times
  of successive writes, and \<open>dp_others\<close> what other instances of the service do to the shared stores
  between the reads of a write attempt and its append.
\<close>

record ('es, 'ss) deps =
  dp_events :: "'es event_store_ops"
  dp_snapshots :: "'ss snapshot_ops"
  dp_stamps :: "nat \<Rightarrow> stamp"
  dp_others :: "nat \<Rightarrow> 'es \<times> 'ss \<Rightarrow> 'es \<times> 'ss"

record ('es, 'ss) stores =
  st_events :: 'es
  st_snapshots :: 'ss
  st_tick :: nat

definition MAX_WRITE_ATTEMPTS :: nat where
  "MAX_WRITE_ATTEMPTS = 3"

definition SNAPSHOT_INTERVAL :: int where
  "SNAPSHOT_INTERVAL = 50"

text \<open>The loop of \<open>executeWithRetry\<close>: only a wrong expected version leads to another attempt.\<close>

fun write_attempts :: "nat \<Rightarrow> string \<Rightarrow> ('s, unit) prog \<Rightarrow> ('s, unit) prog" where
  "write_attempts 0 msg body s = (Inr (), s)"
| "write_attempts (Suc n) msg body s =
     (case body s of
        (Inl (WrongExpectedVersion sid expected actual), s') \<Rightarrow>
          if 0 < n then write_attempts n msg body s' else (Inl (Conflict msg), s')
      | r \<Rightarrow> r)"

text \<open>The other instances' turn.\<close>

definition meanwhile :: "('es, 'ss) deps \<Rightarrow> ('es, 'ss) stores \<Rightarrow> ('es, 'ss) stores" where
  "meanwhile d s =
     (case dp_others d (st_tick s) (st_events s, st_snapshots s) of
        (es, ss) \<Rightarrow> \<lparr>st_events = es, st_snapshots = ss, st_tick = Suc (st_tick s)\<rparr>)"

section \<open>Accounts\<close>

definition account_getById :: "('es, 'ss) deps \<Rightarrow> string \<Rightarrow> ('es, 'ss) stores \<Rightarrow> account result" where
  "account_getById d accountId s =
     (let streamId = account_stream accountId;
          snapshot = so_getLatest (dp_snapshots d) streamId (st_snapshots s)
      in bind_result
           (case snapshot of
              None \<Rightarrow> Inr new_account
            | Some x \<Rightarrow> restoreSnapshot (sn_state x) (sn_version x) new_account)
           (loadFromHistory account_when
             (es_readStream (dp_events d) streamId (case snapshot of None \<Rightarrow> 0 | Some x \<Rightarrow> sn_version x) (st_events s))))"

definition account_save :: "('es, 'ss) deps \<Rightarrow> string \<Rightarrow> int \<Rightarrow> account \<Rightarrow> (('es, 'ss) stores, unit) prog" where
  "account_save d accountId now aggregate s =
     (let streamId = account_stream accountId; (events, a) = pullUncommittedEvents aggregate
      in if events = [] then (Inr (), s)
         else (let expectedVersion = acc_version (fst a) - int (length events)
               in case es_append (dp_events d) streamId events expectedVersion (st_events s) of
                    (Inl e, es) \<Rightarrow> (Inl e, s\<lparr>st_events := es\<rparr>)
                  | (Inr _, es) \<Rightarrow>
                      (Inr (), if expectedVersion div SNAPSHOT_INTERVAL < acc_version (fst a) div SNAPSHOT_INTERVAL
                         then s\<lparr>st_events := es,
                                st_snapshots := so_save (dp_snapshots d)
                                  \<lparr>sn_streamId = streamId, sn_version = acc_version (fst a),
                                   sn_state = getSnapshotState a, sn_createdAt = None\<rparr> now (st_snapshots s)\<rparr>
                         else s\<lparr>st_events := es\<rparr>)))"

definition account_attempt ::
  "('es, 'ss) deps \<Rightarrow> string \<Rightarrow> (stamp \<Rightarrow> account \<Rightarrow> account result) \<Rightarrow> (('es, 'ss) stores, unit) prog" where
  "account_attempt d accountId operation s =
     (let st = dp_stamps d (st_tick s)
      in case bind_result (account_getById d accountId s) (operation st) of
           Inl e \<Rightarrow> (Inl e, meanwhile d s)
         | Inr account \<Rightarrow> account_save d accountId (st_now st) account (meanwhile d s))"

definition account_executeWithRetry ::
  "('es, 'ss) deps \<Rightarrow> string \<Rightarrow> (stamp \<Rightarrow> account \<Rightarrow> account result) \<Rightarrow> (('es, 'ss) stores, unit) prog" where
  "account_executeWithRetry d accountId operation =
     write_attempts MAX_WRITE_ATTEMPTS
       (''Concurrent modification detected for account '' @ accountId @ ''. All 3 write attempts failed.'')
       (account_attempt d accountId operation)"

text \<open>The four command handlers.\<close>

definition account_handler ::
  "('es, 'ss) deps \<Rightarrow> string \<Rightarrow> account_command \<Rightarrow> command_context \<Rightarrow> (('es, 'ss) stores, unit) prog" where
  "account_handler d accountId c context = account_executeWithRetry d accountId (account_operation c context)"

section \<open>Transfers\<close>

definition transfer_getById :: "('es, 'ss) deps \<Rightarrow> string \<Rightarrow> ('es, 'ss) stores \<Rightarrow> transfer result" where
  "transfer_getById d transferId s =
     loadFromHistory transfer_when (es_readStream (dp_events d) (transfer_stream transferId) 0 (st_events s)) new_transfer"

definition transfer_save :: "('es, 'ss) deps \<Rightarrow> string \<Rightarrow> transfer \<Rightarrow> (('es, 'ss) stores, unit) prog" where
  "transfer_save d transferId aggregate s =
     (let (events, a) = pullUncommittedEvents aggregate
      in if events = [] then (Inr (), s)
         else (case es_append (dp_events d) (transfer_stream transferId) events
                      (tr_version (fst a) - int (length events)) (st_events s) of
                 (r, es) \<Rightarrow> (r, s\<lparr>st_events := es\<rparr>)))"

definition transfer_attempt ::
  "('es, 'ss) deps \<Rightarrow> string \<Rightarrow> (stamp \<Rightarrow> transfer \<Rightarrow> transfer result) \<Rightarrow> (('es, 'ss) stores, unit) prog" where
  "transfer_attempt d transferId operation s =
     (case bind_result (transfer_getById d transferId s) (operation (dp_stamps d (st_tick s))) of
        Inl e \<Rightarrow> (Inl e, meanwhile d s)
      | Inr t \<Rightarrow> transfer_save d transferId t (meanwhile d s))"

definition transfer_executeWithRetry ::
  "('es, 'ss) deps \<Rightarrow> string \<Rightarrow> (stamp \<Rightarrow> transfer \<Rightarrow> transfer result) \<Rightarrow> (('es, 'ss) stores, unit) prog" where
  "transfer_executeWithRetry d transferId operation =
     write_attempts MAX_WRITE_ATTEMPTS
       (''Concurrent modification detected for transfer '' @ transferId @ ''. All 3 write attempts failed.'')
       (transfer_attempt d transferId operation)"

text \<open>The transfer handlers; the one that initiates a transfer looks at the two accounts first.\<close>

definition InitiateTransferHandler ::
  "('es, 'ss) deps \<Rightarrow> string \<Rightarrow> string \<Rightarrow> string \<Rightarrow> money_input \<Rightarrow> string \<Rightarrow> command_context \<Rightarrow> (('es, 'ss) stores, unit) prog" where
  "InitiateTransferHandler d transferId sourceAccountId destinationAccountId amount currency context s =
     (case bind_result (account_getById d sourceAccountId s) (\<lambda>source.
           bind_result (account_getById d destinationAccountId s) (\<lambda>destination.
             if \<not> truthy (acc_accountId (fst source))
             then Inl (BadRequest (''Source account '' @ sourceAccountId @ '' not found''))
             else if \<not> truthy (acc_accountId (fst destination))
             then Inl (BadRequest (''Destination account '' @ destinationAccountId @ '' not found''))
             else if acc_currency (fst source) \<noteq> Some currency \<or> acc_currency (fst destination) \<noteq> Some currency
             then Inl (BadRequest ''Transfer currency must match both accounts'')
             else Inr ())) of
        Inl e \<Rightarrow> (Inl e, s)
      | Inr _ \<Rightarrow>
          transfer_executeWithRetry d transferId
            (transfer_operation (InitiateTransfer transferId sourceAccountId destinationAccountId amount currency) context) s)"

definition transfer_handler ::
  "('es, 'ss) deps \<Rightarrow> string \<Rightarrow> transfer_command \<Rightarrow> command_context \<Rightarrow> (('es, 'ss) stores, unit) prog" where
  "transfer_handler d transferId c context =
     (case c of
        InitiateTransfer t src dst amount currency \<Rightarrow> InitiateTransferHandler d t src dst amount currency context
      | _ \<Rightarrow> transfer_executeWithRetry d transferId (transfer_operation c context))"

lemma path_single: "step p l q \<Longrightarrow> path step p [l] q"
  using path_snoc [of step p "[]" p l q] path_Nil [of step p] by simp

section \<open>Retries\<close>

text \<open>\<open>t\<close> is the state after \<open>k\<close> attempts from \<open>s\<close> that all met a wrong expected version.\<close>

inductive conflicted :: "('s, unit) prog \<Rightarrow> nat \<Rightarrow> 's \<Rightarrow> 's \<Rightarrow> bool" for body where
  conflicted_0: "conflicted body 0 s s"
| conflicted_Suc: "conflicted body k s t \<Longrightarrow> body t = (Inl (WrongExpectedVersion sid e a), u) \<Longrightarrow> conflicted body (Suc k) s u"

inductive_cases conflicted_SucE: "conflicted body (Suc k) s u"

lemma conflicted_first:
  "conflicted body k t u \<Longrightarrow> body s = (Inl (WrongExpectedVersion sid e a), t) \<Longrightarrow> conflicted body (Suc k) s u"
  by (induction rule: conflicted.induct) (auto intro: conflicted.intros)

lemma write_attempts_outcome:
  assumes "write_attempts (Suc n) msg body s = (r, s')"
  shows "(\<exists>k \<le> n. \<exists>t. conflicted body k s t \<and> body t = (r, s') \<and> (\<forall>x e a. r \<noteq> Inl (WrongExpectedVersion x e a)))
    \<or> r = Inl (Conflict msg) \<and> conflicted body (Suc n) s s'"
  using assms
proof (induction n arbitrary: s)
  case 0
  then show ?case
    using conflicted_0 [of body s] conflicted_Suc [OF conflicted_0, of body s]
    by (auto split: prod.splits sum.splits js_error.splits)
next
  case (Suc n)
  show ?case
  proof (cases "\<exists>x e a t. body s = (Inl (WrongExpectedVersion x e a), t)")
    case True
    then obtain x e a t where t: "body s = (Inl (WrongExpectedVersion x e a), t)" by blast
    then have "write_attempts (Suc n) msg body t = (r, s')" using Suc.prems by simp
    from Suc.IH [OF this] show ?thesis
      using conflicted_first [where body = body, OF _ t] by (metis Suc_le_mono)
  next
    case False
    then have "body s = (r, s') \<and> (\<forall>x e a. r \<noteq> Inl (WrongExpectedVersion x e a))"
      using Suc.prems by (auto split: prod.splits sum.splits js_error.splits)
    then show ?thesis using conflicted_0 [of body s] by blast
  qed
qed

section \<open>Many instances at work\<close>

text \<open>
  Any number of requests, in any number of instances of the service, work on the same stores.  Each one
  loads an aggregate (an account in two reads), runs commands on it and saves it; the steps of different
  requests interleave freely.  Nothing is assumed of the in-process locks.
\<close>

datatype work =
    AccountRestored string account
  | AccountWork string account
  | TransferWork string transfer

type_synonym ('es, 'ss) cluster = "('es, 'ss) stores \<times> (nat \<rightharpoonup> work)"

definition restore_latest :: "('es, 'ss) deps \<Rightarrow> string \<Rightarrow> ('es, 'ss) stores \<Rightarrow> account result" where
  "restore_latest d accountId s =
     (case so_getLatest (dp_snapshots d) (account_stream accountId) (st_snapshots s) of
        None \<Rightarrow> Inr new_account
      | Some x \<Rightarrow> restoreSnapshot (sn_state x) (sn_version x) new_account)"

inductive cluster_step :: "('es, 'ss) deps \<Rightarrow> ('es, 'ss) cluster \<Rightarrow> nat \<Rightarrow> ('es, 'ss) cluster \<Rightarrow> bool" for d where
  cl_restore: "restore_latest d accountId s = Inr a \<Longrightarrow> cluster_step d (s, w) i (s, w(i \<mapsto> AccountRestored accountId a))"
| cl_read_tail: "w i = Some (AccountRestored accountId a) \<Longrightarrow>
    loadFromHistory account_when (es_readStream (dp_events d) (account_stream accountId) (acc_version (fst a)) (st_events s)) a = Inr a' \<Longrightarrow>
    cluster_step d (s, w) i (s, w(i \<mapsto> AccountWork accountId a'))"
| cl_account_command: "w i = Some (AccountWork accountId a) \<Longrightarrow> account_operation c context st a = Inr a' \<Longrightarrow>
    cluster_step d (s, w) i (s, w(i \<mapsto> AccountWork accountId a'))"
| cl_account_save: "w i = Some (AccountWork accountId a) \<Longrightarrow> account_save d accountId now a s = (r, s') \<Longrightarrow>
    cluster_step d (s, w) i (s', w(i := None))"
| cl_transfer_load: "transfer_getById d transferId s = Inr a \<Longrightarrow>
    cluster_step d (s, w) i (s, w(i \<mapsto> TransferWork transferId a))"
| cl_transfer_command: "w i = Some (TransferWork transferId a) \<Longrightarrow> transfer_operation c' context st a = Inr a' \<Longrightarrow>
    cluster_step d (s, w) i (s, w(i \<mapsto> TransferWork transferId a'))"
| cl_transfer_save: "w i = Some (TransferWork transferId a) \<Longrightarrow> transfer_save d transferId a s = (r, s') \<Longrightarrow>
    cluster_step d (s, w) i (s', w(i := None))"
| cl_abandon: "cluster_step d (s, w) i (s, w(i := None))"

section \<open>Sound stores\<close>

text \<open>What an account's history amounts to, and what a snapshot of it must say.\<close>

definition account_history :: "domain_event list \<Rightarrow> account_state \<Rightarrow> bool" where
  "account_history h s \<longleftrightarrow> loadFromHistory account_when h new_account = Inr (s, []) \<and> numbered 0 h \<and> 0 \<le> acc_balance s"

definition transfer_history :: "domain_event list \<Rightarrow> transfer_state \<Rightarrow> bool" where
  "transfer_history h s \<longleftrightarrow> loadFromHistory transfer_when h new_transfer = Inr (s, []) \<and> numbered 0 h"

lemma account_history_version: "account_history h s \<Longrightarrow> acc_version s = int (length h)"
  using acct.load_numbered_version [of h new_account_state "[]" s "[]"]
  by (simp add: account_history_def new_account_def) (simp add: new_account_state_def)

lemma transfer_history_version: "transfer_history h s \<Longrightarrow> tr_version s = int (length h)"
  using trf.load_numbered_version [of h new_transfer_state "[]" s "[]"]
  by (simp add: transfer_history_def new_transfer_def) (simp add: new_transfer_state_def)

text \<open>An object loaded from history \<open>h\<close> on which commands have raised \<open>us\<close>.\<close>

definition account_ahead :: "domain_event list \<Rightarrow> account \<Rightarrow> bool" where
  "account_ahead h a \<longleftrightarrow> (\<exists>s0. account_history h s0 \<and> loadFromHistory account_when (snd a) (s0, []) = Inr (fst a, [])
     \<and> numbered (int (length h)) (snd a) \<and> 0 \<le> acc_balance (fst a))"

definition transfer_ahead :: "domain_event list \<Rightarrow> transfer \<Rightarrow> bool" where
  "transfer_ahead h a \<longleftrightarrow> (\<exists>s0. transfer_history h s0 \<and> loadFromHistory transfer_when (snd a) (s0, []) = Inr (fst a, [])
     \<and> numbered (int (length h)) (snd a))"

lemma account_ahead_command:
  assumes "account_ahead h a" "account_operation c context st a = Inr a'"
  shows "account_ahead h a'"
proof -
  obtain s us s' us' where a: "a = (s, us)" "a' = (s', us')" by (cases a; cases a')
  obtain s0 where s0: "account_history h s0" "loadFromHistory account_when us (s0, []) = Inr (s, [])"
      "numbered (int (length h)) us" "0 \<le> acc_balance s"
    using assms(1) by (auto simp: account_ahead_def a)
  have v: "acc_version s0 = int (length h)" using account_history_version [OF s0(1)] .
  from acct_cmd.cmd_replay_step [OF assms(2) [unfolded a] s0(2)] account_inv_step [OF s0(4) assms(2) [unfolded a]] s0(1,3) v
  show ?thesis by (auto simp: account_ahead_def a)
qed

lemma transfer_ahead_command:
  assumes "transfer_ahead h a" "transfer_operation c context st a = Inr a'"
  shows "transfer_ahead h a'"
proof -
  obtain s us s' us' where a: "a = (s, us)" "a' = (s', us')" by (cases a; cases a')
  obtain s0 where s0: "transfer_history h s0" "loadFromHistory transfer_when us (s0, []) = Inr (s, [])"
      "numbered (int (length h)) us"
    using assms(1) by (auto simp: transfer_ahead_def a)
  have v: "tr_version s0 = int (length h)" using transfer_history_version [OF s0(1)] .
  from trf_cmd.cmd_replay_step [OF assms(2) [unfolded a] s0(2)] s0(1,3) v
  show ?thesis by (auto simp: transfer_ahead_def a)
qed

lemma account_ahead_version: "account_ahead h a \<Longrightarrow> acc_version (fst a) = int (length h) + int (length (snd a))"
  using acct.load_numbered_version account_history_version unfolding account_ahead_def by metis

lemma transfer_ahead_version: "transfer_ahead h a \<Longrightarrow> tr_version (fst a) = int (length h) + int (length (snd a))"
  using trf.load_numbered_version transfer_history_version unfolding transfer_ahead_def by metis

text \<open>Committing what was raised, as the store writes it, gives a history of the new state.\<close>

lemma account_commit:
  assumes "account_ahead h a" "list_all2 same_core (snd a) es" "numbered (int (length h)) es"
  shows "account_history (h @ es) (fst a)"
proof -
  obtain s0 where s0: "account_history h s0" "loadFromHistory account_when (snd a) (s0, []) = Inr (fst a, [])"
      "0 \<le> acc_balance (fst a)"
    using assms(1) by (auto simp: account_ahead_def)
  then show ?thesis using assms(3) acct.load_core [OF assms(2)]
    by (simp add: account_history_def acct.load_append numbered_append)
qed

lemma transfer_commit:
  assumes "transfer_ahead h a" "list_all2 same_core (snd a) es" "numbered (int (length h)) es"
  shows "transfer_history (h @ es) (fst a)"
proof -
  obtain s0 where s0: "transfer_history h s0" "loadFromHistory transfer_when (snd a) (s0, []) = Inr (fst a, [])"
    using assms(1) by (auto simp: transfer_ahead_def)
  then show ?thesis using assms(3) trf.load_core [OF assms(2)]
    by (simp add: transfer_history_def trf.load_append numbered_append)
qed

lemma account_ahead_fresh: "account_history h s \<Longrightarrow> account_ahead h (s, [])"
  by (auto simp: account_ahead_def account_history_def)

lemma transfer_ahead_fresh: "transfer_history h s \<Longrightarrow> transfer_ahead h (s, [])"
  by (auto simp: transfer_ahead_def)

lemma restore_history:
  assumes "account_history h s" "st = getSnapshotState (s, [])"
  shows "restoreSnapshot st (int (length h)) new_account = Inr (s, [])"
  using account_history_version [OF assms(1)]
  by (simp add: assms(2) restoreSnapshot_def getSnapshotState_def show_int_BigInt new_account_def)

locale shared_stores =
    ev: event_store eops einv stream journal restamp fresh
  + sn: snapshot_store sops sinv latest
  for eops :: "'es event_store_ops" and einv stream journal restamp fresh
    and sops :: "'ss snapshot_ops" and sinv latest
begin

definition sound :: "'es \<Rightarrow> 'ss \<Rightarrow> bool" where
  "sound es ss \<longleftrightarrow> einv es \<and> sinv ss
     \<and> (\<forall>i. \<exists>s. account_history (stream es (account_stream i)) s)
     \<and> (\<forall>i. \<exists>s. transfer_history (stream es (transfer_stream i)) s)
     \<and> (\<forall>i v st. latest ss (account_stream i) = Some (v, st) \<longrightarrow>
          (\<exists>n s. v = int n \<and> n \<le> length (stream es (account_stream i))
             \<and> account_history (take n (stream es (account_stream i))) s \<and> st = getSnapshotState (s, [])))"

lemma soundD:
  assumes "sound es ss"
  shows "einv es" "sinv ss" "\<exists>s. account_history (stream es (account_stream i)) s"
    "\<exists>s. transfer_history (stream es (transfer_stream i)) s"
    "latest ss (account_stream i) = Some (v, st) \<Longrightarrow> \<exists>n s. v = int n \<and> n \<le> length (stream es (account_stream i))
       \<and> account_history (take n (stream es (account_stream i))) s \<and> st = getSnapshotState (s, [])"
  using assms unfolding sound_def by blast+

lemma sound_extend:
  assumes "sound es ss" "einv es'" "\<And>sid. \<exists>l. stream es' sid = stream es sid @ l"
    and "\<And>i. \<exists>s. account_history (stream es' (account_stream i)) s"
    and "\<And>i. \<exists>s. transfer_history (stream es' (transfer_stream i)) s"
  shows "sound es' ss"
  unfolding sound_def
proof (intro conjI allI impI)
  fix i v st assume "latest ss (account_stream i) = Some (v, st)"
  then obtain n s where n: "v = int n" "n \<le> length (stream es (account_stream i))"
      "account_history (take n (stream es (account_stream i))) s" "st = getSnapshotState (s, [])"
    using soundD(5) [OF assms(1)] by blast
  obtain l where "stream es' (account_stream i) = stream es (account_stream i) @ l" using assms(3) by blast
  then show "\<exists>n s. v = int n \<and> n \<le> length (stream es' (account_stream i))
       \<and> account_history (take n (stream es' (account_stream i))) s \<and> st = getSnapshotState (s, [])"
    using n by auto
qed (use assms soundD [OF assms(1)] in auto)

fun work_ok :: "'es \<Rightarrow> work \<Rightarrow> bool" where
  "work_ok es (AccountRestored i a) \<longleftrightarrow>
     (\<exists>n s. n \<le> length (stream es (account_stream i)) \<and> a = (s, []) \<and> account_history (take n (stream es (account_stream i))) s)"
| "work_ok es (AccountWork i a) \<longleftrightarrow>
     (\<exists>n. n \<le> length (stream es (account_stream i)) \<and> account_ahead (take n (stream es (account_stream i))) a)"
| "work_ok es (TransferWork i a) \<longleftrightarrow>
     (\<exists>n. n \<le> length (stream es (transfer_stream i)) \<and> transfer_ahead (take n (stream es (transfer_stream i))) a)"

lemma work_ok_extends:
  assumes "work_ok es w" "\<And>sid. \<exists>l. stream es' sid = stream es sid @ l"
  shows "work_ok es' w"
proof -
  have ext: "take n (stream es' sid) = take n (stream es sid) \<and> n \<le> length (stream es' sid)"
    if "n \<le> length (stream es sid)" for n sid
    using assms(2) [of sid] that by auto
  show ?thesis using assms(1) ext by (cases w) fastforce+
qed

lemma tail_load:
  assumes "einv es" "n \<le> length (stream es (account_stream i))" "account_history (take n (stream es (account_stream i))) s"
    and "account_history (stream es (account_stream i)) s'"
  shows "loadFromHistory account_when (es_readStream eops (account_stream i) (acc_version s) es) (s, []) = Inr (s', [])"
proof -
  let ?h = "stream es (account_stream i)"
  have v: "acc_version s = int n" using account_history_version [OF assms(3)] assms(2) by simp
  have "loadFromHistory account_when (take n ?h @ drop n ?h) new_account = Inr (s', [])"
    using assms(4) by (simp add: account_history_def)
  then have "loadFromHistory account_when (drop n ?h) (s, []) = Inr (s', [])"
    unfolding acct.load_append using assms(3) by (simp add: account_history_def)
  then show ?thesis using ev.read_tail [OF assms(1), of "acc_version s"] v by simp
qed

lemma restore_ok:
  assumes "sound (st_events st) (st_snapshots st)" "dp_snapshots d = sops"
  shows "\<exists>s n. restore_latest d i st = Inr (s, []) \<and> n \<le> length (stream (st_events st) (account_stream i))
    \<and> account_history (take n (stream (st_events st) (account_stream i))) s
    \<and> acc_version s = (case so_getLatest sops (account_stream i) (st_snapshots st) of None \<Rightarrow> 0 | Some x \<Rightarrow> sn_version x)"
proof -
  have sinv: "sinv (st_snapshots st)" using assms(1) by (simp add: sound_def)
  note get = sn.get_latest [OF sinv, of "account_stream i"]
  show ?thesis
  proof (cases "so_getLatest sops (account_stream i) (st_snapshots st)")
    case None
    have "account_history [] new_account_state"
      by (simp add: account_history_def new_account_def) (simp add: new_account_state_def)
    then show ?thesis using None
      by (intro exI [of _ new_account_state] exI [of _ 0])
        (simp add: restore_latest_def assms(2) new_account_def, simp add: new_account_state_def)
  next
    case (Some x)
    then have "latest (st_snapshots st) (account_stream i) = Some (sn_version x, sn_state x)" using get by simp
    then obtain n s where n: "sn_version x = int n" "n \<le> length (stream (st_events st) (account_stream i))"
        "account_history (take n (stream (st_events st) (account_stream i))) s" "sn_state x = getSnapshotState (s, [])"
      using assms(1) unfolding sound_def by blast
    moreover have "restoreSnapshot (sn_state x) (sn_version x) new_account = Inr (s, [])"
      using restore_history [OF n(3,4)] n(1,2) by simp
    moreover have "acc_version s = int n" using account_history_version [OF n(3)] n(2) by simp
    ultimately show ?thesis using Some
      by (intro exI [of _ s] exI [of _ n]) (simp add: restore_latest_def assms(2))
  qed
qed

text \<open>Loading through a snapshot is replaying the whole stream.\<close>

lemma getById_replays:
  assumes "sound (st_events st) (st_snapshots st)" "dp_events d = eops" "dp_snapshots d = sops"
  shows "\<exists>s. account_getById d i st = Inr (s, []) \<and> account_history (stream (st_events st) (account_stream i)) s"
proof -
  obtain s' where s': "account_history (stream (st_events st) (account_stream i)) s'" using soundD(3) [OF assms(1)] by blast
  obtain s n where r: "restore_latest d i st = Inr (s, [])" "n \<le> length (stream (st_events st) (account_stream i))"
      "account_history (take n (stream (st_events st) (account_stream i))) s"
      "acc_version s = (case so_getLatest sops (account_stream i) (st_snapshots st) of None \<Rightarrow> 0 | Some x \<Rightarrow> sn_version x)"
    using restore_ok [OF assms(1,3)] by blast
  have "account_getById d i st = bind_result (restore_latest d i st)
      (loadFromHistory account_when (es_readStream eops (account_stream i) (acc_version s) (st_events st)))"
    by (simp add: account_getById_def restore_latest_def Let_def assms(2,3) r(4))
  then have "account_getById d i st = Inr (s', [])"
    using tail_load [OF _ r(2,3) s'] assms(1) r(1) by (simp add: sound_def)
  then show ?thesis using s' by blast
qed

lemma transfer_getById_replays:
  assumes "sound (st_events st) (st_snapshots st)" "dp_events d = eops"
  shows "\<exists>s. transfer_getById d i st = Inr (s, []) \<and> transfer_history (stream (st_events st) (transfer_stream i)) s"
  using assms ev.read_whole [of "st_events st"] by (auto simp: sound_def transfer_getById_def transfer_history_def)

text \<open>What saving an account does, in the three cases an append has.\<close>

lemma account_save_outcome:
  assumes sound: "sound (st_events st) (st_snapshots st)" and d: "dp_events d = eops" "dp_snapshots d = sops"
    and n: "n \<le> length (stream (st_events st) (account_stream i))"
    and ahead: "account_ahead (take n (stream (st_events st) (account_stream i))) a"
    and save: "account_save d i now a st = (r, st')"
  shows "sound (st_events st') (st_snapshots st') \<and> st_tick st' = st_tick st
     \<and> (case r of
          Inr _ \<Rightarrow> (snd a \<noteq> [] \<longrightarrow> n = length (stream (st_events st) (account_stream i)))
            \<and> (\<exists>es. list_all2 same_core (snd a) es \<and> stream (st_events st') =
                 (stream (st_events st))(account_stream i := stream (st_events st) (account_stream i) @ es))
        | Inl e \<Rightarrow> stream (st_events st') = stream (st_events st)
            \<and> (e = WrongExpectedVersion (account_stream i) (int n) (int (length (stream (st_events st) (account_stream i))))
                 \<and> n < length (stream (st_events st) (account_stream i)) \<and> st' = st
               \<or> e = duplicate_key \<and> \<not> fresh (st_events st) (snd a)
                 \<and> n = length (stream (st_events st) (account_stream i))))"
proof -
  let ?sid = "account_stream i"
  let ?h = "stream (st_events st) ?sid"
  have einv: "einv (st_events st)" and sinv: "sinv (st_snapshots st)" using sound by (simp_all add: sound_def)
  obtain s us where a: "a = (s, us)" by (cases a)
  show ?thesis
  proof (cases "us = []")
    case True
    then have "r = Inr () \<and> st' = st" using save by (simp add: account_save_def a pullUncommittedEvents_def)
    then show ?thesis using sound True by (auto simp: a)
  next
    case us: False
    have v: "acc_version s - int (length us) = int n"
      using account_ahead_version [OF ahead] n by (simp add: a)
    show ?thesis
    proof (cases "n = length ?h")
      case False
      then have ap: "es_append eops ?sid us (int n) (st_events st)
          = (Inl (WrongExpectedVersion ?sid (int n) (int (length ?h))), st_events st)"
        using ev.append_conflict [OF einv, of "int n" ?sid us] n by simp
      then have "r = Inl (WrongExpectedVersion ?sid (int n) (int (length ?h))) \<and> st' = st"
        using save us by (auto simp: account_save_def a pullUncommittedEvents_def v d Let_def)
      then show ?thesis using sound False n by simp
    next
      case eq: True
      show ?thesis
      proof (cases "fresh (st_events st) us")
        case False
        then obtain es where ap: "es_append eops ?sid us (int n) (st_events st) = (Inl duplicate_key, es)" "einv es"
            "stream es = stream (st_events st)" "journal es = journal (st_events st)"
          using ev.append_refused [OF einv, of "int n" ?sid us] eq by auto
        then have "r = Inl duplicate_key \<and> st' = st\<lparr>st_events := es\<rparr>"
          using save us by (auto simp: account_save_def a pullUncommittedEvents_def v d Let_def)
        then show ?thesis using sound ap(2,3) False eq by (auto simp: sound_def a)
      next
        case True
        let ?new = "number_from (restamp ?sid) (int n) us"
        obtain es ps where ap: "es_append eops ?sid us (int n) (st_events st) = (Inr (), es)" "einv es"
            "stream es = (stream (st_events st))(?sid := ?h @ ?new)"
          using ev.append_ok [OF einv, of "int n" ?sid us] eq True by auto
        have num: "numbered (int (length ?h)) us" using ahead n eq by (auto simp: account_ahead_def a)
        have core: "list_all2 same_core us ?new" using ev.number_from_core num eq by simp
        have hist: "account_history (?h @ ?new) s"
          using account_commit [OF ahead [unfolded a], of ?new] core ev.numbered_number_from [of "int n" ?sid us] eq by simp
        have vs: "acc_version s = int (length (?h @ ?new))" using account_history_version [OF hist] .
        have sound_es: "sound es (st_snapshots st)"
          by (rule sound_extend [OF sound ap(2)]) (use ap(3) hist soundD(3,4) [OF sound] in auto)
        have st': "r = Inr () \<and> st_events st' = es \<and> st_tick st' = st_tick st \<and>
            (st_snapshots st' = st_snapshots st \<or> st_snapshots st' =
               so_save sops \<lparr>sn_streamId = ?sid, sn_version = acc_version s, sn_state = getSnapshotState (s, []),
                  sn_createdAt = None\<rparr> now (st_snapshots st))"
          using save us ap(1) v by (auto simp: account_save_def a pullUncommittedEvents_def d Let_def split: if_splits)
        have "sound es (so_save sops \<lparr>sn_streamId = ?sid, sn_version = acc_version s, sn_state = getSnapshotState (s, []),
                  sn_createdAt = None\<rparr> now (st_snapshots st))" (is "sound es ?ss")
        proof -
          have "sinv ?ss" using sn.save_latest [OF sinv] by blast
          moreover have "\<exists>m x. w = int m \<and> m \<le> length (stream es (account_stream j))
             \<and> account_history (take m (stream es (account_stream j))) x \<and> snap = getSnapshotState (x, [])"
            if "latest ?ss (account_stream j) = Some (w, snap)" for j w snap
            using sn.latest_after_save [OF sinv that]
          proof
            assume "latest (st_snapshots st) (account_stream j) = Some (w, snap)"
            then show ?thesis using sound_es unfolding sound_def by blast
          next
            assume "account_stream j = sn_streamId \<lparr>sn_streamId = ?sid, sn_version = acc_version s,
                sn_state = getSnapshotState (s, []), sn_createdAt = None\<rparr> \<and>
              w = sn_version \<lparr>sn_streamId = ?sid, sn_version = acc_version s,
                sn_state = getSnapshotState (s, []), sn_createdAt = None\<rparr> \<and>
              snap = sn_state \<lparr>sn_streamId = ?sid, sn_version = acc_version s,
                sn_state = getSnapshotState (s, []), sn_createdAt = None\<rparr>"
            then show ?thesis using vs hist ap(3)
              by (intro exI [of _ "length (?h @ ?new)"] exI [of _ s]) simp
          qed
          ultimately show ?thesis using sound_es by (simp add: sound_def)
        qed
        then show ?thesis using st' sound_es core ap(3) eq by (auto simp: a)
      qed
    qed
  qed
qed

lemma transfer_save_outcome:
  assumes sound: "sound (st_events st) (st_snapshots st)" and d: "dp_events d = eops"
    and n: "n \<le> length (stream (st_events st) (transfer_stream i))"
    and ahead: "transfer_ahead (take n (stream (st_events st) (transfer_stream i))) a"
    and save: "transfer_save d i a st = (r, st')"
  shows "sound (st_events st') (st_snapshots st') \<and> st_tick st' = st_tick st \<and> st_snapshots st' = st_snapshots st
     \<and> (case r of
          Inr _ \<Rightarrow> (snd a \<noteq> [] \<longrightarrow> n = length (stream (st_events st) (transfer_stream i)))
            \<and> (\<exists>es. list_all2 same_core (snd a) es \<and> stream (st_events st') =
                 (stream (st_events st))(transfer_stream i := stream (st_events st) (transfer_stream i) @ es))
        | Inl e \<Rightarrow> stream (st_events st') = stream (st_events st)
            \<and> (e = WrongExpectedVersion (transfer_stream i) (int n) (int (length (stream (st_events st) (transfer_stream i))))
                 \<and> n < length (stream (st_events st) (transfer_stream i)) \<and> st' = st
               \<or> e = duplicate_key \<and> \<not> fresh (st_events st) (snd a)
                 \<and> n = length (stream (st_events st) (transfer_stream i))))"
proof -
  let ?sid = "transfer_stream i"
  let ?h = "stream (st_events st) ?sid"
  have einv: "einv (st_events st)" using sound by (simp add: sound_def)
  obtain s us where a: "a = (s, us)" by (cases a)
  show ?thesis
  proof (cases "us = []")
    case True
    then have "r = Inr () \<and> st' = st" using save by (simp add: transfer_save_def a pullUncommittedEvents_def)
    then show ?thesis using sound True by (auto simp: a)
  next
    case us: False
    have v: "tr_version s - int (length us) = int n"
      using transfer_ahead_version [OF ahead] n by (simp add: a)
    show ?thesis
    proof (cases "n = length ?h")
      case False
      then have ap: "es_append eops ?sid us (int n) (st_events st)
          = (Inl (WrongExpectedVersion ?sid (int n) (int (length ?h))), st_events st)"
        using ev.append_conflict [OF einv, of "int n" ?sid us] n by simp
      then have "r = Inl (WrongExpectedVersion ?sid (int n) (int (length ?h))) \<and> st' = st"
        using save us by (auto simp: transfer_save_def a pullUncommittedEvents_def v d)
      then show ?thesis using sound False n by simp
    next
      case eq: True
      show ?thesis
      proof (cases "fresh (st_events st) us")
        case False
        then obtain es where ap: "es_append eops ?sid us (int n) (st_events st) = (Inl duplicate_key, es)" "einv es"
            "stream es = stream (st_events st)" "journal es = journal (st_events st)"
          using ev.append_refused [OF einv, of "int n" ?sid us] eq by auto
        then have "r = Inl duplicate_key \<and> st' = st\<lparr>st_events := es\<rparr>"
          using save us by (auto simp: transfer_save_def a pullUncommittedEvents_def v d)
        then show ?thesis using sound ap(2,3) False eq by (auto simp: sound_def a)
      next
        case True
        let ?new = "number_from (restamp ?sid) (int n) us"
        obtain es ps where ap: "es_append eops ?sid us (int n) (st_events st) = (Inr (), es)" "einv es"
            "stream es = (stream (st_events st))(?sid := ?h @ ?new)"
          using ev.append_ok [OF einv, of "int n" ?sid us] eq True by auto
        have num: "numbered (int (length ?h)) us" using ahead n eq by (auto simp: transfer_ahead_def a)
        have core: "list_all2 same_core us ?new" using ev.number_from_core num eq by simp
        have hist: "transfer_history (?h @ ?new) s"
          using transfer_commit [OF ahead [unfolded a], of ?new] core ev.numbered_number_from [of "int n" ?sid us] eq by simp
        have "sound es (st_snapshots st)"
          by (rule sound_extend [OF sound ap(2)]) (use ap(3) hist soundD(3,4) [OF sound] in auto)
        moreover have "r = Inr () \<and> st' = st\<lparr>st_events := es\<rparr>"
          using save us ap(1) v by (auto simp: transfer_save_def a pullUncommittedEvents_def d)
        ultimately show ?thesis using core ap(3) eq by (auto simp: a)
      qed
    qed
  qed
qed

text \<open>Every step of every request keeps the stores sound, and no stream ever loses an event.\<close>

definition cluster_ok :: "('es, 'ss) cluster \<Rightarrow> bool" where
  "cluster_ok c \<longleftrightarrow> sound (st_events (fst c)) (st_snapshots (fst c)) \<and> (\<forall>i w. snd c i = Some w \<longrightarrow> work_ok (st_events (fst c)) w)"

lemma cluster_okD:
  assumes "cluster_ok (s, w)"
  shows "sound (st_events s) (st_snapshots s)" "w i = Some x \<Longrightarrow> work_ok (st_events s) x"
  using assms unfolding cluster_ok_def by simp_all

lemma cluster_ok_same_stores:
  assumes "cluster_ok (s, w)" "work_ok (st_events s) x"
  shows "cluster_ok (s, w(i \<mapsto> x))"
  using assms by (auto simp: cluster_ok_def)

lemma cluster_ok_after_save:
  assumes "cluster_ok (s, w)" "sound (st_events s') (st_snapshots s')"
    and "\<And>sid. \<exists>l. stream (st_events s') sid = stream (st_events s) sid @ l"
  shows "cluster_ok (s', w(i := None))"
  using assms work_ok_extends [OF _ assms(3)] by (auto simp: cluster_ok_def)

lemma cluster_step_ok:
  assumes "cluster_step d c i c'" "cluster_ok c" "dp_events d = eops" "dp_snapshots d = sops"
  shows "cluster_ok c' \<and> (\<forall>sid. \<exists>l. stream (st_events (fst c')) sid = stream (st_events (fst c)) sid @ l)"
  using assms
proof cases
  case (cl_restore accountId s a w)
  then have "sound (st_events s) (st_snapshots s)" using assms(2) by (simp add: cluster_ok_def)
  from restore_ok [OF this assms(4), of accountId] cl_restore(3)
  have "work_ok (st_events s) (AccountRestored accountId a)" by auto
  then show ?thesis using cl_restore assms(2) cluster_ok_same_stores by auto
next
  case (cl_read_tail w accountId a s a')
  have sound: "sound (st_events s) (st_snapshots s)" and wk: "work_ok (st_events s) (AccountRestored accountId a)"
    using cluster_okD [OF assms(2) [unfolded cl_read_tail(1)]] cl_read_tail(3) by blast+
  obtain n x where x: "n \<le> length (stream (st_events s) (account_stream accountId))" "a = (x, [])"
      "account_history (take n (stream (st_events s) (account_stream accountId))) x"
    using wk by auto
  obtain y where y: "account_history (stream (st_events s) (account_stream accountId)) y" using soundD(3) [OF sound] by blast
  have "a' = (y, [])" using tail_load [OF soundD(1) [OF sound] x(1,3) y] cl_read_tail(4) assms(3) x(2) by simp
  then have "work_ok (st_events s) (AccountWork accountId a')"
    using account_ahead_fresh [OF y] by (auto intro!: exI [of _ "length (stream (st_events s) (account_stream accountId))"])
  then show ?thesis using cl_read_tail assms(2) cluster_ok_same_stores by auto
next
  case (cl_account_command w accountId a ac ctx t a' s)
  then have "work_ok (st_events s) (AccountWork accountId a)" using cluster_okD [OF assms(2) [unfolded cl_account_command(1)]] cl_account_command(3) by blast
  then have "work_ok (st_events s) (AccountWork accountId a')"
    using account_ahead_command [OF _ cl_account_command(4)] by auto
  then show ?thesis using cl_account_command assms(2) cluster_ok_same_stores by auto
next
  case (cl_account_save w accountId a now s r s')
  have sound: "sound (st_events s) (st_snapshots s)" and wk: "work_ok (st_events s) (AccountWork accountId a)"
    using cluster_okD [OF assms(2) [unfolded cl_account_save(1)]] cl_account_save(3) by blast+
  then obtain n where n: "n \<le> length (stream (st_events s) (account_stream accountId))"
      "account_ahead (take n (stream (st_events s) (account_stream accountId))) a" by auto
  from account_save_outcome [OF sound assms(3,4) n cl_account_save(4)]
  have out: "sound (st_events s') (st_snapshots s')" "\<exists>l. stream (st_events s') sid = stream (st_events s) sid @ l" for sid
    by (auto split: sum.splits)
  then show ?thesis using cl_account_save assms(2) cluster_ok_after_save [OF _ out] by auto
next
  case (cl_transfer_load transferId s a w)
  then have sound: "sound (st_events s) (st_snapshots s)" using assms(2) by (simp add: cluster_ok_def)
  obtain y where y: "transfer_getById d transferId s = Inr (y, [])"
      "transfer_history (stream (st_events s) (transfer_stream transferId)) y"
    using transfer_getById_replays [OF sound assms(3)] by blast
  then have "work_ok (st_events s) (TransferWork transferId a)"
    using transfer_ahead_fresh [OF y(2)] cl_transfer_load(3)
    by (auto intro!: exI [of _ "length (stream (st_events s) (transfer_stream transferId))"])
  then show ?thesis using cl_transfer_load assms(2) cluster_ok_same_stores by auto
next
  case (cl_transfer_command w transferId a tc ctx t a' s)
  then have "work_ok (st_events s) (TransferWork transferId a)" using cluster_okD [OF assms(2) [unfolded cl_transfer_command(1)]] cl_transfer_command(3) by blast
  then have "work_ok (st_events s) (TransferWork transferId a')"
    using transfer_ahead_command [OF _ cl_transfer_command(4)] by auto
  then show ?thesis using cl_transfer_command assms(2) cluster_ok_same_stores by auto
next
  case (cl_transfer_save w transferId a s r s')
  have sound: "sound (st_events s) (st_snapshots s)" and wk: "work_ok (st_events s) (TransferWork transferId a)"
    using cluster_okD [OF assms(2) [unfolded cl_transfer_save(1)]] cl_transfer_save(3) by blast+
  then obtain n where n: "n \<le> length (stream (st_events s) (transfer_stream transferId))"
      "transfer_ahead (take n (stream (st_events s) (transfer_stream transferId))) a" by auto
  from transfer_save_outcome [OF sound assms(3) n cl_transfer_save(4)]
  have out: "sound (st_events s') (st_snapshots s')" "\<exists>l. stream (st_events s') sid = stream (st_events s) sid @ l" for sid
    by (auto split: sum.splits)
  then show ?thesis using cl_transfer_save assms(2) cluster_ok_after_save [OF _ out] by auto
next
  case (cl_abandon s w)
  then show ?thesis using assms(2) by (auto simp: cluster_ok_def)
qed

lemma cluster_path_ok:
  assumes "path (cluster_step d) c is c'" "cluster_ok c" "dp_events d = eops" "dp_snapshots d = sops"
  shows "cluster_ok c'"
  using path_invariant [of "cluster_step d" c "is" c' cluster_ok] assms cluster_step_ok by blast

lemma empty_sound:
  assumes "einv es" "sinv ss" "\<And>sid. stream es sid = []" "\<And>sid. latest ss sid = None"
  shows "sound es ss"
proof -
  have "account_history [] new_account_state" "transfer_history [] new_transfer_state"
    by (simp_all add: account_history_def transfer_history_def new_account_def new_transfer_def, simp add: new_account_state_def)
  then show ?thesis using assms by (auto simp: sound_def)
qed

end

section \<open>The outcome of a command\<close>

text \<open>The state after \<open>k\<close> turns of the other instances alone.\<close>

definition drift :: "('es, 'ss) deps \<Rightarrow> nat \<Rightarrow> ('es, 'ss) stores \<Rightarrow> ('es, 'ss) stores" where
  "drift d k s = (meanwhile d ^^ k) s"

lemma drift_simps [simp]: "drift d 0 s = s" "drift d (Suc k) s = meanwhile d (drift d k s)"
  by (simp_all add: drift_def)

text \<open>
  A command ran on the history of \<open>s\<close>, nobody wrote to its stream until \<open>sm\<close>, and \<open>s'\<close> has its one
  event behind that history and is otherwise \<open>sm\<close>.
\<close>

definition account_committed ::
  "('es \<Rightarrow> string \<Rightarrow> domain_event list) \<Rightarrow> ('es, 'ss) deps \<Rightarrow> string \<Rightarrow> account_command \<Rightarrow> command_context
     \<Rightarrow> ('es, 'ss) stores \<Rightarrow> ('es, 'ss) stores \<Rightarrow> ('es, 'ss) stores \<Rightarrow> bool" where
  "account_committed stream d i c context s sm s' \<longleftrightarrow> (\<exists>x x' e e'.
     account_history (stream (st_events s) (account_stream i)) x
     \<and> account_operation c context (dp_stamps d (st_tick s)) (x, []) = Inr (x', [e]) \<and> same_core e e'
     \<and> stream (st_events sm) (account_stream i) = stream (st_events s) (account_stream i)
     \<and> stream (st_events s') = (stream (st_events sm))(account_stream i := stream (st_events s) (account_stream i) @ [e']))"

definition transfer_committed ::
  "('es \<Rightarrow> string \<Rightarrow> domain_event list) \<Rightarrow> ('es, 'ss) deps \<Rightarrow> string \<Rightarrow> transfer_command \<Rightarrow> command_context
     \<Rightarrow> ('es, 'ss) stores \<Rightarrow> ('es, 'ss) stores \<Rightarrow> ('es, 'ss) stores \<Rightarrow> bool" where
  "transfer_committed stream d i c context s sm s' \<longleftrightarrow> (\<exists>x x' e e'.
     transfer_history (stream (st_events s) (transfer_stream i)) x
     \<and> transfer_operation c context (dp_stamps d (st_tick s)) (x, []) = Inr (x', [e]) \<and> same_core e e'
     \<and> stream (st_events sm) (transfer_stream i) = stream (st_events s) (transfer_stream i)
     \<and> stream (st_events s') = (stream (st_events sm))(transfer_stream i := stream (st_events s) (transfer_stream i) @ [e']))"

definition refusal :: "js_error \<Rightarrow> bool" where
  "refusal e \<longleftrightarrow> (\<exists>msg. e = BadRequest msg \<or> e = GenericError msg)"

lemma refusal_simps [simp]:
  "refusal (BadRequest m)" "refusal (GenericError m)" "\<not> refusal (Conflict m)" "\<not> refusal (WrongExpectedVersion x v a)"
  by (simp_all add: refusal_def)

lemma parse_refusal: "parseMoneyToMinorUnits x = Inl e \<Longrightarrow> refusal e"
  by (auto simp: parseMoneyToMinorUnits_def normalizeMoneyInput_def bind_result_def Let_def split: sum.splits if_splits)

lemma bind_result_Inl_iff: "bind_result r k = Inl e \<longleftrightarrow> r = Inl e \<or> (\<exists>x. r = Inr x \<and> k x = Inl e)"
  by (cases r) auto

lemma account_operation_refusal: "account_operation c context st (s, us) = Inl e \<Longrightarrow> refusal e"
  by (cases c)
    (auto simp: account_command_defs account_simps bind_result_Inl_iff parse_refusal split: if_splits)

lemma transfer_when_refusal: "transfer_when s e = Inl err \<Longrightarrow> refusal err"
  by (auto simp: transfer_when_def Let_def bind_result_Inl_iff parse_refusal split: event_data.splits)

lemma command_data_refusal: "command_data c s = Inl e \<Longrightarrow> refusal e"
  by (cases c) (auto simp: bind_result_Inl_iff parse_refusal split: if_splits)

lemma transfer_operation_refusal: "transfer_operation c context st (s, us) = Inl e \<Longrightarrow> refusal e"
  by (auto simp: transfer_operation_data transfer_raise_apply bind_result_Inl_iff
      dest: command_data_refusal transfer_when_refusal)

text \<open>The ways a transfer command fails without a conflict.\<close>

definition transfer_refusal :: "transfer_command \<Rightarrow> command_context \<Rightarrow> js_error \<Rightarrow> bool" where
  "transfer_refusal c context e \<longleftrightarrow> e = duplicate_key \<or> (\<exists>st x. transfer_operation c context st (x, []) = Inl e)"

lemma transfer_refusal_refusal: "transfer_refusal c context e \<Longrightarrow> refusal e"
  by (auto simp: transfer_refusal_def duplicate_key_def dest: transfer_operation_refusal)

context shared_stores
begin

text \<open>Other instances keep the stores sound and only add to the streams.\<close>

definition fair :: "('es, 'ss) deps \<Rightarrow> bool" where
  "fair d \<longleftrightarrow> dp_events d = eops \<and> dp_snapshots d = sops \<and>
     (\<forall>n es ss es' ss'. dp_others d n (es, ss) = (es', ss') \<longrightarrow> sound es ss \<longrightarrow>
        sound es' ss' \<and> (\<forall>sid. \<exists>l. stream es' sid = stream es sid @ l))"

lemma meanwhile_sound:
  assumes "fair d" "sound (st_events s) (st_snapshots s)"
  shows "sound (st_events (meanwhile d s)) (st_snapshots (meanwhile d s))
    \<and> (\<forall>sid. \<exists>l. stream (st_events (meanwhile d s)) sid = stream (st_events s) sid @ l)"
  using assms unfolding fair_def meanwhile_def by (auto split: prod.split)

lemma drift_sound:
  assumes "fair d" "sound (st_events s) (st_snapshots s)"
  shows "sound (st_events (drift d k s)) (st_snapshots (drift d k s))"
  by (induction k) (use assms meanwhile_sound in auto)

lemma account_attempt_outcome:
  assumes f: "fair d" and sound: "sound (st_events s) (st_snapshots s)"
    and at: "account_attempt d i (account_operation c context) s = (r, s')"
  shows "sound (st_events s') (st_snapshots s') \<and>
    ((\<exists>err. r = Inl err \<and> refusal err \<and> stream (st_events s') = stream (st_events (meanwhile d s)))
     \<or> (\<exists>x e a. r = Inl (WrongExpectedVersion x e a)) \<and> s' = meanwhile d s
        \<and> stream (st_events (meanwhile d s)) (account_stream i) \<noteq> stream (st_events s) (account_stream i)
     \<or> r = Inr () \<and> account_committed stream d i c context s (meanwhile d s) s')"
proof -
  let ?h = "stream (st_events s) (account_stream i)" and ?st = "dp_stamps d (st_tick s)"
  have d: "dp_events d = eops" "dp_snapshots d = sops" using f by (simp_all add: fair_def)
  obtain x where x: "account_getById d i s = Inr (x, [])" "account_history ?h x"
    using getById_replays [OF sound d] by blast
  note m = meanwhile_sound [OF f sound]
  obtain l where l: "stream (st_events (meanwhile d s)) (account_stream i) = ?h @ l" using m by blast
  show ?thesis
  proof (cases "account_operation c context ?st (x, [])")
    case (Inl err)
    then have "r = Inl err" "s' = meanwhile d s" using at x(1) by (simp_all add: account_attempt_def Let_def)
    then show ?thesis using m account_operation_refusal [OF Inl] by auto
  next
    case (Inr a)
    obtain x' us where a: "a = (x', us)" by (cases a)
    obtain e where us: "us = [e]" using acct_cmd.cmd_emits [OF Inr [unfolded a]] by auto
    have save: "account_save d i (st_now ?st) a (meanwhile d s) = (r, s')"
      using at x(1) Inr by (simp add: account_attempt_def Let_def)
    have "account_ahead ?h a" using account_ahead_command [OF account_ahead_fresh [OF x(2)] Inr] .
    then have ahead: "account_ahead (take (length ?h) (stream (st_events (meanwhile d s)) (account_stream i))) a"
      by (simp add: l)
    have n: "length ?h \<le> length (stream (st_events (meanwhile d s)) (account_stream i))" by (simp add: l)
    from account_save_outcome [OF _ d n ahead save] m
    have out: "sound (st_events s') (st_snapshots s')" "case r of
          Inr _ \<Rightarrow> (snd a \<noteq> [] \<longrightarrow> length ?h = length (stream (st_events (meanwhile d s)) (account_stream i)))
            \<and> (\<exists>es. list_all2 same_core (snd a) es \<and> stream (st_events s') =
                 (stream (st_events (meanwhile d s)))(account_stream i := stream (st_events (meanwhile d s)) (account_stream i) @ es))
        | Inl e \<Rightarrow> stream (st_events s') = stream (st_events (meanwhile d s))
            \<and> ((\<exists>v w. e = WrongExpectedVersion (account_stream i) v w) \<and> l \<noteq> [] \<and> s' = meanwhile d s
               \<or> e = duplicate_key)"
      by (auto split: sum.splits simp: l)
    show ?thesis
    proof (cases r)
      case (Inl e)
      then show ?thesis using out l by (auto simp: refusal_def duplicate_key_def)
    next
      case (Inr u)
      then obtain es where "l = []" "list_all2 same_core [e] es"
          "stream (st_events s') = (stream (st_events (meanwhile d s)))(account_stream i := ?h @ es)"
        using out(2) l by (auto simp: a us)
      moreover obtain e' where "es = [e']" "same_core e e'"
        using \<open>list_all2 same_core [e] es\<close> by (auto simp: list_all2_Cons1)
      ultimately show ?thesis using out(1) x(2) \<open>account_operation c context ?st (x, []) = Inr a\<close> Inr l
        by (auto simp: a us account_committed_def)
    qed
  qed
qed

lemma account_conflicted:
  assumes "conflicted (account_attempt d i (account_operation c context)) k s t" "fair d" "sound (st_events s) (st_snapshots s)"
  shows "t = drift d k s \<and> (\<forall>j < k. stream (st_events (drift d (Suc j) s)) (account_stream i) \<noteq> stream (st_events (drift d j s)) (account_stream i))"
  using assms
proof (induction rule: conflicted.induct)
  case (conflicted_0 s)
  then show ?case by simp
next
  case (conflicted_Suc k s t sid e a u)
  then have t: "t = drift d k s" by simp
  have "sound (st_events t) (st_snapshots t)" unfolding t using conflicted_Suc.prems by (rule drift_sound)
  from account_attempt_outcome [OF conflicted_Suc.prems(1) this conflicted_Suc.hyps(2)]
  have "u = meanwhile d t \<and> stream (st_events (meanwhile d t)) (account_stream i) \<noteq> stream (st_events t) (account_stream i)"
    by auto
  then show ?case using conflicted_Suc t by (auto simp: less_Suc_eq)
qed

text \<open>The outcome of an account command, whatever the other instances do in the meantime.\<close>

lemma account_handler_outcome:
  assumes f: "fair d" and sound: "sound (st_events s) (st_snapshots s)"
    and run: "account_handler d i c context s = (r, s')"
  shows "sound (st_events s') (st_snapshots s') \<and> (case r of
      Inr _ \<Rightarrow> (\<exists>k < 3. account_committed stream d i c context (drift d k s) (drift d (Suc k) s) s')
    | Inl err \<Rightarrow> (\<exists>k \<le> 3. stream (st_events s') = stream (st_events (drift d k s)))
        \<and> (refusal err \<or> (\<exists>msg. err = Conflict msg) \<and>
            (\<forall>j < 3. stream (st_events (drift d (Suc j) s)) (account_stream i) \<noteq> stream (st_events (drift d j s)) (account_stream i))))"
proof -
  let ?at = "account_attempt d i (account_operation c context)"
  from run have "(\<exists>k \<le> 2. \<exists>t. conflicted ?at k s t \<and> ?at t = (r, s') \<and> (\<forall>x e a. r \<noteq> Inl (WrongExpectedVersion x e a)))
    \<or> (\<exists>msg. r = Inl (Conflict msg)) \<and> conflicted ?at 3 s s'"
    using write_attempts_outcome [of 2 _ ?at s r s']
    by (auto simp: account_handler_def account_executeWithRetry_def MAX_WRITE_ATTEMPTS_def eval_nat_numeral)
  then show ?thesis
  proof
    assume "\<exists>k \<le> 2. \<exists>t. conflicted ?at k s t \<and> ?at t = (r, s') \<and> (\<forall>x e a. r \<noteq> Inl (WrongExpectedVersion x e a))"
    then obtain k t where k: "k \<le> 2" "conflicted ?at k s t" "?at t = (r, s')" "\<forall>x e a. r \<noteq> Inl (WrongExpectedVersion x e a)"
      by blast
    have t: "t = drift d k s" using account_conflicted [OF k(2) f sound] by simp
    have "sound (st_events t) (st_snapshots t)" unfolding t using f sound by (rule drift_sound)
    note out = account_attempt_outcome [OF f this k(3)]
    show ?thesis
    proof (cases r)
      case (Inl err)
      then have "sound (st_events s') (st_snapshots s')" "refusal err" "stream (st_events s') = stream (st_events (drift d (Suc k) s))"
        using out k(4) t by auto
      moreover have "Suc k \<le> 3" using k(1) by simp
      ultimately have "\<exists>k \<le> 3. stream (st_events s') = stream (st_events (drift d k s))" by blast
      then show ?thesis using Inl \<open>refusal err\<close> \<open>sound (st_events s') (st_snapshots s')\<close> by simp
    next
      case (Inr u)
      have "k < 3" using k(1) by simp
      with out Inr show ?thesis by (auto simp: t)
    qed
  next
    assume "(\<exists>msg. r = Inl (Conflict msg)) \<and> conflicted ?at 3 s s'"
    then obtain msg where r: "r = Inl (Conflict msg)" and c: "conflicted ?at 3 s s'" by blast
    from account_conflicted [OF c f sound] drift_sound [OF f sound, of 3] r
    show ?thesis by (auto simp del: drift_simps)
  qed
qed

lemma transfer_attempt_outcome:
  assumes f: "fair d" and sound: "sound (st_events s) (st_snapshots s)"
    and at: "transfer_attempt d i (transfer_operation c context) s = (r, s')"
  shows "sound (st_events s') (st_snapshots s') \<and>
    ((\<exists>err. r = Inl err \<and> transfer_refusal c context err \<and> stream (st_events s') = stream (st_events (meanwhile d s)))
     \<or> (\<exists>x e a. r = Inl (WrongExpectedVersion x e a)) \<and> s' = meanwhile d s
        \<and> stream (st_events (meanwhile d s)) (transfer_stream i) \<noteq> stream (st_events s) (transfer_stream i)
     \<or> r = Inr () \<and> transfer_committed stream d i c context s (meanwhile d s) s')"
proof -
  let ?h = "stream (st_events s) (transfer_stream i)" and ?st = "dp_stamps d (st_tick s)"
  have d: "dp_events d = eops" using f by (simp_all add: fair_def)
  obtain x where x: "transfer_getById d i s = Inr (x, [])" "transfer_history ?h x"
    using transfer_getById_replays [OF sound d] by blast
  note m = meanwhile_sound [OF f sound]
  obtain l where l: "stream (st_events (meanwhile d s)) (transfer_stream i) = ?h @ l" using m by blast
  show ?thesis
  proof (cases "transfer_operation c context ?st (x, [])")
    case (Inl err)
    then have "r = Inl err" "s' = meanwhile d s" using at x(1) by (simp_all add: transfer_attempt_def)
    then show ?thesis using m Inl by (auto simp: transfer_refusal_def)
  next
    case (Inr a)
    obtain x' us where a: "a = (x', us)" by (cases a)
    obtain e where us: "us = [e]" using trf_cmd.cmd_emits [OF Inr [unfolded a]] by auto
    have save: "transfer_save d i a (meanwhile d s) = (r, s')"
      using at x(1) Inr by (simp add: transfer_attempt_def Let_def)
    have "transfer_ahead ?h a" using transfer_ahead_command [OF transfer_ahead_fresh [OF x(2)] Inr] .
    then have ahead: "transfer_ahead (take (length ?h) (stream (st_events (meanwhile d s)) (transfer_stream i))) a"
      by (simp add: l)
    have n: "length ?h \<le> length (stream (st_events (meanwhile d s)) (transfer_stream i))" by (simp add: l)
    from transfer_save_outcome [OF _ d n ahead save] m
    have out: "sound (st_events s') (st_snapshots s')" "case r of
          Inr _ \<Rightarrow> (snd a \<noteq> [] \<longrightarrow> length ?h = length (stream (st_events (meanwhile d s)) (transfer_stream i)))
            \<and> (\<exists>es. list_all2 same_core (snd a) es \<and> stream (st_events s') =
                 (stream (st_events (meanwhile d s)))(transfer_stream i := stream (st_events (meanwhile d s)) (transfer_stream i) @ es))
        | Inl e \<Rightarrow> stream (st_events s') = stream (st_events (meanwhile d s))
            \<and> ((\<exists>v w. e = WrongExpectedVersion (transfer_stream i) v w) \<and> l \<noteq> [] \<and> s' = meanwhile d s
               \<or> e = duplicate_key)"
      by (auto split: sum.splits simp: l)
    show ?thesis
    proof (cases r)
      case (Inl e)
      then show ?thesis using out l by (auto simp: transfer_refusal_def)
    next
      case (Inr u)
      then obtain es where "l = []" "list_all2 same_core [e] es"
          "stream (st_events s') = (stream (st_events (meanwhile d s)))(transfer_stream i := ?h @ es)"
        using out(2) l by (auto simp: a us)
      moreover obtain e' where "es = [e']" "same_core e e'"
        using \<open>list_all2 same_core [e] es\<close> by (auto simp: list_all2_Cons1)
      ultimately show ?thesis using out(1) x(2) \<open>transfer_operation c context ?st (x, []) = Inr a\<close> Inr l
        by (auto simp: a us transfer_committed_def)
    qed
  qed
qed

lemma transfer_conflicted:
  assumes "conflicted (transfer_attempt d i (transfer_operation c context)) k s t" "fair d" "sound (st_events s) (st_snapshots s)"
  shows "t = drift d k s \<and> (\<forall>j < k. stream (st_events (drift d (Suc j) s)) (transfer_stream i) \<noteq> stream (st_events (drift d j s)) (transfer_stream i))"
  using assms
proof (induction rule: conflicted.induct)
  case (conflicted_0 s)
  then show ?case by simp
next
  case (conflicted_Suc k s t sid e a u)
  then have t: "t = drift d k s" by simp
  have "sound (st_events t) (st_snapshots t)" unfolding t using conflicted_Suc.prems by (rule drift_sound)
  from transfer_attempt_outcome [OF conflicted_Suc.prems(1) this conflicted_Suc.hyps(2)]
  have "u = meanwhile d t \<and> stream (st_events (meanwhile d t)) (transfer_stream i) \<noteq> stream (st_events t) (transfer_stream i)"
    by (auto dest!: transfer_refusal_refusal)
  then show ?case using conflicted_Suc t by (auto simp: less_Suc_eq)
qed

text \<open>The outcome of a transfer command, whatever the other instances do in the meantime.\<close>

lemma transfer_execute_outcome:
  assumes f: "fair d" and sound: "sound (st_events s) (st_snapshots s)"
    and run: "transfer_executeWithRetry d i (transfer_operation c context) s = (r, s')"
  shows "sound (st_events s') (st_snapshots s') \<and> (case r of
      Inr _ \<Rightarrow> (\<exists>k < 3. transfer_committed stream d i c context (drift d k s) (drift d (Suc k) s) s')
    | Inl err \<Rightarrow> (\<exists>k \<le> 3. stream (st_events s') = stream (st_events (drift d k s)))
        \<and> (transfer_refusal c context err \<or> (\<exists>msg. err = Conflict msg) \<and>
            (\<forall>j < 3. stream (st_events (drift d (Suc j) s)) (transfer_stream i) \<noteq> stream (st_events (drift d j s)) (transfer_stream i))))"
proof -
  let ?at = "transfer_attempt d i (transfer_operation c context)"
  from run have "(\<exists>k \<le> 2. \<exists>t. conflicted ?at k s t \<and> ?at t = (r, s') \<and> (\<forall>x e a. r \<noteq> Inl (WrongExpectedVersion x e a)))
    \<or> (\<exists>msg. r = Inl (Conflict msg)) \<and> conflicted ?at 3 s s'"
    using write_attempts_outcome [of 2 _ ?at s r s']
    by (auto simp: transfer_executeWithRetry_def MAX_WRITE_ATTEMPTS_def eval_nat_numeral)
  then show ?thesis
  proof
    assume "\<exists>k \<le> 2. \<exists>t. conflicted ?at k s t \<and> ?at t = (r, s') \<and> (\<forall>x e a. r \<noteq> Inl (WrongExpectedVersion x e a))"
    then obtain k t where k: "k \<le> 2" "conflicted ?at k s t" "?at t = (r, s')" "\<forall>x e a. r \<noteq> Inl (WrongExpectedVersion x e a)"
      by blast
    have t: "t = drift d k s" using transfer_conflicted [OF k(2) f sound] by simp
    have "sound (st_events t) (st_snapshots t)" unfolding t using f sound by (rule drift_sound)
    note out = transfer_attempt_outcome [OF f this k(3)]
    show ?thesis
    proof (cases r)
      case (Inl err)
      then have "sound (st_events s') (st_snapshots s')" "transfer_refusal c context err" "stream (st_events s') = stream (st_events (drift d (Suc k) s))"
        using out k(4) t by auto
      moreover have "Suc k \<le> 3" using k(1) by simp
      ultimately have "\<exists>k \<le> 3. stream (st_events s') = stream (st_events (drift d k s))" by blast
      then show ?thesis using Inl \<open>transfer_refusal c context err\<close> \<open>sound (st_events s') (st_snapshots s')\<close> by simp
    next
      case (Inr u)
      have "k < 3" using k(1) by simp
      with out Inr show ?thesis by (auto simp: t)
    qed
  next
    assume "(\<exists>msg. r = Inl (Conflict msg)) \<and> conflicted ?at 3 s s'"
    then obtain msg where r: "r = Inl (Conflict msg)" and c: "conflicted ?at 3 s s'" by blast
    from transfer_conflicted [OF c f sound] drift_sound [OF f sound, of 3] r
    show ?thesis by (auto simp del: drift_simps)
  qed
qed

end

section \<open>The stores the service runs on\<close>

interpretation memory_stores: shared_stores memory_event_store me_inv me_stream me_allEvents me_restamp "\<lambda>_ _. True"
    memory_snapshot_store "\<lambda>_. True" ms_latest
  by unfold_locales

interpretation postgres_stores: shared_stores postgres_event_store pg_inv pg_stream pg_journal pg_restamp pg_fresh
    postgres_snapshot_store ps_inv ps_latest
  by unfold_locales

definition pg_deps ::
  "(nat \<Rightarrow> stamp) \<Rightarrow> (nat \<Rightarrow> pg_events \<times> pg_snapshots \<Rightarrow> pg_events \<times> pg_snapshots) \<Rightarrow> (pg_events, pg_snapshots) deps" where
  "pg_deps stamps others =
     \<lparr>dp_events = postgres_event_store, dp_snapshots = postgres_snapshot_store, dp_stamps = stamps, dp_others = others\<rparr>"

definition empty_pg_stores :: "(pg_events, pg_snapshots) stores" where
  "empty_pg_stores = \<lparr>st_events = empty_pg_events, st_snapshots = [], st_tick = 0\<rparr>"

lemma empty_pg_sound: "postgres_stores.sound (st_events empty_pg_stores) (st_snapshots empty_pg_stores)"
  by (rule postgres_stores.empty_sound)
    (simp_all add: empty_pg_stores_def empty_pg_inv ps_inv_def ps_latest_def ps_getLatest_def, simp add: pg_stream_def empty_pg_events_def)

lemma pg_cluster_ok:
  assumes "path (cluster_step (pg_deps stamps others)) (empty_pg_stores, Map.empty) is c"
  shows "postgres_stores.cluster_ok c"
  by (rule postgres_stores.cluster_path_ok [OF assms])
    (simp_all add: postgres_stores.cluster_ok_def empty_pg_sound pg_deps_def)

lemma cluster_streams_grow:
  assumes "path (cluster_step (pg_deps stamps others)) c is c'" "postgres_stores.cluster_ok c"
  shows "postgres_stores.cluster_ok c' \<and> (\<forall>sid. prefix (pg_stream (st_events (fst c)) sid) (pg_stream (st_events (fst c')) sid))"
  using assms
proof (induction rule: path.induct)
  case (path_Nil p)
  then show ?case by simp
next
  case (path_snoc p ls q l r)
  from postgres_stores.cluster_step_ok [OF path_snoc.hyps(2)] path_snoc.IH path_snoc.prems
  have "postgres_stores.cluster_ok r" "\<forall>sid. prefix (pg_stream (st_events (fst q)) sid) (pg_stream (st_events (fst r)) sid)"
    by (auto simp: pg_deps_def prefix_def)
  then show ?case using path_snoc.IH path_snoc.prems by (meson prefix_order.trans)
qed

section \<open>Properties\<close>

text \<open>C4: No interleaving overdraws an account or corrupts a history: however many requests, in however
  many instances, load, change and save accounts and transfers in whatever order, every account loads, the
  balance is not negative, the version is the number of events in its stream, and loading it through its
  snapshot gives exactly what replaying the whole stream gives.\<close>

theorem no_interleaving_overdraws:
  assumes "path (cluster_step (pg_deps stamps others)) (empty_pg_stores, Map.empty) is (s, w)"
  shows "\<exists>x. account_getById (pg_deps stamps others) i s = Inr (x, [])
    \<and> loadFromHistory account_when (pg_readStream (account_stream i) 0 (st_events s)) new_account = Inr (x, [])
    \<and> 0 \<le> acc_balance x \<and> acc_version x = int (length (pg_readStream (account_stream i) 0 (st_events s)))"
proof -
  have sound: "postgres_stores.sound (st_events s) (st_snapshots s)"
    using postgres_stores.cluster_okD(1) [OF pg_cluster_ok [OF assms]] .
  obtain x where x: "account_getById (pg_deps stamps others) i s = Inr (x, [])"
      "account_history (pg_stream (st_events s) (account_stream i)) x"
    using postgres_stores.getById_replays [OF sound, of "pg_deps stamps others" i] by (auto simp: pg_deps_def)
  have "pg_readStream (account_stream i) 0 (st_events s) = pg_stream (st_events s) (account_stream i)"
    using postgres_events.read_whole postgres_stores.soundD(1) [OF sound] by (simp add: postgres_event_store_def)
  then show ?thesis using x account_history_version [OF x(2)] by (auto simp: account_history_def)
qed

theorem no_interleaving_overdraws_witness:
  "\<exists>x. account_getById (pg_deps (\<lambda>n. \<lparr>st_uuid = show_nat n, st_now = int n\<rparr>) (\<lambda>n x. x)) ''a'' empty_pg_stores = Inr (x, [])
    \<and> 0 \<le> acc_balance x"
proof -
  let ?d = "pg_deps (\<lambda>n. \<lparr>st_uuid = show_nat n, st_now = int n\<rparr>) (\<lambda>n x. x)"
  have "restore_latest ?d ''a'' empty_pg_stores = Inr new_account"
    by (simp add: restore_latest_def pg_deps_def postgres_snapshot_store_def ps_getLatest_def empty_pg_stores_def)
  from path_single [where step = "cluster_step ?d", OF cl_restore [OF this, of "Map.empty" 0]]
  have "path (cluster_step ?d) (empty_pg_stores, Map.empty) [0] (empty_pg_stores, Map.empty(0 \<mapsto> AccountRestored ''a'' new_account))" .
  from no_interleaving_overdraws [OF this, of "''a''"] show ?thesis by blast
qed

text \<open>History is never rewritten: along any such interleaving every stream of the store only grows,
  so an event that was once committed is there, at its place, for good.\<close>

theorem history_is_append_only:
  assumes "path (cluster_step (pg_deps stamps others)) (empty_pg_stores, Map.empty) is c"
    and "path (cluster_step (pg_deps stamps others)) c js c'"
  shows "prefix (pg_stream (st_events (fst c)) sid) (pg_stream (st_events (fst c')) sid)"
  using cluster_streams_grow [OF assms(2) pg_cluster_ok [OF assms(1)]] by blast

theorem history_is_append_only_witness:
  "prefix (pg_stream (st_events empty_pg_stores) ''account-a'') (pg_stream (st_events empty_pg_stores) ''account-a'')"
proof -
  let ?d = "pg_deps (\<lambda>n. \<lparr>st_uuid = show_nat n, st_now = int n\<rparr>) (\<lambda>n x. x)"
  have "cluster_step ?d (empty_pg_stores, Map.empty) 0 (empty_pg_stores, Map.empty(0 := None))" by (rule cl_abandon)
  then have "path (cluster_step ?d) (empty_pg_stores, Map.empty) [0] (empty_pg_stores, Map.empty(0 := None))"
    by (rule path_single)
  from history_is_append_only [OF path_Nil this] show ?thesis by simp
qed

text \<open>C13: An account command either takes effect exactly once or not at all: if it reports success, then
  in one of at most three attempts it ran on the newest history of the account, nobody wrote to that stream
  before it was saved, and exactly its one event was added behind it, every other write of other instances
  being kept; if it reports an error nothing was added by it, and it reports a conflict only when other
  instances wrote to that very stream during each of the three attempts.\<close>

theorem account_command_outcome:
  assumes "postgres_stores.fair d" and "postgres_stores.sound (st_events s) (st_snapshots s)"
    and "account_handler d i c context s = (r, s')"
  shows "case r of
      Inr _ \<Rightarrow> (\<exists>k < 3. account_committed pg_stream d i c context (drift d k s) (drift d (Suc k) s) s')
    | Inl err \<Rightarrow> (\<exists>k \<le> 3. pg_stream (st_events s') = pg_stream (st_events (drift d k s)))
        \<and> (refusal err \<or> (\<exists>msg. err = Conflict msg) \<and>
            (\<forall>j < 3. pg_stream (st_events (drift d (Suc j) s)) (account_stream i)
                  \<noteq> pg_stream (st_events (drift d j s)) (account_stream i)))"
  using postgres_stores.account_handler_outcome [OF assms] by blast

lemma pg_quiet_fair: "postgres_stores.fair (pg_deps stamps (\<lambda>n x. x))"
  by (simp add: postgres_stores.fair_def pg_deps_def)

theorem account_command_outcome_witness:
  "\<exists>r s'. account_handler (pg_deps (\<lambda>n. \<lparr>st_uuid = show_nat n, st_now = int n\<rparr>) (\<lambda>n x. x)) ''a''
       (CreateAccount ''a'' ''o'' ''USD'') sample_context empty_pg_stores = (r, s')
     \<and> (r = Inr () \<longrightarrow> (\<exists>k < 3. account_committed pg_stream (pg_deps (\<lambda>n. \<lparr>st_uuid = show_nat n, st_now = int n\<rparr>) (\<lambda>n x. x)) ''a''
       (CreateAccount ''a'' ''o'' ''USD'') sample_context
        (drift (pg_deps (\<lambda>n. \<lparr>st_uuid = show_nat n, st_now = int n\<rparr>) (\<lambda>n x. x)) k empty_pg_stores)
        (drift (pg_deps (\<lambda>n. \<lparr>st_uuid = show_nat n, st_now = int n\<rparr>) (\<lambda>n x. x)) (Suc k) empty_pg_stores) s'))"
  using account_command_outcome [OF pg_quiet_fair empty_pg_sound, of "\<lambda>n. \<lparr>st_uuid = show_nat n, st_now = int n\<rparr>" "''a''"
      "CreateAccount ''a'' ''o'' ''USD''" sample_context]
  by (cases "account_handler (pg_deps (\<lambda>n. \<lparr>st_uuid = show_nat n, st_now = int n\<rparr>) (\<lambda>n x. x)) ''a''
       (CreateAccount ''a'' ''o'' ''USD'') sample_context empty_pg_stores") (auto split: sum.splits)

end
