(* ===== verification/Idempotency.thy ===== *)
theory Idempotency
  imports Repositories
begin

text \<open>
  \<open>src/infrastructure/idempotency\<close>: the record repositories and the service that runs a request at most
  once per idempotency key.  The SHA-256 digest of the request is a parameter, \<open>hashRequest\<close>.
\<close>

section \<open>Records\<close>

datatype idempotency_status = IN_PROGRESS | COMPLETED_REQUEST | FAILED_REQUEST

record 'r idempotency_record =
  ir_idempotencyKey :: string
  ir_operation :: string
  ir_requestHash :: string
  ir_status :: idempotency_status
  ir_responsePayload :: "'r option"
  ir_errorMessage :: "string option"
  ir_createdAt :: int
  ir_updatedAt :: int

text \<open>The last argument before the state is the clock's reading.\<close>

record ('i, 'r) idempotency_ops =
  ip_reserve :: "string \<Rightarrow> string \<Rightarrow> string \<Rightarrow> int \<Rightarrow> 'i \<Rightarrow> (bool \<times> 'r idempotency_record option) \<times> 'i"
  ip_markCompleted :: "string \<Rightarrow> 'r \<Rightarrow> int \<Rightarrow> 'i \<Rightarrow> 'i"
  ip_markFailed :: "string \<Rightarrow> string \<Rightarrow> int \<Rightarrow> 'i \<Rightarrow> 'i"

definition new_idempotency_record :: "string \<Rightarrow> string \<Rightarrow> string \<Rightarrow> int \<Rightarrow> 'r idempotency_record" where
  "new_idempotency_record key operation requestHash now =
     \<lparr>ir_idempotencyKey = key, ir_operation = operation, ir_requestHash = requestHash, ir_status = IN_PROGRESS,
      ir_responsePayload = None, ir_errorMessage = None, ir_createdAt = now, ir_updatedAt = now\<rparr>"

section \<open>The in-memory repository\<close>

type_synonym 'r memory_idempotency = "string \<rightharpoonup> 'r idempotency_record"

definition mi_reserve ::
  "string \<Rightarrow> string \<Rightarrow> string \<Rightarrow> int \<Rightarrow> 'r memory_idempotency \<Rightarrow> (bool \<times> 'r idempotency_record option) \<times> 'r memory_idempotency" where
  "mi_reserve key operation requestHash now s =
     (case s key of
        Some existing \<Rightarrow> ((False, Some existing), s)
      | None \<Rightarrow> (let r = new_idempotency_record key operation requestHash now in ((True, Some r), s(key \<mapsto> r))))"

definition mi_markCompleted :: "string \<Rightarrow> 'r \<Rightarrow> int \<Rightarrow> 'r memory_idempotency \<Rightarrow> 'r memory_idempotency" where
  "mi_markCompleted key responsePayload now s =
     (case s key of
        None \<Rightarrow> s
      | Some current \<Rightarrow>
          s(key \<mapsto> current\<lparr>ir_status := COMPLETED_REQUEST, ir_responsePayload := Some responsePayload,
                          ir_errorMessage := None, ir_updatedAt := now\<rparr>))"

definition mi_markFailed :: "string \<Rightarrow> string \<Rightarrow> int \<Rightarrow> 'r memory_idempotency \<Rightarrow> 'r memory_idempotency" where
  "mi_markFailed key errorMessage now s =
     (case s key of
        None \<Rightarrow> s
      | Some current \<Rightarrow>
          s(key \<mapsto> current\<lparr>ir_status := FAILED_REQUEST, ir_errorMessage := Some errorMessage, ir_updatedAt := now\<rparr>))"

definition memory_idempotency_repository :: "('r memory_idempotency, 'r) idempotency_ops" where
  "memory_idempotency_repository =
     \<lparr>ip_reserve = mi_reserve, ip_markCompleted = mi_markCompleted, ip_markFailed = mi_markFailed\<rparr>"

section \<open>The Postgres repository\<close>

text \<open>The rows of \<open>idempotency_records\<close>, whose primary key is the idempotency key.\<close>

type_synonym 'r pg_idempotency = "'r idempotency_record list"

definition pi_reserve ::
  "string \<Rightarrow> string \<Rightarrow> string \<Rightarrow> int \<Rightarrow> 'r pg_idempotency \<Rightarrow> (bool \<times> 'r idempotency_record option) \<times> 'r pg_idempotency" where
  "pi_reserve key operation requestHash now t =
     (if find (\<lambda>r. ir_idempotencyKey r = key) t = None
      then (let r = new_idempotency_record key operation requestHash now in ((True, Some r), t @ [r]))
      else ((False, find (\<lambda>r. ir_idempotencyKey r = key) t), t))"

definition pi_markCompleted :: "string \<Rightarrow> 'r \<Rightarrow> int \<Rightarrow> 'r pg_idempotency \<Rightarrow> 'r pg_idempotency" where
  "pi_markCompleted key responsePayload now t =
     map (\<lambda>r. if ir_idempotencyKey r = key
              then r\<lparr>ir_status := COMPLETED_REQUEST, ir_responsePayload := Some responsePayload,
                     ir_errorMessage := None, ir_updatedAt := now\<rparr> else r) t"

definition pi_markFailed :: "string \<Rightarrow> string \<Rightarrow> int \<Rightarrow> 'r pg_idempotency \<Rightarrow> 'r pg_idempotency" where
  "pi_markFailed key errorMessage now t =
     map (\<lambda>r. if ir_idempotencyKey r = key
              then r\<lparr>ir_status := FAILED_REQUEST, ir_errorMessage := Some errorMessage, ir_updatedAt := now\<rparr> else r) t"

definition postgres_idempotency_repository :: "('r pg_idempotency, 'r) idempotency_ops" where
  "postgres_idempotency_repository =
     \<lparr>ip_reserve = pi_reserve, ip_markCompleted = pi_markCompleted, ip_markFailed = pi_markFailed\<rparr>"

section \<open>The service\<close>

text \<open>\<open>error.message\<close>: the text the exception was made with.\<close>

fun error_message :: "js_error \<Rightarrow> string" where
  "error_message (BadRequest m) = m"
| "error_message (Conflict m) = m"
| "error_message (NotFound m) = m"
| "error_message (WrongExpectedVersion sid expected actual) =
     ''WrongExpectedVersion for stream '' @ sid @ ''. Expected '' @ show_int expected @ '', actual '' @ show_int actual"
| "error_message (RetryableTransfer m) = m"
| "error_message (ProjectionGap m expected actual) = m"
| "error_message (GenericError m) = m"

text \<open>What the part of \<open>execute\<close> before the handler decides.\<close>

datatype 'r admission = Proceed | Replay 'r | Reject js_error

definition idempotency_begin ::
  "('i, 'r) idempotency_ops \<Rightarrow> (string \<Rightarrow> 'p \<Rightarrow> string) \<Rightarrow> string option \<Rightarrow> string \<Rightarrow> 'p \<Rightarrow> int \<Rightarrow> 'i \<Rightarrow> 'r admission \<times> 'i" where
  "idempotency_begin ops hashRequest idempotencyKey operation payload now s =
     (if \<not> truthy idempotencyKey then (Reject (BadRequest ''Idempotency-Key header is required''), s)
      else (let key = the idempotencyKey; requestHash = hashRequest operation payload
            in case ip_reserve ops key operation requestHash now s of
                 ((created, rec), s') \<Rightarrow>
                   (case (created, rec) of
                      (False, Some r) \<Rightarrow>
                        (if ir_operation r \<noteq> operation \<or> ir_requestHash r \<noteq> requestHash
                         then Reject (Conflict (''Idempotency key '' @ key @ '' has already been used for a different request''))
                         else (case (ir_status r, ir_responsePayload r) of
                                 (COMPLETED_REQUEST, Some response) \<Rightarrow> Replay response
                               | (IN_PROGRESS, _) \<Rightarrow>
                                   Reject (Conflict (''Request with Idempotency-Key '' @ key @ '' is already in progress''))
                               | _ \<Rightarrow>
                                   Reject (Conflict (''Request with Idempotency-Key '' @ key @ '' previously failed. Retry with a new key.''))))
                    | _ \<Rightarrow> Proceed, s')))"

definition idempotency_finish :: "('i, 'r) idempotency_ops \<Rightarrow> string \<Rightarrow> 'r result \<Rightarrow> int \<Rightarrow> 'i \<Rightarrow> 'i" where
  "idempotency_finish ops key outcome now s =
     (case outcome of
        Inr response \<Rightarrow> ip_markCompleted ops key response now s
      | Inl e \<Rightarrow> ip_markFailed ops key (error_message e) now s)"

text \<open>The whole of \<open>execute\<close>; the handler works on the rest of the state.\<close>

definition idempotency_execute ::
  "('i, 'r) idempotency_ops \<Rightarrow> (string \<Rightarrow> 'p \<Rightarrow> string) \<Rightarrow> ('w \<Rightarrow> int) \<Rightarrow> string option \<Rightarrow> string \<Rightarrow> 'p
     \<Rightarrow> ('w, 'r) prog \<Rightarrow> ('i \<times> 'w, 'r) prog" where
  "idempotency_execute ops hashRequest clock idempotencyKey operation payload handler s =
     (case idempotency_begin ops hashRequest idempotencyKey operation payload (clock (snd s)) (fst s) of
        (Reject e, i) \<Rightarrow> (Inl e, (i, snd s))
      | (Replay response, i) \<Rightarrow> (Inr response, (i, snd s))
      | (Proceed, i) \<Rightarrow>
          (case handler (snd s) of
             (outcome, w) \<Rightarrow> (outcome, (idempotency_finish ops (the idempotencyKey) outcome (clock w) i, w))))"

section \<open>What a record repository promises\<close>

locale idempotency_repository =
  fixes ops :: "('i, 'r) idempotency_ops"
    and inv :: "'i \<Rightarrow> bool"
    and lookup :: "'i \<Rightarrow> string \<rightharpoonup> 'r idempotency_record"
  assumes reserve_new: "inv s \<Longrightarrow> lookup s key = None \<Longrightarrow>
      \<exists>s'. ip_reserve ops key operation h now s = ((True, Some (new_idempotency_record key operation h now)), s') \<and> inv s'
        \<and> lookup s' = (lookup s)(key \<mapsto> new_idempotency_record key operation h now)"
    and reserve_existing: "inv s \<Longrightarrow> lookup s key = Some r \<Longrightarrow> ip_reserve ops key operation h now s = ((False, Some r), s)"
    and completed: "inv s \<Longrightarrow> inv (ip_markCompleted ops key response now s) \<and>
      lookup (ip_markCompleted ops key response now s) = (lookup s)(key := map_option (\<lambda>r.
        r\<lparr>ir_status := COMPLETED_REQUEST, ir_responsePayload := Some response, ir_errorMessage := None, ir_updatedAt := now\<rparr>) (lookup s key))"
    and failed: "inv s \<Longrightarrow> inv (ip_markFailed ops key msg now s) \<and>
      lookup (ip_markFailed ops key msg now s) = (lookup s)(key := map_option (\<lambda>r.
        r\<lparr>ir_status := FAILED_REQUEST, ir_errorMessage := Some msg, ir_updatedAt := now\<rparr>) (lookup s key))"

interpretation memory_idempotency: idempotency_repository memory_idempotency_repository "\<lambda>_. True" "\<lambda>s. s"
proof unfold_locales
  fix s :: "'r memory_idempotency" and key operation h :: string and now :: int
  assume "s key = None"
  then show "\<exists>s'. ip_reserve memory_idempotency_repository key operation h now s
      = ((True, Some (new_idempotency_record key operation h now)), s') \<and> True
        \<and> s' = s(key \<mapsto> new_idempotency_record key operation h now)"
    by (simp add: memory_idempotency_repository_def mi_reserve_def Let_def)
qed (auto simp: memory_idempotency_repository_def mi_reserve_def mi_markCompleted_def mi_markFailed_def fun_eq_iff
      split: option.splits)

definition pi_inv :: "'r pg_idempotency \<Rightarrow> bool" where
  "pi_inv t \<longleftrightarrow> distinct (map ir_idempotencyKey t)"

definition pi_lookup :: "'r pg_idempotency \<Rightarrow> string \<rightharpoonup> 'r idempotency_record" where
  "pi_lookup t key = find (\<lambda>r. ir_idempotencyKey r = key) t"

lemma pi_lookup_map:
  assumes "\<And>r. ir_idempotencyKey (f r) = ir_idempotencyKey r"
  shows "pi_lookup (map (\<lambda>r. if ir_idempotencyKey r = key then f r else r) t) = (pi_lookup t)(key := map_option f (pi_lookup t key))"
    and "map ir_idempotencyKey (map (\<lambda>r. if ir_idempotencyKey r = key then f r else r) t) = map ir_idempotencyKey t"
  by (induction t) (auto simp: pi_lookup_def fun_eq_iff assms)

lemma pi_lookup_append:
  "pi_lookup (t @ [r]) = (pi_lookup t)(ir_idempotencyKey r := case pi_lookup t (ir_idempotencyKey r) of None \<Rightarrow> Some r | Some x \<Rightarrow> Some x)"
  by (induction t) (auto simp: pi_lookup_def fun_eq_iff)

interpretation postgres_idempotency: idempotency_repository postgres_idempotency_repository pi_inv pi_lookup
proof unfold_locales
  fix s :: "'r pg_idempotency" and key operation h :: string and now :: int
  assume inv: "pi_inv s" and none: "pi_lookup s key = None"
  let ?r = "new_idempotency_record key operation h now :: 'r idempotency_record"
  have "key \<notin> ir_idempotencyKey ` set s" using none by (auto simp: pi_lookup_def find_None_iff)
  then have "pi_inv (s @ [?r])" using inv by (simp add: pi_inv_def new_idempotency_record_def)
  moreover have "pi_lookup (s @ [?r]) = (pi_lookup s)(key \<mapsto> ?r)"
    using none by (simp add: pi_lookup_append) (simp add: new_idempotency_record_def)
  moreover have "ip_reserve postgres_idempotency_repository key operation h now s = ((True, Some ?r), s @ [?r])"
    using none by (simp add: postgres_idempotency_repository_def pi_reserve_def pi_lookup_def Let_def)
  ultimately show "\<exists>s'. ip_reserve postgres_idempotency_repository key operation h now s
      = ((True, Some ?r), s') \<and> pi_inv s' \<and> pi_lookup s' = (pi_lookup s)(key \<mapsto> ?r)" by blast
next
  fix s :: "'r pg_idempotency" and key operation h :: string and now :: int and r
  assume "pi_lookup s key = Some r"
  then show "ip_reserve postgres_idempotency_repository key operation h now s = ((False, Some r), s)"
    by (simp add: postgres_idempotency_repository_def pi_reserve_def pi_lookup_def)
qed (simp_all add: postgres_idempotency_repository_def pi_markCompleted_def pi_markFailed_def pi_inv_def pi_lookup_map
    del: map_map)

section \<open>Concurrent requests\<close>

text \<open>
  Requests of any number of instances begin and finish in any order; \<open>w\<close> holds the keys of the handlers
  that are running.  A request whose instance dies never finishes.
\<close>

datatype ('p, 'r) request_label =
    Begin "string option" string 'p "'r admission"
  | Finish string "'r result"

inductive idempotency_step ::
  "('i, 'r) idempotency_ops \<Rightarrow> (string \<Rightarrow> 'p \<Rightarrow> string) \<Rightarrow> 'i \<times> (nat \<rightharpoonup> string) \<Rightarrow> ('p, 'r) request_label
     \<Rightarrow> 'i \<times> (nat \<rightharpoonup> string) \<Rightarrow> bool" for ops hashRequest where
  is_begin: "w i = None \<Longrightarrow> idempotency_begin ops hashRequest key operation payload now s = (adm, s') \<Longrightarrow>
    idempotency_step ops hashRequest (s, w) (Begin key operation payload adm)
      (s', if adm = Proceed then w(i \<mapsto> the key) else w)"
| is_finish: "w i = Some key \<Longrightarrow>
    idempotency_step ops hashRequest (s, w) (Finish key outcome) (idempotency_finish ops key outcome now s, w(i := None))"

fun starts_key :: "string \<Rightarrow> ('p, 'r) request_label \<Rightarrow> bool" where
  "starts_key key (Begin k _ _ adm) = (k = Some key \<and> adm = Proceed)"
| "starts_key key (Finish _ _) = False"

context idempotency_repository
begin

text \<open>The record of a key tells what its one handler did.\<close>

definition told :: "(string \<Rightarrow> 'p \<Rightarrow> string) \<Rightarrow> ('p, 'r) request_label list \<Rightarrow> (nat \<rightharpoonup> string) \<Rightarrow> string \<Rightarrow> 'r idempotency_record option \<Rightarrow> bool" where
  "told hashRequest ls w key rec \<longleftrightarrow>
     (case rec of
        None \<Rightarrow> filter (starts_key key) ls = [] \<and> (\<forall>i. w i \<noteq> Some key)
      | Some r \<Rightarrow>
          (\<exists>p. filter (starts_key key) ls = [Begin (Some key) (ir_operation r) p Proceed] \<and> ir_requestHash r = hashRequest (ir_operation r) p)
          \<and> (\<forall>i j. w i = Some key \<longrightarrow> w j = Some key \<longrightarrow> i = j)
          \<and> (case ir_status r of
               IN_PROGRESS \<Rightarrow> True
             | COMPLETED_REQUEST \<Rightarrow> (\<forall>i. w i \<noteq> Some key) \<and> (\<exists>x. ir_responsePayload r = Some x \<and> Finish key (Inr x) \<in> set ls)
             | FAILED_REQUEST \<Rightarrow> (\<forall>i. w i \<noteq> Some key) \<and> (\<exists>e. Finish key (Inl e) \<in> set ls)))"

definition all_told :: "(string \<Rightarrow> 'p \<Rightarrow> string) \<Rightarrow> ('p, 'r) request_label list \<Rightarrow> 'i \<times> (nat \<rightharpoonup> string) \<Rightarrow> bool" where
  "all_told hashRequest ls c \<longleftrightarrow> inv (fst c) \<and> (\<forall>key. told hashRequest ls (snd c) key (lookup (fst c) key))"

text \<open>A replayed response was produced by the one handler that ran for the same request.\<close>

definition replays_ok :: "(string \<Rightarrow> 'p \<Rightarrow> string) \<Rightarrow> ('p, 'r) request_label list \<Rightarrow> bool" where
  "replays_ok hashRequest ls \<longleftrightarrow> (\<forall>key operation p x. Begin (Some key) operation p (Replay x) \<in> set ls \<longrightarrow>
     Finish key (Inr x) \<in> set ls
     \<and> (\<exists>p'. Begin (Some key) operation p' Proceed \<in> set ls \<and> hashRequest operation p' = hashRequest operation p))"

lemma begin_cases:
  assumes "inv s" "idempotency_begin ops hashRequest k operation p now s = (adm, s')"
  shows "(\<exists>e. adm = Reject e \<and> inv s' \<and> lookup s' = lookup s)
    \<or> (\<exists>key x r. k = Some key \<and> adm = Replay x \<and> s' = s \<and> lookup s key = Some r \<and> ir_operation r = operation
         \<and> ir_requestHash r = hashRequest operation p \<and> ir_status r = COMPLETED_REQUEST \<and> ir_responsePayload r = Some x)
    \<or> (\<exists>key. k = Some key \<and> adm = Proceed \<and> inv s' \<and> lookup s key = None
         \<and> lookup s' = (lookup s)(key \<mapsto> new_idempotency_record key operation (hashRequest operation p) now))"
proof (cases "truthy k")
  case False
  then show ?thesis using assms by (auto simp: idempotency_begin_def)
next
  case True
  then obtain key where key: "k = Some key" by (cases k) auto
  show ?thesis
  proof (cases "lookup s key")
    case None
    from reserve_new [OF assms(1) None, of operation "hashRequest operation p" now] assms(2) True key None
    show ?thesis by (auto simp: idempotency_begin_def Let_def)
  next
    case (Some r)
    from reserve_existing [OF assms(1) Some, of operation "hashRequest operation p" now] assms True key Some
    show ?thesis
      by (auto simp: idempotency_begin_def Let_def split: if_splits idempotency_status.splits option.splits)
  qed
qed

lemma step_told:
  assumes "idempotency_step ops hashRequest c l c'" "all_told hashRequest ls c" "replays_ok hashRequest ls"
  shows "all_told hashRequest (ls @ [l]) c' \<and> replays_ok hashRequest (ls @ [l])"
  using assms
proof cases
  case (is_begin w i k operation p now s adm s')
  have inv: "inv s" and told: "\<And>key. told hashRequest ls w key (lookup s key)"
    using assms(2) by (auto simp: all_told_def is_begin)
  have keep: "told hashRequest (ls @ [l]) w key rec" if "told hashRequest ls w key rec" "\<not> starts_key key l" for key rec
    using that by (auto simp: told_def split: option.splits idempotency_status.splits)
  from begin_cases [OF inv is_begin(5)] consider
      (reject) e where "adm = Reject e" "inv s'" "lookup s' = lookup s"
    | (replay) key x r where "k = Some key" "adm = Replay x" "s' = s" "lookup s key = Some r" "ir_operation r = operation"
        "ir_requestHash r = hashRequest operation p" "ir_status r = COMPLETED_REQUEST" "ir_responsePayload r = Some x"
    | (proceed) key where "k = Some key" "adm = Proceed" "inv s'" "lookup s key = None"
        "lookup s' = (lookup s)(key \<mapsto> new_idempotency_record key operation (hashRequest operation p) now)"
    by blast
  then show ?thesis
  proof cases
    case reject
    then have "all_told hashRequest (ls @ [l]) c'"
      using told keep by (auto simp: all_told_def is_begin(1-3))
    moreover have "replays_ok hashRequest (ls @ [l])"
      using assms(3) reject(1) by (auto simp: replays_ok_def is_begin(2))
    ultimately show ?thesis ..
  next
    case replay
    have "all_told hashRequest (ls @ [l]) c'"
      using told keep replay inv by (auto simp: all_told_def is_begin(1-3))
    moreover have "replays_ok hashRequest (ls @ [l])"
    proof -
      have t: "told hashRequest ls w key (Some r)" using told [of key] replay(4) by simp
      then obtain p' where p': "filter (starts_key key) ls = [Begin (Some key) operation p' Proceed]"
          "hashRequest operation p' = hashRequest operation p"
        using replay by (auto simp: told_def)
      then have "Begin (Some key) operation p' Proceed \<in> set ls" by (metis filter_is_subset list.set_intros(1) subsetD)
      moreover have "Finish key (Inr x) \<in> set ls" using t replay by (auto simp: told_def)
      ultimately show ?thesis using assms(3) replay(1,2) p'(2) by (auto simp: replays_ok_def is_begin(2))
    qed
    ultimately show ?thesis ..
  next
    case proceed
    let ?r = "new_idempotency_record key operation (hashRequest operation p) now"
    have fresh: "filter (starts_key key) ls = []" "\<forall>j. w j \<noteq> Some key"
      using told [of key] proceed(4) by (auto simp: told_def)
    have "told hashRequest (ls @ [l]) (w(i \<mapsto> key)) key (Some ?r)"
      using fresh proceed(1,2) by (auto simp: told_def is_begin(2) new_idempotency_record_def)
    moreover have "told hashRequest (ls @ [l]) (w(i \<mapsto> key)) key' (lookup s key')" if "key' \<noteq> key" for key'
    proof -
      have "told hashRequest (ls @ [l]) w key' (lookup s key')"
        using told [of key'] keep that proceed(1) by (simp add: is_begin(2))
      then show ?thesis using that is_begin(4) by (auto simp: told_def split: option.splits idempotency_status.splits)
    qed
    ultimately have "all_told hashRequest (ls @ [l]) c'"
      using proceed by (auto simp: all_told_def is_begin(1-3))
    moreover have "replays_ok hashRequest (ls @ [l])"
      using assms(3) proceed(2) unfolding replays_ok_def is_begin(2) by simp blast
    ultimately show ?thesis ..
  qed
next
  case (is_finish w i key s outcome now)
  have inv: "inv s" and told: "\<And>key. told hashRequest ls w key (lookup s key)"
    using assms(2) by (auto simp: all_told_def is_finish)
  obtain r where r: "lookup s key = Some r" using told [of key] is_finish(4) by (auto simp: told_def split: option.splits)
  have alone: "j = i" if "w j = Some key" for j using told [of key] r is_finish(4) that by (auto simp: told_def)
  obtain p where p: "filter (starts_key key) ls = [Begin (Some key) (ir_operation r) p Proceed]"
      "ir_requestHash r = hashRequest (ir_operation r) p"
    using told [of key] r by (auto simp: told_def)
  let ?s = "idempotency_finish ops key outcome now s"
  have fin: "inv ?s" "lookup ?s = (lookup s)(key \<mapsto> (case outcome of
        Inr x \<Rightarrow> r\<lparr>ir_status := COMPLETED_REQUEST, ir_responsePayload := Some x, ir_errorMessage := None, ir_updatedAt := now\<rparr>
      | Inl e \<Rightarrow> r\<lparr>ir_status := FAILED_REQUEST, ir_errorMessage := Some (error_message e), ir_updatedAt := now\<rparr>))"
    using completed [OF inv] failed [OF inv] r by (auto simp: idempotency_finish_def split: sum.splits)
  have "told hashRequest (ls @ [l]) (w(i := None)) key (lookup ?s key)"
    using p alone by (auto simp: told_def fin(2) is_finish(2) split: sum.splits)
  moreover have "told hashRequest (ls @ [l]) (w(i := None)) key' (lookup ?s key')" if "key' \<noteq> key" for key'
    using told [of key'] that is_finish(4) by (auto simp: told_def fin(2) is_finish(2) split: option.splits idempotency_status.splits)
  ultimately have "all_told hashRequest (ls @ [l]) c'"
    using fin(1) unfolding all_told_def by (metis fst_conv is_finish(3) snd_conv)
  moreover have "replays_ok hashRequest (ls @ [l])"
    using assms(3) unfolding replays_ok_def is_finish(2) by simp
  ultimately show ?thesis ..
qed

lemma path_told:
  assumes "path (idempotency_step ops hashRequest) (s0, Map.empty) ls c" "inv s0" "\<forall>key. lookup s0 key = None"
  shows "all_told hashRequest ls c \<and> replays_ok hashRequest ls"
  using assms
proof (induction "(s0, Map.empty :: nat \<rightharpoonup> string)" ls c rule: path.induct)
  case path_Nil
  then show ?case by (simp add: all_told_def told_def replays_ok_def)
next
  case (path_snoc ls q l r)
  then show ?case using step_told by blast
qed

lemma at_most_once:
  assumes "path (idempotency_step ops hashRequest) (s0, Map.empty) ls c" "inv s0" "\<forall>key. lookup s0 key = None"
  shows "length (filter (starts_key key) ls) \<le> 1"
  using path_told [OF assms] by (auto simp: all_told_def told_def dest!: spec [of _ key] split: option.splits)

end

section \<open>Properties\<close>

text \<open>C11: A request takes effect at most once per idempotency key: in any interleaving of requests of any
  number of instances, including ones that die halfway, at most one handler is ever started for a key, and a
  request that is answered from the record gets exactly the response that one handler produced for the same
  operation and the same request digest.\<close>

theorem requests_run_at_most_once:
  assumes "path (idempotency_step postgres_idempotency_repository hashRequest) ([], Map.empty) ls c"
  shows "length (filter (starts_key key) ls) \<le> 1
    \<and> (\<forall>operation p x. Begin (Some key) operation p (Replay x) \<in> set ls \<longrightarrow>
         Finish key (Inr x) \<in> set ls
         \<and> (\<exists>p'. Begin (Some key) operation p' Proceed \<in> set ls \<and> hashRequest operation p' = hashRequest operation p))"
  using postgres_idempotency.at_most_once [OF assms, of key] postgres_idempotency.path_told [OF assms]
  by (auto simp: postgres_idempotency.replays_ok_def pi_inv_def pi_lookup_def)

theorem requests_run_at_most_once_witness:
  "length (filter (starts_key ''k'')
     [Begin (Some ''k'') ''deposit'' (7 :: nat) (Proceed :: nat admission)]) \<le> 1"
proof -
  let ?ops = "postgres_idempotency_repository :: (nat pg_idempotency, nat) idempotency_ops"
  obtain s' where "idempotency_begin ?ops (\<lambda>op p. op) (Some ''k'') ''deposit'' (7 :: nat) 0 [] = (Proceed, s')"
    by (simp add: idempotency_begin_def postgres_idempotency_repository_def pi_reserve_def Let_def)
  from is_begin [of Map.empty 0, OF _ this]
  have "idempotency_step ?ops (\<lambda>op p. op) ([], Map.empty) (Begin (Some ''k'') ''deposit'' (7 :: nat) Proceed)
      (s', Map.empty(0 \<mapsto> ''k''))" by simp
  then have "path (idempotency_step ?ops (\<lambda>op p. op)) ([], Map.empty) [Begin (Some ''k'') ''deposit'' (7 :: nat) Proceed]
      (s', Map.empty(0 \<mapsto> ''k''))" by (rule path_single)
  from requests_run_at_most_once [OF this, of "''k''"] show ?thesis by blast
qed

end
