(* ===== verification/Transactions.thy ===== *)
theory Transactions
  imports Idempotency
begin

text \<open>
  \<open>src/infrastructure/transactions\<close>: the records of money movements, by transaction id, and the registry
  that runs each movement at most once.
\<close>

section \<open>Records\<close>

datatype transaction_status = PENDING | COMPLETED_TRANSACTION | FAILED_RETRYABLE | FAILED_TERMINAL

datatype operation_type = DEPOSIT | WITHDRAW

record transaction_record =
  tx_transactionId :: string
  tx_accountId :: string
  tx_operationType :: operation_type
  tx_status :: transaction_status
  tx_amountMinorUnits :: string
  tx_amount :: js_number
  tx_currency :: string
  tx_idempotencyKey :: "string option"
  tx_errorMessage :: "string option"
  tx_createdAt :: int
  tx_updatedAt :: int

record reserve_input =
  ri_transactionId :: string
  ri_accountId :: string
  ri_operationType :: operation_type
  ri_amount :: money_input
  ri_currency :: string
  ri_idempotencyKey :: "string option"

record 't transaction_ops =
  xp_reserve :: "reserve_input \<Rightarrow> int \<Rightarrow> ('t, bool \<times> transaction_record option) prog"
  xp_markPending :: "string \<Rightarrow> int \<Rightarrow> 't \<Rightarrow> 't"
  xp_markCompleted :: "string \<Rightarrow> int \<Rightarrow> 't \<Rightarrow> 't"
  xp_markFailed :: "string \<Rightarrow> string \<Rightarrow> transaction_status \<Rightarrow> int \<Rightarrow> 't \<Rightarrow> 't"

definition new_transaction_record :: "reserve_input \<Rightarrow> int \<Rightarrow> int \<Rightarrow> transaction_record" where
  "new_transaction_record input amountMinorUnits now =
     \<lparr>tx_transactionId = ri_transactionId input, tx_accountId = ri_accountId input,
      tx_operationType = ri_operationType input, tx_status = PENDING, tx_amountMinorUnits = show_int amountMinorUnits,
      tx_amount = minorUnitsToNumber amountMinorUnits, tx_currency = ri_currency input,
      tx_idempotencyKey = ri_idempotencyKey input, tx_errorMessage = None, tx_createdAt = now, tx_updatedAt = now\<rparr>"

section \<open>The in-memory repository\<close>

type_synonym memory_transactions = "string \<rightharpoonup> transaction_record"

definition mt_reserve :: "reserve_input \<Rightarrow> int \<Rightarrow> (memory_transactions, bool \<times> transaction_record option) prog" where
  "mt_reserve input now s =
     (case s (ri_transactionId input) of
        Some existing \<Rightarrow> (Inr (False, Some existing), s)
      | None \<Rightarrow>
          (case parseMoneyToMinorUnits (ri_amount input) of
             Inl e \<Rightarrow> (Inl e, s)
           | Inr m \<Rightarrow> (let r = new_transaction_record input m now in (Inr (True, Some r), s(ri_transactionId input \<mapsto> r)))))"

definition mt_update :: "string \<Rightarrow> (transaction_record \<Rightarrow> transaction_record) \<Rightarrow> memory_transactions \<Rightarrow> memory_transactions" where
  "mt_update i f s = (case s i of None \<Rightarrow> s | Some current \<Rightarrow> s(i \<mapsto> f current))"

definition mt_markPending :: "string \<Rightarrow> int \<Rightarrow> memory_transactions \<Rightarrow> memory_transactions" where
  "mt_markPending i now = mt_update i (\<lambda>r. r\<lparr>tx_status := PENDING, tx_updatedAt := now\<rparr>)"

definition mt_markCompleted :: "string \<Rightarrow> int \<Rightarrow> memory_transactions \<Rightarrow> memory_transactions" where
  "mt_markCompleted i now =
     mt_update i (\<lambda>r. r\<lparr>tx_status := COMPLETED_TRANSACTION, tx_errorMessage := None, tx_updatedAt := now\<rparr>)"

definition mt_markFailed :: "string \<Rightarrow> string \<Rightarrow> transaction_status \<Rightarrow> int \<Rightarrow> memory_transactions \<Rightarrow> memory_transactions" where
  "mt_markFailed i msg status now =
     mt_update i (\<lambda>r. r\<lparr>tx_status := status, tx_errorMessage := Some msg, tx_updatedAt := now\<rparr>)"

definition memory_transaction_repository :: "memory_transactions transaction_ops" where
  "memory_transaction_repository =
     \<lparr>xp_reserve = mt_reserve, xp_markPending = mt_markPending, xp_markCompleted = mt_markCompleted,
      xp_markFailed = mt_markFailed\<rparr>"

section \<open>The Postgres repository\<close>

type_synonym pg_transactions = "transaction_record list"

definition mapRow :: "transaction_record \<Rightarrow> transaction_record result" where
  "mapRow row =
     bind_result (js_BigInt (tx_amountMinorUnits row)) (\<lambda>m. Inr (row\<lparr>tx_amount := minorUnitsToNumber m\<rparr>))"

definition pt_reserve :: "reserve_input \<Rightarrow> int \<Rightarrow> (pg_transactions, bool \<times> transaction_record option) prog" where
  "pt_reserve input now t =
     (case parseMoneyToMinorUnits (ri_amount input) of
        Inl e \<Rightarrow> (Inl e, t)
      | Inr m \<Rightarrow>
          (case find (\<lambda>r. tx_transactionId r = ri_transactionId input) t of
             None \<Rightarrow>
               (let row = new_transaction_record input m now
                in (bind_result (mapRow row) (\<lambda>r. Inr (True, Some r)), t @ [row]))
           | Some row \<Rightarrow> (bind_result (mapRow row) (\<lambda>r. Inr (False, Some r)), t)))"

definition pt_update :: "string \<Rightarrow> (transaction_record \<Rightarrow> transaction_record) \<Rightarrow> pg_transactions \<Rightarrow> pg_transactions" where
  "pt_update i f t = map (\<lambda>r. if tx_transactionId r = i then f r else r) t"

definition pt_markPending :: "string \<Rightarrow> int \<Rightarrow> pg_transactions \<Rightarrow> pg_transactions" where
  "pt_markPending i now = pt_update i (\<lambda>r. r\<lparr>tx_status := PENDING, tx_updatedAt := now\<rparr>)"

definition pt_markCompleted :: "string \<Rightarrow> int \<Rightarrow> pg_transactions \<Rightarrow> pg_transactions" where
  "pt_markCompleted i now =
     pt_update i (\<lambda>r. r\<lparr>tx_status := COMPLETED_TRANSACTION, tx_errorMessage := None, tx_updatedAt := now\<rparr>)"

definition pt_markFailed :: "string \<Rightarrow> string \<Rightarrow> transaction_status \<Rightarrow> int \<Rightarrow> pg_transactions \<Rightarrow> pg_transactions" where
  "pt_markFailed i msg status now =
     pt_update i (\<lambda>r. r\<lparr>tx_status := status, tx_errorMessage := Some msg, tx_updatedAt := now\<rparr>)"

definition postgres_transaction_repository :: "pg_transactions transaction_ops" where
  "postgres_transaction_repository =
     \<lparr>xp_reserve = pt_reserve, xp_markPending = pt_markPending, xp_markCompleted = pt_markCompleted,
      xp_markFailed = pt_markFailed\<rparr>"

section \<open>The registry\<close>

definition ensureSameTransactionIntent :: "reserve_input \<Rightarrow> transaction_record \<Rightarrow> unit result" where
  "ensureSameTransactionIntent input rec =
     (let different = Inl (Conflict (''Transaction '' @ ri_transactionId input
            @ '' has already been used for a different money movement''))
      in if ri_accountId input \<noteq> tx_accountId rec \<or> ri_operationType input \<noteq> tx_operationType rec then different
         else bind_result (parseMoneyToMinorUnits (ri_amount input)) (\<lambda>m.
                if show_int m \<noteq> tx_amountMinorUnits rec \<or> ri_currency input \<noteq> tx_currency rec then different
                else Inr ()))"

text \<open>The part of \<open>execute\<close> before the handler; \<open>retryFailed\<close> is the option of that name.\<close>

definition transaction_begin ::
  "'t transaction_ops \<Rightarrow> reserve_input \<Rightarrow> bool \<Rightarrow> int \<Rightarrow> 't \<Rightarrow> string admission \<times> 't" where
  "transaction_begin ops input retryFailed now s =
     (let i = ri_transactionId input
      in case xp_reserve ops input now s of
           (Inl e, s') \<Rightarrow> (Reject e, s')
         | (Inr (created, rec), s') \<Rightarrow>
             (case (created, rec) of
                (False, Some r) \<Rightarrow>
                  (case ensureSameTransactionIntent input r of
                     Inl e \<Rightarrow> (Reject e, s')
                   | Inr _ \<Rightarrow>
                       (case tx_status r of
                          COMPLETED_TRANSACTION \<Rightarrow> (Replay ''accepted'', s')
                        | PENDING \<Rightarrow> (Reject (Conflict (''Transaction '' @ i @ '' is already in progress'')), s')
                        | FAILED_RETRYABLE \<Rightarrow>
                            if retryFailed then (Proceed, xp_markPending ops i now s')
                            else (Reject (Conflict (''Transaction '' @ i @ '' previously failed. Retry with a new transactionId.'')), s')
                        | FAILED_TERMINAL \<Rightarrow>
                            (Reject (Conflict (''Transaction '' @ i @ '' previously failed. Retry with a new transactionId.'')), s')))
              | _ \<Rightarrow> (Proceed, s')))"

definition transaction_finish ::
  "'t transaction_ops \<Rightarrow> (js_error \<Rightarrow> bool) \<Rightarrow> string \<Rightarrow> string result \<Rightarrow> int \<Rightarrow> 't \<Rightarrow> 't" where
  "transaction_finish ops isRetryableError i outcome now s =
     (case outcome of
        Inr _ \<Rightarrow> xp_markCompleted ops i now s
      | Inl e \<Rightarrow> xp_markFailed ops i (error_message e) (if isRetryableError e then FAILED_RETRYABLE else FAILED_TERMINAL) now s)"

definition transaction_execute ::
  "'t transaction_ops \<Rightarrow> ('w \<Rightarrow> int) \<Rightarrow> reserve_input \<Rightarrow> bool \<Rightarrow> (js_error \<Rightarrow> bool) \<Rightarrow> ('w, string) prog \<Rightarrow> ('t \<times> 'w, string) prog" where
  "transaction_execute ops clock input retryFailed isRetryableError handler s =
     (case transaction_begin ops input retryFailed (clock (snd s)) (fst s) of
        (Reject e, t) \<Rightarrow> (Inl e, (t, snd s))
      | (Replay response, t) \<Rightarrow> (Inr response, (t, snd s))
      | (Proceed, t) \<Rightarrow>
          (case handler (snd s) of
             (outcome, w) \<Rightarrow>
               (outcome, (transaction_finish ops isRetryableError (ri_transactionId input) outcome (clock w) t, w))))"

section \<open>What a record repository promises\<close>

definition set_status :: "transaction_status \<Rightarrow> string option \<Rightarrow> int \<Rightarrow> transaction_record \<Rightarrow> transaction_record" where
  "set_status st msg now r = r\<lparr>tx_status := st, tx_errorMessage := msg, tx_updatedAt := now\<rparr>"

lemma set_status_abs: "set_status st msg now = (\<lambda>r. r\<lparr>tx_status := st, tx_errorMessage := msg, tx_updatedAt := now\<rparr>)"
  by (simp add: set_status_def fun_eq_iff)

locale transaction_repository =
  fixes ops :: "'t transaction_ops"
    and inv :: "'t \<Rightarrow> bool"
    and lookup :: "'t \<Rightarrow> string \<rightharpoonup> transaction_record"
  assumes reserve_new: "inv s \<Longrightarrow> lookup s (ri_transactionId input) = None \<Longrightarrow>
      (case parseMoneyToMinorUnits (ri_amount input) of
         Inl e \<Rightarrow> xp_reserve ops input now s = (Inl e, s)
       | Inr m \<Rightarrow> \<exists>s'. xp_reserve ops input now s = (Inr (True, Some (new_transaction_record input m now)), s') \<and> inv s'
            \<and> lookup s' = (lookup s)(ri_transactionId input \<mapsto> new_transaction_record input m now))"
    and reserve_existing: "inv s \<Longrightarrow> lookup s (ri_transactionId input) = Some r \<Longrightarrow>
      xp_reserve ops input now s = (Inr (False, Some r), s)
      \<or> (\<exists>e. xp_reserve ops input now s = (Inl e, s) \<and> parseMoneyToMinorUnits (ri_amount input) = Inl e)"
    and marked_pending: "inv s \<Longrightarrow> inv (xp_markPending ops i now s)
      \<and> lookup (xp_markPending ops i now s) = (lookup s)(i := map_option (\<lambda>r. set_status PENDING (tx_errorMessage r) now r) (lookup s i))"
    and marked_completed: "inv s \<Longrightarrow> inv (xp_markCompleted ops i now s)
      \<and> lookup (xp_markCompleted ops i now s) = (lookup s)(i := map_option (set_status COMPLETED_TRANSACTION None now) (lookup s i))"
    and marked_failed: "inv s \<Longrightarrow> inv (xp_markFailed ops i msg st now s)
      \<and> lookup (xp_markFailed ops i msg st now s) = (lookup s)(i := map_option (set_status st (Some msg) now) (lookup s i))"

lemma mt_update_eq: "mt_update i f s = s(i := map_option f (s i))"
  by (auto simp: mt_update_def split: option.splits)

interpretation memory_transactions: transaction_repository memory_transaction_repository "\<lambda>_. True" "\<lambda>s. s"
proof unfold_locales
  fix s :: memory_transactions and input :: reserve_input and now
  assume "s (ri_transactionId input) = None"
  then show "case parseMoneyToMinorUnits (ri_amount input) of
         Inl e \<Rightarrow> xp_reserve memory_transaction_repository input now s = (Inl e, s)
       | Inr m \<Rightarrow> \<exists>s'. xp_reserve memory_transaction_repository input now s = (Inr (True, Some (new_transaction_record input m now)), s')
            \<and> True \<and> s' = s(ri_transactionId input \<mapsto> new_transaction_record input m now)"
    by (simp add: memory_transaction_repository_def mt_reserve_def Let_def split: sum.split)
qed (simp_all add: memory_transaction_repository_def mt_reserve_def mt_markPending_def mt_markCompleted_def
    mt_markFailed_def mt_update_eq set_status_def cong: option.map_cong)

text \<open>Rows hold decimal minor units and the number they stand for, so that reading one back changes nothing.\<close>

definition row_ok :: "transaction_record \<Rightarrow> bool" where
  "row_ok r \<longleftrightarrow> (\<exists>m. tx_amountMinorUnits r = show_int m \<and> tx_amount r = minorUnitsToNumber m)"

definition pt_inv :: "pg_transactions \<Rightarrow> bool" where
  "pt_inv t \<longleftrightarrow> distinct (map tx_transactionId t) \<and> (\<forall>r \<in> set t. row_ok r)"

definition pt_lookup :: "pg_transactions \<Rightarrow> string \<rightharpoonup> transaction_record" where
  "pt_lookup t i = find (\<lambda>r. tx_transactionId r = i) t"

lemma mapRow_ok: "row_ok r \<Longrightarrow> mapRow r = Inr r"
  by (auto simp: row_ok_def mapRow_def show_int_BigInt)

lemma row_ok_new: "row_ok (new_transaction_record input m now)"
  by (auto simp: row_ok_def new_transaction_record_def)

lemma pt_update_lookup:
  assumes "\<And>r. tx_transactionId (f r) = tx_transactionId r"
  shows "pt_lookup (pt_update i f t) = (pt_lookup t)(i := map_option f (pt_lookup t i))"
  by (induction t) (auto simp: pt_lookup_def pt_update_def fun_eq_iff assms)

lemma pt_update_inv:
  assumes "pt_inv t" "\<And>r. tx_transactionId (f r) = tx_transactionId r" "\<And>r. row_ok r \<Longrightarrow> row_ok (f r)"
  shows "pt_inv (pt_update i f t)"
proof -
  have "map tx_transactionId (pt_update i f t) = map tx_transactionId t"
    by (simp add: pt_update_def assms(2))
  then show ?thesis using assms(1,3) by (auto simp: pt_inv_def) (auto simp: pt_update_def)
qed

interpretation postgres_transactions: transaction_repository postgres_transaction_repository pt_inv pt_lookup
proof unfold_locales
  fix s and input :: reserve_input and now
  assume inv: "pt_inv s" and none: "pt_lookup s (ri_transactionId input) = None"
  show "case parseMoneyToMinorUnits (ri_amount input) of
         Inl e \<Rightarrow> xp_reserve postgres_transaction_repository input now s = (Inl e, s)
       | Inr m \<Rightarrow> \<exists>s'. xp_reserve postgres_transaction_repository input now s = (Inr (True, Some (new_transaction_record input m now)), s')
            \<and> pt_inv s' \<and> pt_lookup s' = (pt_lookup s)(ri_transactionId input \<mapsto> new_transaction_record input m now)"
  proof (cases "parseMoneyToMinorUnits (ri_amount input)")
    case (Inl e)
    then show ?thesis by (simp add: postgres_transaction_repository_def pt_reserve_def)
  next
    case (Inr m)
    let ?r = "new_transaction_record input m now"
    have i: "tx_transactionId ?r = ri_transactionId input" by (simp add: new_transaction_record_def)
    have "ri_transactionId input \<notin> tx_transactionId ` set s" using none by (auto simp: pt_lookup_def find_None_iff)
    then have "pt_inv (s @ [?r])" using inv by (simp add: pt_inv_def i row_ok_new)
    moreover have "pt_lookup (s @ [?r]) = (pt_lookup s)(ri_transactionId input \<mapsto> ?r)"
    proof -
      have "pt_lookup (t @ [?r]) j = (case pt_lookup t j of None \<Rightarrow> if tx_transactionId ?r = j then Some ?r else None | Some x \<Rightarrow> Some x)"
        for t j by (induction t) (auto simp: pt_lookup_def)
      then show ?thesis using none by (auto simp: fun_eq_iff i split: option.splits)
    qed
    moreover have "xp_reserve postgres_transaction_repository input now s = (Inr (True, Some ?r), s @ [?r])"
      using none Inr mapRow_ok [OF row_ok_new]
      by (simp add: postgres_transaction_repository_def pt_reserve_def pt_lookup_def Let_def)
    ultimately show ?thesis using Inr by simp
  qed
next
  fix s and input :: reserve_input and now r
  assume inv: "pt_inv s" and some: "pt_lookup s (ri_transactionId input) = Some r"
  have "r \<in> set s" using some by (auto simp: pt_lookup_def find_Some_iff)
  then have "mapRow r = Inr r" using inv by (simp add: pt_inv_def mapRow_ok)
  then show "xp_reserve postgres_transaction_repository input now s = (Inr (False, Some r), s)
      \<or> (\<exists>e. xp_reserve postgres_transaction_repository input now s = (Inl e, s) \<and> parseMoneyToMinorUnits (ri_amount input) = Inl e)"
    using some by (auto simp: postgres_transaction_repository_def pt_reserve_def pt_lookup_def split: sum.splits)
qed (auto simp: postgres_transaction_repository_def pt_markPending_def pt_markCompleted_def pt_markFailed_def
    pt_update_lookup set_status_abs row_ok_def intro!: pt_update_inv)

section \<open>Concurrent money movements\<close>

datatype transaction_label =
    TxBegin reserve_input bool "string admission"
  | TxFinish string "string result"

inductive transaction_step ::
  "'t transaction_ops \<Rightarrow> (js_error \<Rightarrow> bool) \<Rightarrow> 't \<times> (nat \<rightharpoonup> string) \<Rightarrow> transaction_label \<Rightarrow> 't \<times> (nat \<rightharpoonup> string) \<Rightarrow> bool"
  for ops retryable where
  ts_begin: "w i = None \<Longrightarrow> transaction_begin ops input retryFailed now s = (adm, s') \<Longrightarrow>
    transaction_step ops retryable (s, w) (TxBegin input retryFailed adm)
      (s', if adm = Proceed then w(i \<mapsto> ri_transactionId input) else w)"
| ts_finish: "w i = Some t \<Longrightarrow>
    transaction_step ops retryable (s, w) (TxFinish t outcome) (transaction_finish ops retryable t outcome now s, w(i := None))"

fun starts_movement :: "string \<Rightarrow> transaction_label \<Rightarrow> bool" where
  "starts_movement t (TxBegin input _ adm) = (ri_transactionId input = t \<and> adm = Proceed)"
| "starts_movement t (TxFinish _ _) = False"

fun succeeds :: "string \<Rightarrow> transaction_label \<Rightarrow> bool" where
  "succeeds t (TxBegin _ _ _) = False"
| "succeeds t (TxFinish t' outcome) = (t' = t \<and> (\<exists>x. outcome = Inr x))"

fun fails_retryably :: "(js_error \<Rightarrow> bool) \<Rightarrow> string \<Rightarrow> transaction_label \<Rightarrow> bool" where
  "fails_retryably retryable t (TxBegin _ _ _) = False"
| "fails_retryably retryable t (TxFinish t' outcome) = (t' = t \<and> (\<exists>e. outcome = Inl e \<and> retryable e))"

definition tally :: "('a \<Rightarrow> bool) \<Rightarrow> 'a list \<Rightarrow> nat" where
  "tally P xs = length (filter P xs)"

lemma tally_simps [simp]: "tally P [] = 0" "tally P (xs @ [x]) = (if P x then Suc (tally P xs) else tally P xs)"
  by (simp_all add: tally_def)

text \<open>The movement a request asks for, and the one a record stands for.\<close>

definition asks_for :: "reserve_input \<Rightarrow> transaction_record \<Rightarrow> bool" where
  "asks_for input r \<longleftrightarrow> ri_accountId input = tx_accountId r \<and> ri_operationType input = tx_operationType r
     \<and> ri_currency input = tx_currency r
     \<and> (\<exists>m. parseMoneyToMinorUnits (ri_amount input) = Inr m \<and> tx_amountMinorUnits r = show_int m)"

lemma ensureSame_iff: "ensureSameTransactionIntent input r = Inr () \<longleftrightarrow> asks_for input r"
  by (auto simp: ensureSameTransactionIntent_def asks_for_def Let_def bind_result_Inr_iff)

lemma asks_for_new: "parseMoneyToMinorUnits (ri_amount input) = Inr m \<Longrightarrow> asks_for input (new_transaction_record input m now)"
  by (simp add: asks_for_def new_transaction_record_def)

lemma asks_for_status [simp]: "asks_for input (set_status st msg now r) = asks_for input r"
  by (simp add: asks_for_def set_status_def)

lemma set_status_fields [simp]: "tx_status (set_status st msg now r) = st"
  by (simp add: set_status_def)

definition same_movement :: "reserve_input \<Rightarrow> reserve_input \<Rightarrow> bool" where
  "same_movement a b \<longleftrightarrow> ri_accountId a = ri_accountId b \<and> ri_operationType a = ri_operationType b
     \<and> ri_currency a = ri_currency b \<and> parseMoneyToMinorUnits (ri_amount a) = parseMoneyToMinorUnits (ri_amount b)"

lemma show_int_inj [simp]: "show_int a = show_int b \<longleftrightarrow> a = b"
  by (metis show_int_BigInt sum.inject(2))

lemma asks_for_same: "asks_for a r \<Longrightarrow> asks_for b r \<Longrightarrow> same_movement a b"
proof -
  assume a: "asks_for a r" and b: "asks_for b r"
  obtain m where m: "parseMoneyToMinorUnits (ri_amount a) = Inr m" "tx_amountMinorUnits r = show_int m"
    using a unfolding asks_for_def by blast
  obtain n where n: "parseMoneyToMinorUnits (ri_amount b) = Inr n" "tx_amountMinorUnits r = show_int n"
    using b unfolding asks_for_def by blast
  have "m = n" using m(2) n(2) by simp
  then show ?thesis using a b m(1) n(1) unfolding asks_for_def same_movement_def by (simp only:)
qed

context transaction_repository
begin

lemma begin_cases:
  assumes "inv s" "transaction_begin ops input retryFailed now s = (adm, s')"
  shows "(\<exists>e. adm = Reject e) \<and> s' = s
    \<or> (\<exists>r. adm = Replay ''accepted'' \<and> s' = s \<and> lookup s (ri_transactionId input) = Some r \<and> asks_for input r
         \<and> tx_status r = COMPLETED_TRANSACTION)
    \<or> (\<exists>m. adm = Proceed \<and> inv s' \<and> lookup s (ri_transactionId input) = None \<and> parseMoneyToMinorUnits (ri_amount input) = Inr m
         \<and> lookup s' = (lookup s)(ri_transactionId input \<mapsto> new_transaction_record input m now))
    \<or> (\<exists>r. adm = Proceed \<and> inv s' \<and> lookup s (ri_transactionId input) = Some r \<and> asks_for input r \<and> retryFailed
         \<and> tx_status r = FAILED_RETRYABLE
         \<and> lookup s' = (lookup s)(ri_transactionId input \<mapsto> set_status PENDING (tx_errorMessage r) now r))"
proof (cases "lookup s (ri_transactionId input)")
  case None
  note res = reserve_new [OF assms(1) None, of now]
  show ?thesis
  proof (cases "parseMoneyToMinorUnits (ri_amount input)")
    case (Inl e)
    then show ?thesis using res assms(2) by (auto simp: transaction_begin_def Let_def)
  next
    case (Inr m)
    then show ?thesis using res assms(2) None by (auto simp: transaction_begin_def Let_def)
  qed
next
  case (Some r)
  from reserve_existing [OF assms(1) Some, of now] show ?thesis
  proof
    assume res: "xp_reserve ops input now s = (Inr (False, Some r), s)"
    show ?thesis
    proof (cases "ensureSameTransactionIntent input r")
      case (Inl e)
      then show ?thesis using res assms(2) by (auto simp: transaction_begin_def Let_def)
    next
      case (Inr u)
      then have "asks_for input r" using ensureSame_iff by simp
      then show ?thesis using res assms Inr Some marked_pending [OF assms(1), of "ri_transactionId input" now]
        by (auto simp: transaction_begin_def Let_def split: transaction_status.splits if_splits)
    qed
  next
    assume "\<exists>e. xp_reserve ops input now s = (Inl e, s) \<and> parseMoneyToMinorUnits (ri_amount input) = Inl e"
    then show ?thesis using assms(2) by (auto simp: transaction_begin_def Let_def)
  qed
qed

text \<open>The record of a transaction counts its attempts.\<close>

definition tells :: "(js_error \<Rightarrow> bool) \<Rightarrow> transaction_label list \<Rightarrow> (nat \<rightharpoonup> string) \<Rightarrow> string \<Rightarrow> transaction_record option \<Rightarrow> bool" where
  "tells retryable ls w t rec \<longleftrightarrow>
     (case rec of
        None \<Rightarrow> tally (starts_movement t) ls = 0 \<and> tally (succeeds t) ls = 0 \<and> tally (fails_retryably retryable t) ls = 0
          \<and> (\<forall>i. w i \<noteq> Some t)
      | Some r \<Rightarrow>
          (\<forall>input b. TxBegin input b Proceed \<in> set ls \<longrightarrow> ri_transactionId input = t \<longrightarrow> asks_for input r)
          \<and> (\<forall>i j. w i = Some t \<longrightarrow> w j = Some t \<longrightarrow> i = j)
          \<and> (tx_status r \<noteq> PENDING \<longrightarrow> (\<forall>i. w i \<noteq> Some t))
          \<and> tally (succeeds t) ls = (if tx_status r = COMPLETED_TRANSACTION then 1 else 0)
          \<and> tally (starts_movement t) ls =
              tally (fails_retryably retryable t) ls + (if tx_status r = FAILED_RETRYABLE then 0 else 1))"

definition all_tell :: "(js_error \<Rightarrow> bool) \<Rightarrow> transaction_label list \<Rightarrow> 't \<times> (nat \<rightharpoonup> string) \<Rightarrow> bool" where
  "all_tell retryable ls c \<longleftrightarrow> inv (fst c) \<and> (\<forall>t. tells retryable ls (snd c) t (lookup (fst c) t))"

lemma tells_other:
  assumes "tells retryable ls w t rec" "\<not> starts_movement t l" "\<not> succeeds t l" "\<not> fails_retryably retryable t l"
    and "\<And>i. (w' i = Some t) = (w i = Some t)"
  shows "tells retryable (ls @ [l]) w' t rec"
  using assms by (cases l) (auto simp: tells_def split: option.splits)

lemma no_start: "tally (starts_movement t) ls = 0 \<Longrightarrow> TxBegin input b Proceed \<in> set ls \<Longrightarrow> ri_transactionId input \<noteq> t"
  by (auto simp: tally_def filter_empty_conv)

lemma step_tells:
  assumes "transaction_step ops retryable c l c'" "all_tell retryable ls c"
  shows "all_tell retryable (ls @ [l]) c'"
  using assms
proof cases
  case (ts_begin w i input retryFailed now s adm s')
  have inv: "inv s" and tells: "\<And>t. tells retryable ls w t (lookup s t)"
    using assms(2) by (auto simp: all_tell_def ts_begin)
  let ?t = "ri_transactionId input"
  have other: "tells retryable (ls @ [l]) (if adm = Proceed then w(i \<mapsto> ?t) else w) t (lookup s t)" if "t \<noteq> ?t" for t
    by (rule tells_other [OF tells]) (use that ts_begin(4) in \<open>auto simp: ts_begin(2)\<close>)
  from begin_cases [OF inv ts_begin(5)] show ?thesis
  proof (elim disjE)
    assume a: "(\<exists>e. adm = Reject e) \<and> s' = s"
    have "tells retryable (ls @ [l]) w t (lookup s t)" for t
      by (rule tells_other [OF tells]) (use a in \<open>auto simp: ts_begin(2)\<close>)
    then show ?thesis using a inv by (auto simp: all_tell_def ts_begin(3))
  next
    assume a: "\<exists>r. adm = Replay ''accepted'' \<and> s' = s \<and> lookup s ?t = Some r \<and> asks_for input r \<and> tx_status r = COMPLETED_TRANSACTION"
    have "tells retryable (ls @ [l]) w t (lookup s t)" for t
      by (rule tells_other [OF tells]) (use a in \<open>auto simp: ts_begin(2)\<close>)
    then show ?thesis using a inv by (auto simp: all_tell_def ts_begin(3))
  next
    assume "\<exists>m. adm = Proceed \<and> inv s' \<and> lookup s ?t = None \<and> parseMoneyToMinorUnits (ri_amount input) = Inr m
         \<and> lookup s' = (lookup s)(?t \<mapsto> new_transaction_record input m now)"
    then obtain m where m: "adm = Proceed" "inv s'" "lookup s ?t = None" "parseMoneyToMinorUnits (ri_amount input) = Inr m"
        "lookup s' = (lookup s)(?t \<mapsto> new_transaction_record input m now)" by blast
    have none: "tally (starts_movement ?t) ls = 0" "tally (succeeds ?t) ls = 0" "tally (fails_retryably retryable ?t) ls = 0"
        "\<forall>j. w j \<noteq> Some ?t"
      using tells [of ?t] m(3) by (simp_all add: tells_def)
    have "tells retryable (ls @ [l]) (w(i \<mapsto> ?t)) ?t (Some (new_transaction_record input m now))"
      using none no_start [OF none(1)] asks_for_new [OF m(4), of now] m(1)
      by (auto simp: tells_def ts_begin(2)) (auto simp: new_transaction_record_def)
    then show ?thesis using other m(1,2,5) by (auto simp: all_tell_def ts_begin(3))
  next
    assume "\<exists>r. adm = Proceed \<and> inv s' \<and> lookup s ?t = Some r \<and> asks_for input r \<and> retryFailed \<and> tx_status r = FAILED_RETRYABLE
         \<and> lookup s' = (lookup s)(?t \<mapsto> set_status PENDING (tx_errorMessage r) now r)"
    then obtain r where r: "adm = Proceed" "inv s'" "lookup s ?t = Some r" "asks_for input r" "tx_status r = FAILED_RETRYABLE"
        "lookup s' = (lookup s)(?t \<mapsto> set_status PENDING (tx_errorMessage r) now r)" by blast
    have "tells retryable (ls @ [l]) (w(i \<mapsto> ?t)) ?t (Some (set_status PENDING (tx_errorMessage r) now r))"
      using tells [of ?t] r by (auto simp: tells_def ts_begin(2))
    then show ?thesis using other r(1,2,6) by (auto simp: all_tell_def ts_begin(3))
  qed
next
  case (ts_finish w i t s outcome now)
  have inv: "inv s" and tells: "\<And>t. tells retryable ls w t (lookup s t)"
    using assms(2) by (auto simp: all_tell_def ts_finish)
  obtain r where r: "lookup s t = Some r" using tells [of t] ts_finish(4) by (auto simp: tells_def split: option.splits)
  have alone: "j = i" if "w j = Some t" for j using tells [of t] r ts_finish(4) that by (auto simp: tells_def)
  have pending: "tx_status r = PENDING" using tells [of t] r ts_finish(4) by (auto simp: tells_def)
  let ?s = "transaction_finish ops retryable t outcome now s"
  have fin: "inv ?s" "lookup ?s = (lookup s)(t \<mapsto> (case outcome of
        Inr x \<Rightarrow> set_status COMPLETED_TRANSACTION None now r
      | Inl e \<Rightarrow> set_status (if retryable e then FAILED_RETRYABLE else FAILED_TERMINAL) (Some (error_message e)) now r))"
    using marked_completed [OF inv] marked_failed [OF inv] r by (auto simp: transaction_finish_def split: sum.splits)
  have "tells retryable (ls @ [l]) (w(i := None)) t (lookup ?s t)"
    using tells [of t] r pending alone by (auto simp: tells_def fin(2) ts_finish(2) split: sum.splits)
  moreover have "tells retryable (ls @ [l]) (w(i := None)) t' (lookup ?s t')" if "t' \<noteq> t" for t'
    using tells_other [OF tells [of t'], of l "w(i := None)"] that ts_finish(4) by (auto simp: fin(2) ts_finish(2))
  ultimately show ?thesis using fin(1) unfolding all_tell_def by (metis fst_conv snd_conv ts_finish(3))
qed

lemma path_tells:
  assumes "path (transaction_step ops retryable) (s0, Map.empty) ls c" "inv s0" "\<forall>t. lookup s0 t = None"
  shows "all_tell retryable ls c"
  using assms
proof (induction "(s0, Map.empty :: nat \<rightharpoonup> string)" ls c rule: path.induct)
  case path_Nil
  then show ?case by (simp add: all_tell_def tells_def)
next
  case (path_snoc ls q l r)
  then show ?case using step_tells by blast
qed

lemma movement_at_most_once:
  assumes "path (transaction_step ops retryable) (s0, Map.empty) ls c" "inv s0" "\<forall>t. lookup s0 t = None"
  shows "tally (succeeds t) ls \<le> 1 \<and> tally (starts_movement t) ls \<le> 1 + tally (fails_retryably retryable t) ls
    \<and> (\<forall>a b x y. TxBegin a x Proceed \<in> set ls \<longrightarrow> TxBegin b y Proceed \<in> set ls \<longrightarrow>
          ri_transactionId a = t \<longrightarrow> ri_transactionId b = t \<longrightarrow> same_movement a b)"
proof -
  have tells: "tells retryable ls (snd c) t (lookup (fst c) t)" using path_tells [OF assms] by (simp add: all_tell_def)
  show ?thesis
  proof (cases "lookup (fst c) t")
    case None
    then show ?thesis using tells no_start [of t ls] by (auto simp: tells_def)
  next
    case (Some r)
    then have asks: "\<And>input b. TxBegin input b Proceed \<in> set ls \<Longrightarrow> ri_transactionId input = t \<Longrightarrow> asks_for input r"
      and counts: "tally (succeeds t) ls \<le> 1" "tally (starts_movement t) ls \<le> 1 + tally (fails_retryably retryable t) ls"
      using tells by (auto simp: tells_def)
    then show ?thesis using asks_for_same [of _ r] by blast
  qed
qed

end

section \<open>Properties\<close>


definition sample_movement :: reserve_input where
  "sample_movement = \<lparr>ri_transactionId = ''T:debit'', ri_accountId = ''a'', ri_operationType = WITHDRAW,
     ri_amount = StringAmount ''5.00'', ri_currency = ''USD'', ri_idempotencyKey = None\<rparr>"


section \<open>Lost attempts\<close>

context transaction_repository
begin

lemma pending_reject:
  assumes "inv s" "lookup s (ri_transactionId input) = Some r" "tx_status r = PENDING"
    and "transaction_begin ops input retryFailed now s = (adm, s')"
  shows "(\<exists>e. adm = Reject e) \<and> s' = s"
  using begin_cases [OF assms(1,4)] assms(2,3) by auto

lemma begin_other:
  assumes "inv s" "transaction_begin ops input retryFailed now s = (adm, s')" "ri_transactionId input \<noteq> t"
  shows "inv s' \<and> lookup s' t = lookup s t"
  using begin_cases [OF assms(1,2)] assms(1,3) by auto

lemma finish_other:
  assumes "inv s" "t' \<noteq> t"
  shows "inv (transaction_finish ops retryable t' outcome now s)
    \<and> lookup (transaction_finish ops retryable t' outcome now s) t = lookup s t"
  using marked_completed [OF assms(1), of t' now] marked_failed [OF assms(1), of t'] assms(2)
  by (auto simp: transaction_finish_def split: sum.splits)

lemma lost_attempt:
  assumes "path (transaction_step ops retryable) c ls d" "inv (fst c)" "lookup (fst c) t = Some r" "tx_status r = PENDING"
    and "\<And>outcome. TxFinish t outcome \<notin> set ls"
  shows "inv (fst d) \<and> lookup (fst d) t = Some r
    \<and> (\<forall>input retryFailed adm. TxBegin input retryFailed adm \<in> set ls \<longrightarrow> ri_transactionId input = t \<longrightarrow> (\<exists>e. adm = Reject e))"
  using assms
proof (induction rule: path.induct)
  case (path_snoc p ls q l u)
  then have ih: "inv (fst q)" "lookup (fst q) t = Some r" by auto
  from path_snoc.hyps(2) show ?case
  proof cases
    case (ts_begin w i input retryFailed now s adm s')
    show ?thesis
    proof (cases "ri_transactionId input = t")
      case True
      then show ?thesis using pending_reject [of s input r] ts_begin ih path_snoc by auto
    next
      case False
      then show ?thesis using begin_other [of s input retryFailed now adm s' t] ts_begin ih path_snoc by auto
    qed
  next
    case (ts_finish w i t' s outcome now)
    then have "t' \<noteq> t" using path_snoc.prems(4) by auto
    then show ?thesis using finish_other [of s t'] ts_finish ih path_snoc by auto
  qed
qed simp

end

text \<open>C10: An attempt whose process dies between \<open>reserve\<close> and \<open>markCompleted\<close> or \<open>markFailed\<close> is never taken up again: its
  record stays \<open>PENDING\<close> and every later attempt of the transaction, of whatever instance, is refused as already in
  progress.  A transfer that was in this leg is never completed, failed or compensated.\<close>

theorem lost_attempt_blocks_the_transaction:
  assumes "path (transaction_step postgres_transaction_repository retryable) (s, w) ls (s', w')"
    and "pt_inv s" "pt_lookup s t = Some r" "tx_status r = PENDING"
    and "\<And>outcome. TxFinish t outcome \<notin> set ls"
  shows "pt_lookup s' t = Some r
    \<and> (\<forall>input retryFailed adm. TxBegin input retryFailed adm \<in> set ls \<longrightarrow> ri_transactionId input = t \<longrightarrow> (\<exists>e. adm = Reject e))"
  using postgres_transactions.lost_attempt [OF assms(1)] assms(2-5) by simp

theorem lost_attempt_blocks_the_transaction_witness:
  "\<exists>adm t. transaction_begin postgres_transaction_repository sample_movement True 0 [new_transaction_record sample_movement 500 0] = (adm, t)
     \<and> (\<exists>e. adm = Reject e) \<and> pt_lookup t ''T:debit'' = pt_lookup [new_transaction_record sample_movement 500 0] ''T:debit''"
proof -
  let ?r = "new_transaction_record sample_movement 500 0"
  obtain adm t where step: "transaction_begin postgres_transaction_repository sample_movement True 0 [?r] = (adm, t)" by fastforce
  have rec: "pt_inv [?r]" "pt_lookup [?r] ''T:debit'' = Some ?r" "tx_status ?r = PENDING"
    using row_ok_new [of sample_movement 500 0] by (simp_all add: pt_inv_def pt_lookup_def new_transaction_record_def sample_movement_def)
  have "transaction_step postgres_transaction_repository (\<lambda>e. True) ([?r], Map.empty) (TxBegin sample_movement True adm)
      (t, if adm = Proceed then Map.empty(0 \<mapsto> ri_transactionId sample_movement) else Map.empty)"
    by (rule ts_begin [OF _ step]) simp
  then have "path (transaction_step postgres_transaction_repository (\<lambda>e. True)) ([?r], Map.empty) [TxBegin sample_movement True adm]
      (t, if adm = Proceed then Map.empty(0 \<mapsto> ri_transactionId sample_movement) else Map.empty)"
    by (rule path_single)
  from lost_attempt_blocks_the_transaction [OF this rec] step rec(2) show ?thesis
    by (auto simp: sample_movement_def)
qed

end
