(* ===== verification/Coordinator.thy ===== *)
theory Coordinator
  imports Transactions
begin

text \<open>
  \<open>transfer-coordinator.service.ts\<close>: the background service that carries transfers through their debit,
  their credit and, after a failed credit, their compensation.  Metrics and logging are left out.
\<close>

section \<open>State and dependencies\<close>

text \<open>The shared stores and the transaction records.\<close>

record ('es, 'ss, 't) bank =
  bk_stores :: "('es, 'ss) stores"
  bk_txns :: 't

record ('es, 'ss, 't) bank_deps =
  bd_deps :: "('es, 'ss) deps"
  bd_txns :: "'t transaction_ops"
  bd_clock :: "('es, 'ss) stores \<Rightarrow> int"

definition via_stores :: "(('es, 'ss) stores, 'a) prog \<Rightarrow> (('es, 'ss, 't) bank, 'a) prog" where
  "via_stores m = on_field bk_stores (\<lambda>s b. b\<lparr>bk_stores := s\<rparr>) m"

section \<open>Errors\<close>

text \<open>\<open>s.str_includes(pat)\<close>.\<close>

fun str_includes :: "string \<Rightarrow> string \<Rightarrow> bool" where
  "str_includes [] pat = (pat = [])"
| "str_includes (c # s) pat = (prefix pat (c # s) \<or> str_includes s pat)"

definition isTerminalDomainError :: "js_error \<Rightarrow> bool" where
  "isTerminalDomainError e =
     list_ex (\<lambda>m. str_includes (error_message e) m)
       [''Insufficient funds'', ''Account is not active'', ''Currency mismatch'', ''not found'']"

definition isRetryableError :: "js_error \<Rightarrow> bool" where
  "isRetryableError e = (case e of RetryableTransfer _ \<Rightarrow> True | _ \<Rightarrow> False)"

definition makeContext :: "string \<Rightarrow> string \<Rightarrow> command_context" where
  "makeContext transferId uuid =
     \<lparr>ctx_commandId = uuid, ctx_correlationId = transferId,
      ctx_causationId = Some (''transfer-coordinator:'' @ transferId), ctx_actor = Some ''transfer-coordinator'',
      ctx_traceId = None\<rparr>"

section \<open>The registry around an account command\<close>

definition movement_handler ::
  "('es, 'ss, 't) bank_deps \<Rightarrow> string \<Rightarrow> account_command \<Rightarrow> command_context \<Rightarrow> (('es, 'ss) stores, string) prog" where
  "movement_handler d accountId c context =
     and_then (account_handler (bd_deps d) accountId c context) (\<lambda>_. returns ''accepted'')"

definition registry_execute ::
  "('es, 'ss, 't) bank_deps \<Rightarrow> reserve_input \<Rightarrow> (('es, 'ss) stores, string) prog \<Rightarrow> (('es, 'ss, 't) bank, string) prog" where
  "registry_execute d input handler =
     on_field (\<lambda>b. (bk_txns b, bk_stores b)) (\<lambda>(t, s) b. b\<lparr>bk_stores := s, bk_txns := t\<rparr>)
       (transaction_execute (bd_txns d) (bd_clock d) input True isRetryableError handler)"

text \<open>The coordinator gives the amount in minor units as the text of the registry's amount.\<close>

definition movement_input :: "transfer_state \<Rightarrow> string \<Rightarrow> string option \<Rightarrow> operation_type \<Rightarrow> reserve_input" where
  "movement_input t transactionId accountId op =
     \<lparr>ri_transactionId = transactionId, ri_accountId = show_opt accountId, ri_operationType = op,
      ri_amount = StringAmount (show_int (tr_amountMinorUnits t)), ri_currency = show_opt (tr_currency t),
      ri_idempotencyKey = tr_transferId t\<rparr>"

section \<open>The three stages\<close>

definition processDebit ::
  "('es, 'ss, 't) bank_deps \<Rightarrow> string \<Rightarrow> command_context \<Rightarrow> string \<Rightarrow> (('es, 'ss, 't) bank, unit) prog" where
  "processDebit d transferId context transactionId b =
     (case transfer_getById (bd_deps d) transferId (bk_stores b) of
        Inl e \<Rightarrow> (Inl e, b)
      | Inr a \<Rightarrow>
          (let t = fst a
           in and_then
                (if tr_status t = Some T_INITIATED \<or> tr_status t = Some T_DEBIT_IN_PROGRESS
                 then via_stores (transfer_handler (bd_deps d) transferId (StartDebitTransfer transactionId) context)
                 else returns ())
                (\<lambda>_. catching
                  (and_then
                    (registry_execute d (movement_input t transactionId (tr_sourceAccountId t) WITHDRAW)
                      (movement_handler d (show_opt (tr_sourceAccountId t))
                        (WithdrawMoney (NumberAmount (minorUnitsToNumber (tr_amountMinorUnits t)))
                          (show_opt (tr_currency t)) transactionId) context))
                    (\<lambda>_. via_stores (transfer_handler (bd_deps d) transferId MarkTransferDebited context)))
                  (\<lambda>e. if isTerminalDomainError e
                       then via_stores (transfer_handler (bd_deps d) transferId (FailTransfer (error_message e) DEBIT) context)
                       else throws (RetryableTransfer (error_message e)))) b))"

definition processCredit ::
  "('es, 'ss, 't) bank_deps \<Rightarrow> string \<Rightarrow> command_context \<Rightarrow> string \<Rightarrow> (('es, 'ss, 't) bank, unit) prog" where
  "processCredit d transferId context transactionId b =
     (case transfer_getById (bd_deps d) transferId (bk_stores b) of
        Inl e \<Rightarrow> (Inl e, b)
      | Inr a \<Rightarrow>
          (let t = fst a
           in and_then
                (if tr_status t = Some T_DEBITED \<or> tr_status t = Some T_CREDIT_IN_PROGRESS
                 then via_stores (transfer_handler (bd_deps d) transferId (StartCreditTransfer transactionId) context)
                 else returns ())
                (\<lambda>_. catching
                  (and_then
                    (registry_execute d (movement_input t transactionId (tr_destinationAccountId t) DEPOSIT)
                      (movement_handler d (show_opt (tr_destinationAccountId t))
                        (DepositMoney (NumberAmount (minorUnitsToNumber (tr_amountMinorUnits t)))
                          (show_opt (tr_currency t)) transactionId) context))
                    (\<lambda>_. via_stores (transfer_handler (bd_deps d) transferId CompleteTransfer context)))
                  (\<lambda>e. if isTerminalDomainError e
                       then via_stores (transfer_handler (bd_deps d) transferId (FailTransfer (error_message e) CREDIT) context)
                       else throws (RetryableTransfer (error_message e)))) b))"

definition processCompensation ::
  "('es, 'ss, 't) bank_deps \<Rightarrow> string \<Rightarrow> command_context \<Rightarrow> string \<Rightarrow> (('es, 'ss, 't) bank, unit) prog" where
  "processCompensation d transferId context transactionId b =
     (case transfer_getById (bd_deps d) transferId (bk_stores b) of
        Inl e \<Rightarrow> (Inl e, b)
      | Inr a \<Rightarrow>
          (let t = fst a
           in and_then
                (if tr_status t = Some T_FAILED \<or> tr_status t = Some T_COMPENSATION_IN_PROGRESS
                 then via_stores (transfer_handler (bd_deps d) transferId (StartTransferCompensation transactionId) context)
                 else returns ())
                (\<lambda>_. catching
                  (and_then
                    (registry_execute d (movement_input t transactionId (tr_sourceAccountId t) DEPOSIT)
                      (movement_handler d (show_opt (tr_sourceAccountId t))
                        (DepositMoney (NumberAmount (minorUnitsToNumber (tr_amountMinorUnits t)))
                          (show_opt (tr_currency t)) transactionId) context))
                    (\<lambda>_. via_stores (transfer_handler (bd_deps d) transferId CompleteTransferCompensation context)))
                  (\<lambda>e. throws (RetryableTransfer (error_message e)))) b))"

section \<open>One transfer, and a round\<close>

definition or_else :: "string option \<Rightarrow> string \<Rightarrow> string" where
  "or_else v x = (case v of None \<Rightarrow> x | Some y \<Rightarrow> y)"

text \<open>
  The switch of \<open>processTransfer\<close>.  Everything inside its \<open>try\<close> only logs an error; loading the transfer is
  outside of it.
\<close>

definition processTransfer :: "('es, 'ss, 't) bank_deps \<Rightarrow> string \<Rightarrow> (('es, 'ss, 't) bank, unit) prog" where
  "processTransfer d transferId b =
     (case transfer_getById (bd_deps d) transferId (bk_stores b) of
        Inl e \<Rightarrow> (Inl e, b)
      | Inr a \<Rightarrow>
          (let t = fst a; i = show_opt (tr_transferId t);
               context = makeContext transferId (st_uuid (dp_stamps (bd_deps d) (st_tick (bk_stores b))))
           in catching
                (case tr_status t of
                   Some T_INITIATED \<Rightarrow> processDebit d i context (or_else (tr_sourceDebitTransactionId t) (i @ '':debit''))
                 | Some T_DEBIT_IN_PROGRESS \<Rightarrow> processDebit d i context (or_else (tr_sourceDebitTransactionId t) (i @ '':debit''))
                 | Some T_DEBITED \<Rightarrow> processCredit d i context (or_else (tr_destinationCreditTransactionId t) (i @ '':credit''))
                 | Some T_CREDIT_IN_PROGRESS \<Rightarrow>
                     processCredit d i context (or_else (tr_destinationCreditTransactionId t) (i @ '':credit''))
                 | Some T_FAILED \<Rightarrow>
                     if tr_failureStage t = Some CREDIT
                     then processCompensation d i context (or_else (tr_compensationTransactionId t) (i @ '':compensation''))
                     else returns ()
                 | Some T_COMPENSATION_IN_PROGRESS \<Rightarrow>
                     processCompensation d i context (or_else (tr_compensationTransactionId t) (i @ '':compensation''))
                 | _ \<Rightarrow> returns ())
                (\<lambda>_. returns ()) b))"

text \<open>A round over the transfers the read model lists as pending.\<close>

definition processPendingTransfersOnce :: "('es, 'ss, 't) bank_deps \<Rightarrow> string list \<Rightarrow> (('es, 'ss, 't) bank, unit) prog" where
  "processPendingTransfersOnce d pending = for_each (processTransfer d) pending"

end
