(* ===== verification/Saga.thy ===== *)
theory Saga
  imports Coordinator
begin

text \<open>
  Any number of transfer coordinators working on one transfer at the same time, with the clients of the
  service and with crashes: the calls of \<open>transfer-coordinator.service.ts\<close> as the steps of a transition
  system over the shared stores and the transaction records.
\<close>

section \<open>The legs of a transfer\<close>

datatype leg = LegDebit | LegCredit | LegCompensation

fun leg_id :: "string \<Rightarrow> leg \<Rightarrow> string" where
  "leg_id transferId LegDebit = transferId @ '':debit''"
| "leg_id transferId LegCredit = transferId @ '':credit''"
| "leg_id transferId LegCompensation = transferId @ '':compensation''"

fun leg_party :: "leg \<Rightarrow> transfer_state \<Rightarrow> string option" where
  "leg_party LegDebit t = tr_sourceAccountId t"
| "leg_party LegCredit t = tr_destinationAccountId t"
| "leg_party LegCompensation t = tr_sourceAccountId t"

fun leg_type :: "leg \<Rightarrow> operation_type" where
  "leg_type LegDebit = WITHDRAW"
| "leg_type LegCredit = DEPOSIT"
| "leg_type LegCompensation = DEPOSIT"

fun leg_resumes :: "leg \<Rightarrow> transfer_status option \<Rightarrow> bool" where
  "leg_resumes LegDebit s = (s = Some T_INITIATED \<or> s = Some T_DEBIT_IN_PROGRESS)"
| "leg_resumes LegCredit s = (s = Some T_DEBITED \<or> s = Some T_CREDIT_IN_PROGRESS)"
| "leg_resumes LegCompensation s = (s = Some T_FAILED \<or> s = Some T_COMPENSATION_IN_PROGRESS)"

fun leg_start :: "leg \<Rightarrow> string \<Rightarrow> transfer_command" where
  "leg_start LegDebit transactionId = StartDebitTransfer transactionId"
| "leg_start LegCredit transactionId = StartCreditTransfer transactionId"
| "leg_start LegCompensation transactionId = StartTransferCompensation transactionId"

fun leg_done :: "leg \<Rightarrow> transfer_command" where
  "leg_done LegDebit = MarkTransferDebited"
| "leg_done LegCredit = CompleteTransfer"
| "leg_done LegCompensation = CompleteTransferCompensation"

text \<open>The stage under which a leg's failure is reported; the compensation's never is.\<close>

fun leg_stage :: "leg \<Rightarrow> stage option" where
  "leg_stage LegDebit = Some DEBIT"
| "leg_stage LegCredit = Some CREDIT"
| "leg_stage LegCompensation = None"

definition leg_command :: "leg \<Rightarrow> transfer_state \<Rightarrow> string \<Rightarrow> account_command" where
  "leg_command l t transactionId =
     (let amount = NumberAmount (minorUnitsToNumber (tr_amountMinorUnits t)); currency = show_opt (tr_currency t)
      in if leg_type l = WITHDRAW then WithdrawMoney amount currency transactionId
         else DepositMoney amount currency transactionId)"

definition leg_input :: "leg \<Rightarrow> transfer_state \<Rightarrow> string \<Rightarrow> reserve_input" where
  "leg_input l t transactionId = movement_input t transactionId (leg_party l t) (leg_type l)"

definition leg_catch ::
  "('es, 'ss, 't) bank_deps \<Rightarrow> leg \<Rightarrow> string \<Rightarrow> command_context \<Rightarrow> js_error \<Rightarrow> (('es, 'ss, 't) bank, unit) prog" where
  "leg_catch d l transferId context e =
     (case leg_stage l of
        Some stage \<Rightarrow>
          if isTerminalDomainError e
          then via_stores (transfer_handler (bd_deps d) transferId (FailTransfer (error_message e) stage) context)
          else throws (RetryableTransfer (error_message e))
      | None \<Rightarrow> throws (RetryableTransfer (error_message e)))"

definition process_leg ::
  "('es, 'ss, 't) bank_deps \<Rightarrow> leg \<Rightarrow> string \<Rightarrow> command_context \<Rightarrow> string \<Rightarrow> (('es, 'ss, 't) bank, unit) prog" where
  "process_leg d l transferId context transactionId b =
     (case transfer_getById (bd_deps d) transferId (bk_stores b) of
        Inl e \<Rightarrow> (Inl e, b)
      | Inr a \<Rightarrow>
          and_then
            (if leg_resumes l (tr_status (fst a))
             then via_stores (transfer_handler (bd_deps d) transferId (leg_start l transactionId) context)
             else returns ())
            (\<lambda>_. catching
              (and_then
                (registry_execute d (leg_input l (fst a) transactionId)
                  (movement_handler d (show_opt (leg_party l (fst a))) (leg_command l (fst a) transactionId) context))
                (\<lambda>_. via_stores (transfer_handler (bd_deps d) transferId (leg_done l) context)))
              (leg_catch d l transferId context)) b)"

text \<open>The three stages of the coordinator are one program with the leg as its parameter.\<close>

lemma stages_are_legs:
  "processDebit d = process_leg d LegDebit"
  "processCredit d = process_leg d LegCredit"
  "processCompensation d = process_leg d LegCompensation"
  by (rule ext, rule ext, rule ext, rule ext,
      simp add: processDebit_def processCredit_def processCompensation_def process_leg_def leg_catch_def [abs_def]
        leg_input_def leg_command_def Let_def split: sum.split)+

text \<open>The leg a transfer is due for, and the transaction id it runs under: the switch of \<open>processTransfer\<close>.\<close>

definition due_leg :: "transfer_state \<Rightarrow> (leg \<times> string) option" where
  "due_leg t =
     (let i = show_opt (tr_transferId t)
      in case tr_status t of
           Some T_INITIATED \<Rightarrow> Some (LegDebit, or_else (tr_sourceDebitTransactionId t) (i @ '':debit''))
         | Some T_DEBIT_IN_PROGRESS \<Rightarrow> Some (LegDebit, or_else (tr_sourceDebitTransactionId t) (i @ '':debit''))
         | Some T_DEBITED \<Rightarrow> Some (LegCredit, or_else (tr_destinationCreditTransactionId t) (i @ '':credit''))
         | Some T_CREDIT_IN_PROGRESS \<Rightarrow> Some (LegCredit, or_else (tr_destinationCreditTransactionId t) (i @ '':credit''))
         | Some T_FAILED \<Rightarrow>
             if tr_failureStage t = Some CREDIT
             then Some (LegCompensation, or_else (tr_compensationTransactionId t) (i @ '':compensation'')) else None
         | Some T_COMPENSATION_IN_PROGRESS \<Rightarrow>
             Some (LegCompensation, or_else (tr_compensationTransactionId t) (i @ '':compensation''))
         | _ \<Rightarrow> None)"

lemma processTransfer_due:
  "processTransfer d transferId b =
     (case transfer_getById (bd_deps d) transferId (bk_stores b) of
        Inl e \<Rightarrow> (Inl e, b)
      | Inr a \<Rightarrow>
          (case due_leg (fst a) of
             None \<Rightarrow> (Inr (), b)
           | Some (l, transactionId) \<Rightarrow>
               catching (process_leg d l (show_opt (tr_transferId (fst a)))
                   (makeContext transferId (st_uuid (dp_stamps (bd_deps d) (st_tick (bk_stores b))))) transactionId)
                 (\<lambda>_. returns ()) b))"
  by (auto simp: processTransfer_def due_leg_def stages_are_legs Let_def catching_def
      split: sum.split option.split transfer_status.split)

section \<open>Coordinators at work\<close>

text \<open>
  How far a coordinator has come with the transfer: it has chosen the leg, loaded the transfer again,
  recorded the start, been admitted by the registry, run the account command, had the registry's answer,
  or caught an error.
\<close>

datatype job =
    Chosen leg string
  | Loaded leg string transfer_state
  | Started leg string transfer_state
  | Admitted leg string transfer_state
  | Ran leg string transfer_state "string result"
  | Answered leg string
  | Failing leg js_error

type_synonym ('es, 'ss, 't) saga = "('es, 'ss) stores \<times> 't \<times> (nat \<rightharpoonup> job)"

datatype saga_label = Coordinator nat | Client

fun command_id :: "account_command \<Rightarrow> string option" where
  "command_id (DepositMoney _ _ transactionId) = Some transactionId"
| "command_id (WithdrawMoney _ _ transactionId) = Some transactionId"
| "command_id _ = None"

definition leg_ids :: "string \<Rightarrow> string set" where
  "leg_ids transferId = range (leg_id transferId)"

text \<open>The message of a transfer write that met three concurrent writes.\<close>

definition transfer_conflict :: "string \<Rightarrow> string" where
  "transfer_conflict T = ''Concurrent modification detected for transfer '' @ T @ ''. All 3 write attempts failed.''"

text \<open>
  The steps.  Each call a coordinator makes is one step: a command handler takes effect at its append
  (or at its load, when it is refused), and when other instances interfere it may fail with a conflict
  instead.  Reading the clock and making command contexts is left free.  Between any two steps of a
  coordinator, others work on the same transfer, it may die (\<open>sg_stop\<close>), and the clients run
  commands of their own: account commands and registry calls under transaction ids that are not the
  transfer's, commands to other transfers, and requests to initiate any transfer.
\<close>

inductive saga_step ::
  "('es, 'ss, 't) bank_deps \<Rightarrow> string \<Rightarrow> ('es, 'ss, 't) saga \<Rightarrow> saga_label \<Rightarrow> ('es, 'ss, 't) saga \<Rightarrow> bool"
  for d T where
  sg_choose: "w i = None \<Longrightarrow> transfer_getById (bd_deps d) T s = Inr a \<Longrightarrow> due_leg (fst a) = Some (l, x) \<Longrightarrow>
    saga_step d T (s, t, w) (Coordinator i) (s, t, w(i \<mapsto> Chosen l x))"
| sg_load: "w i = Some (Chosen l x) \<Longrightarrow> transfer_getById (bd_deps d) T s = Inr a \<Longrightarrow>
    saga_step d T (s, t, w) (Coordinator i) (s, t, w(i \<mapsto> Loaded l x (fst a)))"
| sg_start: "w i = Some (Loaded l x y) \<Longrightarrow> leg_resumes l (tr_status y) \<Longrightarrow>
    transfer_handler (bd_deps d) T (leg_start l x) context s = (r, s') \<Longrightarrow>
    saga_step d T (s, t, w) (Coordinator i) (s', t, w(i := (case r of Inr _ \<Rightarrow> Some (Started l x y) | Inl _ \<Rightarrow> None)))"
| sg_skip: "w i = Some (Loaded l x y) \<Longrightarrow> \<not> leg_resumes l (tr_status y) \<Longrightarrow>
    saga_step d T (s, t, w) (Coordinator i) (s, t, w(i \<mapsto> Started l x y))"
| sg_admit: "w i = Some (Started l x y) \<Longrightarrow> transaction_begin (bd_txns d) (leg_input l y x) True now t = (adm, t') \<Longrightarrow>
    saga_step d T (s, t, w) (Coordinator i) (s, t', w(i \<mapsto>
      (case adm of Proceed \<Rightarrow> Admitted l x y | Replay _ \<Rightarrow> Answered l x | Reject e \<Rightarrow> Failing l e)))"
| sg_run: "w i = Some (Admitted l x y) \<Longrightarrow>
    movement_handler d (show_opt (leg_party l y)) (leg_command l y x) context s = (r, s') \<Longrightarrow>
    saga_step d T (s, t, w) (Coordinator i) (s', t, w(i \<mapsto> Ran l x y r))"
| sg_conflict: "w i = Some (Admitted l x y) \<Longrightarrow>
    saga_step d T (s, t, w) (Coordinator i) (s, t, w(i \<mapsto> Ran l x y (Inl (Conflict msg))))"
| sg_finish: "w i = Some (Ran l x y r) \<Longrightarrow>
    saga_step d T (s, t, w) (Coordinator i) (s, transaction_finish (bd_txns d) isRetryableError x r now t,
      w(i \<mapsto> (case r of Inr _ \<Rightarrow> Answered l x | Inl e \<Rightarrow> Failing l e)))"
| sg_done: "w i = Some (Answered l x) \<Longrightarrow> transfer_handler (bd_deps d) T (leg_done l) context s = (r, s') \<Longrightarrow>
    saga_step d T (s, t, w) (Coordinator i) (s', t, w(i := (case r of Inr _ \<Rightarrow> None | Inl e \<Rightarrow> Some (Failing l e))))"
| sg_done_conflict: "w i = Some (Answered l x) \<Longrightarrow>
    saga_step d T (s, t, w) (Coordinator i) (s, t, w(i \<mapsto> Failing l (Conflict (transfer_conflict T))))"
| sg_fail: "w i = Some (Failing l e) \<Longrightarrow> leg_stage l = Some stage \<Longrightarrow> isTerminalDomainError e \<Longrightarrow>
    transfer_handler (bd_deps d) T (FailTransfer (error_message e) stage) context s = (r, s') \<Longrightarrow>
    saga_step d T (s, t, w) (Coordinator i) (s', t, w(i := None))"
| sg_stop: "saga_step d T (s, t, w) (Coordinator i) (s, t, w(i := None))"
| sg_client_account: "(\<forall>x. command_id c = Some x \<longrightarrow> x \<notin> leg_ids T) \<Longrightarrow>
    account_handler (bd_deps d) a c context s = (r, s') \<Longrightarrow> saga_step d T (s, t, w) Client (s', t, w)"
| sg_client_transfer: "u \<noteq> T \<or> (\<exists>v src dst m cur. c' = InitiateTransfer v src dst m cur) \<Longrightarrow>
    transfer_handler (bd_deps d) u c' context s = (r, s') \<Longrightarrow> saga_step d T (s, t, w) Client (s', t, w)"
| sg_client_begin: "ri_transactionId input \<notin> leg_ids T \<Longrightarrow> transaction_begin (bd_txns d) input retryFailed now t = (adm, t') \<Longrightarrow>
    saga_step d T (s, t, w) Client (s, t', w)"
| sg_client_finish: "x \<notin> leg_ids T \<Longrightarrow>
    saga_step d T (s, t, w) Client (s, transaction_finish (bd_txns d) retryable x r now t, w)"

section \<open>What has moved\<close>

text \<open>A movement of money in an account's stream: its direction, amount, currency and transaction id.\<close>

fun movement :: "event_data \<Rightarrow> (operation_type \<times> string \<times> string \<times> string) option" where
  "movement (MoneyDeposited _ amount currency x) = Some (DEPOSIT, amount, currency, x)"
| "movement (MoneyWithdrawn _ amount currency x) = Some (WITHDRAW, amount, currency, x)"
| "movement _ = None"

definition moves :: "domain_event list \<Rightarrow> string \<Rightarrow> (operation_type \<times> string \<times> string \<times> string) list" where
  "moves h x = filter (\<lambda>m. snd (snd (snd m)) = x) (List.map_filter (\<lambda>e. movement (ev_data e)) h)"

lemma moves_append: "moves (h @ k) x = moves h x @ moves k x"
  by (simp add: moves_def map_filter_def)

lemma moves_simps [simp]:
  "moves [] x = []"
  "moves [e] x = (case movement (ev_data e) of None \<Rightarrow> [] | Some m \<Rightarrow> if snd (snd (snd m)) = x then [m] else [])"
  by (simp_all add: moves_def map_filter_def split: option.split)

text \<open>The amount a transfer's legs move: the stored amount after its detour through a number.\<close>

definition moved_amount :: "transfer_state \<Rightarrow> int" where
  "moved_amount y =
     (case parseMoneyToMinorUnits (NumberAmount (minorUnitsToNumber (tr_amountMinorUnits y))) of Inr m \<Rightarrow> m | Inl _ \<Rightarrow> 0)"

definition leg_movement :: "string \<Rightarrow> leg \<Rightarrow> transfer_state \<Rightarrow> operation_type \<times> string \<times> string \<times> string" where
  "leg_movement T l y =
     (leg_type l, formatMinorUnitsToMoney (moved_amount y), show_opt (tr_currency y), leg_id T l)"

lemma not_withdraw [simp]: "x \<noteq> WITHDRAW \<longleftrightarrow> x = DEPOSIT"
  by (cases x) auto

text \<open>What an accepted account command writes.\<close>

lemma account_operation_movement:
  assumes "account_operation c context st (x, []) = Inr (x', [e])"
  shows "(case movement (ev_data e) of None \<Rightarrow> command_id c = None | Some m \<Rightarrow> command_id c = Some (snd (snd (snd m))))
    \<and> (\<forall>l y. c = leg_command l y (leg_id T l) \<longrightarrow> movement (ev_data e) = Some (leg_movement T l y))"
  using assms
  by (cases c)
    (auto simp: account_command_defs account_simps bind_result_Inr_iff leg_command_def leg_movement_def moved_amount_def Let_def
      account_raise_def apply_event_def split: if_splits)

section \<open>The invariant\<close>

type_synonym statuses = "leg \<Rightarrow> transaction_status option"

text \<open>What must have been settled before a leg is touched.\<close>

fun leg_due :: "statuses \<Rightarrow> leg \<Rightarrow> bool" where
  "leg_due r LegDebit = True"
| "leg_due r LegCredit = (r LegDebit = Some COMPLETED_TRANSACTION)"
| "leg_due r LegCompensation = (r LegCredit = Some FAILED_TERMINAL)"

text \<open>What the registry has on record for a transfer of that status.\<close>

definition status_backed :: "statuses \<Rightarrow> transfer_state \<Rightarrow> bool" where
  "status_backed r y \<longleftrightarrow> (case tr_status y of
       Some T_DEBITED \<Rightarrow> r LegDebit = Some COMPLETED_TRANSACTION
     | Some T_CREDIT_IN_PROGRESS \<Rightarrow> r LegDebit = Some COMPLETED_TRANSACTION
     | Some T_COMPLETED \<Rightarrow> r LegCredit = Some COMPLETED_TRANSACTION
     | Some T_FAILED \<Rightarrow> (case tr_failureStage y of
           Some DEBIT \<Rightarrow> r LegDebit = Some FAILED_TERMINAL
         | Some CREDIT \<Rightarrow> r LegCredit = Some FAILED_TERMINAL
         | None \<Rightarrow> False)
     | Some T_COMPENSATION_IN_PROGRESS \<Rightarrow> r LegCredit = Some FAILED_TERMINAL
     | Some T_COMPENSATED \<Rightarrow> r LegCompensation = Some COMPLETED_TRANSACTION
     | _ \<Rightarrow> True)"

fun leg_transactionId :: "leg \<Rightarrow> transfer_state \<Rightarrow> string option" where
  "leg_transactionId LegDebit y = tr_sourceDebitTransactionId y"
| "leg_transactionId LegCredit y = tr_destinationCreditTransactionId y"
| "leg_transactionId LegCompensation y = tr_compensationTransactionId y"

definition transfer_named :: "string \<Rightarrow> transfer_state \<Rightarrow> bool" where
  "transfer_named T y \<longleftrightarrow> transfer_ok y \<and> (tr_status y \<noteq> None \<longrightarrow> tr_transferId y = Some T)
     \<and> (\<forall>l x. leg_transactionId l y = Some x \<longrightarrow> x = leg_id T l)"

definition same_deal :: "transfer_state \<Rightarrow> transfer_state \<Rightarrow> bool" where
  "same_deal y z \<longleftrightarrow> tr_transferId y = tr_transferId z \<and> tr_sourceAccountId y = tr_sourceAccountId z
     \<and> tr_destinationAccountId y = tr_destinationAccountId z \<and> tr_amountMinorUnits y = tr_amountMinorUnits z
     \<and> tr_currency y = tr_currency z"

text \<open>What is known where a coordinator stands; \<open>m l\<close> says that leg \<open>l\<close> has moved money.\<close>

fun job_ok :: "string \<Rightarrow> statuses \<Rightarrow> (leg \<Rightarrow> bool) \<Rightarrow> transfer_state \<Rightarrow> job \<Rightarrow> bool" where
  "job_ok T r m y (Chosen l x) = (x = leg_id T l \<and> leg_due r l)"
| "job_ok T r m y (Loaded l x z) = (x = leg_id T l \<and> leg_due r l \<and> same_deal z y)"
| "job_ok T r m y (Started l x z) = (x = leg_id T l \<and> leg_due r l \<and> same_deal z y)"
| "job_ok T r m y (Admitted l x z) = (x = leg_id T l \<and> leg_due r l \<and> same_deal z y \<and> r l = Some PENDING \<and> \<not> m l)"
| "job_ok T r m y (Ran l x z out) = (x = leg_id T l \<and> leg_due r l \<and> r l = Some PENDING
     \<and> (case out of Inl e \<Rightarrow> \<not> m l \<and> \<not> isRetryableError e | Inr _ \<Rightarrow> m l))"
| "job_ok T r m y (Answered l x) = (r l = Some COMPLETED_TRANSACTION)"
| "job_ok T r m y (Failing l e) = (isTerminalDomainError e \<longrightarrow> leg_stage l \<noteq> None \<longrightarrow> r l = Some FAILED_TERMINAL)"

fun works_on :: "leg \<Rightarrow> job \<Rightarrow> bool" where
  "works_on l (Admitted k x z) = (k = l)"
| "works_on l (Ran k x z out) = (k = l)"
| "works_on l _ = False"

definition jobs_ok :: "string \<Rightarrow> statuses \<Rightarrow> (leg \<Rightarrow> bool) \<Rightarrow> transfer_state \<Rightarrow> (nat \<rightharpoonup> job) \<Rightarrow> bool" where
  "jobs_ok T r m y w \<longleftrightarrow> (\<forall>i j. w i = Some j \<longrightarrow> tr_status y \<noteq> None \<and> job_ok T r m y j)
     \<and> (\<forall>i k j j' l. w i = Some j \<longrightarrow> w k = Some j' \<longrightarrow> works_on l j \<longrightarrow> works_on l j' \<longrightarrow> i = k)"

definition records_ok :: "string \<Rightarrow> (leg \<rightharpoonup> transaction_record) \<Rightarrow> transfer_state \<Rightarrow> bool" where
  "records_ok T rec y \<longleftrightarrow> (\<forall>l r. rec l = Some r \<longrightarrow>
     tr_status y \<noteq> None \<and> asks_for (leg_input l y (leg_id T l)) r \<and> tx_status r \<noteq> FAILED_RETRYABLE
     \<and> leg_due (\<lambda>k. map_option tx_status (rec k)) l)"

definition moves_ok :: "string \<Rightarrow> (string \<Rightarrow> domain_event list) \<Rightarrow> (leg \<Rightarrow> bool) \<Rightarrow> transfer_state \<Rightarrow> bool" where
  "moves_ok T h m y \<longleftrightarrow> (\<forall>l a. moves (h (account_stream a)) (leg_id T l)
     = (if m l \<and> a = show_opt (leg_party l y) then [leg_movement T l y] else []))"

definition settled_ok :: "statuses \<Rightarrow> (leg \<Rightarrow> bool) \<Rightarrow> bool" where
  "settled_ok r m \<longleftrightarrow> (\<forall>l. (r l = Some COMPLETED_TRANSACTION \<longrightarrow> m l)
     \<and> (r l = None \<or> r l = Some FAILED_TERMINAL \<longrightarrow> \<not> m l))"

definition saga_inv ::
  "string \<Rightarrow> (string \<Rightarrow> domain_event list) \<Rightarrow> (string \<rightharpoonup> transaction_record) \<Rightarrow> (nat \<rightharpoonup> job)
     \<Rightarrow> transfer_state \<Rightarrow> (leg \<Rightarrow> bool) \<Rightarrow> bool" where
  "saga_inv T h recs w y m \<longleftrightarrow>
     (let rec = (\<lambda>l. recs (leg_id T l)); r = (\<lambda>l. map_option tx_status (rec l))
      in transfer_history (h (transfer_stream T)) y \<and> transfer_named T y \<and> status_backed r y
       \<and> records_ok T rec y \<and> jobs_ok T r m y w \<and> moves_ok T h m y \<and> settled_ok r m)"

lemma saga_invD:
  assumes "saga_inv T h recs w y m"
  shows "transfer_history (h (transfer_stream T)) y" "transfer_named T y"
    "status_backed (\<lambda>l. map_option tx_status (recs (leg_id T l))) y" "records_ok T (\<lambda>l. recs (leg_id T l)) y"
    "jobs_ok T (\<lambda>l. map_option tx_status (recs (leg_id T l))) m y w" "moves_ok T h m y"
    "settled_ok (\<lambda>l. map_option tx_status (recs (leg_id T l))) m"
  using assms by (simp_all add: saga_inv_def Let_def)

section \<open>Steps of the invariant\<close>

text \<open>Settled statuses stay.\<close>

definition kept :: "statuses \<Rightarrow> statuses \<Rightarrow> bool" where
  "kept r r' \<longleftrightarrow> (\<forall>l. r l = Some COMPLETED_TRANSACTION \<or> r l = Some FAILED_TERMINAL \<longrightarrow> r' l = r l)"

lemma leg_due_kept: "leg_due r l \<Longrightarrow> kept r r' \<Longrightarrow> leg_due r' l"
  by (cases l) (auto simp: kept_def)

lemma status_backed_kept: "status_backed r y \<Longrightarrow> kept r r' \<Longrightarrow> status_backed r' y"
  by (auto simp: status_backed_def kept_def split: option.splits transfer_status.splits stage.splits)

text \<open>A coordinator that only moves on by itself.\<close>

lemma jobs_ok_upd:
  assumes "jobs_ok T r m y w"
    and "\<And>j. jo = Some j \<Longrightarrow> tr_status y \<noteq> None \<and> job_ok T r m y j"
    and "\<And>j l k j'. jo = Some j \<Longrightarrow> works_on l j \<Longrightarrow> k \<noteq> i \<Longrightarrow> w k = Some j' \<Longrightarrow> \<not> works_on l j'"
  shows "jobs_ok T r m y (w(i := jo))"
  using assms unfolding jobs_ok_def by (simp split: if_splits) metis

lemma saga_inv_job:
  assumes "saga_inv T h recs w y m"
    and "\<And>j. jo = Some j \<Longrightarrow> tr_status y \<noteq> None \<and> job_ok T (\<lambda>l. map_option tx_status (recs (leg_id T l))) m y j"
    and "\<And>j l. jo = Some j \<Longrightarrow> works_on l j \<Longrightarrow> \<exists>j'. w i = Some j' \<and> works_on l j'"
  shows "saga_inv T h recs (w(i := jo)) y m"
proof -
  have "jobs_ok T (\<lambda>l. map_option tx_status (recs (leg_id T l))) m y (w(i := jo))"
  proof (rule jobs_ok_upd [OF saga_invD(5) [OF assms(1)] assms(2)])
    fix j l k j' assume "jo = Some j" "works_on l j" "k \<noteq> i" "w k = Some j'"
    then show "\<not> works_on l j'" using assms(3) saga_invD(5) [OF assms(1)] unfolding jobs_ok_def by metis
  qed simp
  then show ?thesis using assms(1) by (simp add: saga_inv_def Let_def)
qed

lemma saga_inv_put:
  assumes "saga_inv T h recs w y m" "tr_status y \<noteq> None" "job_ok T (\<lambda>l. map_option tx_status (recs (leg_id T l))) m y j"
    and "\<forall>l. works_on l j \<longrightarrow> (\<exists>j'. w i = Some j' \<and> works_on l j')"
  shows "saga_inv T h recs (w(i \<mapsto> j)) y m"
  by (rule saga_inv_job [OF assms(1)]) (use assms(2-4) in auto)

lemma saga_inv_drop: "saga_inv T h recs w y m \<Longrightarrow> saga_inv T h recs (w(i := None)) y m"
  by (rule saga_inv_job) auto

lemma saga_inv_jobD:
  assumes "saga_inv T h recs w y m" "w i = Some j"
  shows "tr_status y \<noteq> None" "job_ok T (\<lambda>l. map_option tx_status (recs (leg_id T l))) m y j"
  using saga_invD(5) [OF assms(1)] assms(2) unfolding jobs_ok_def by blast+

text \<open>The leg a named transfer is due for.\<close>

lemma due_leg_ok:
  assumes "transfer_named T y" "status_backed r y" "due_leg y = Some (l, x)"
  shows "x = leg_id T l" "leg_due r l" "tr_status y \<noteq> None"
proof -
  have "x = or_else (leg_transactionId l y) (leg_id (show_opt (tr_transferId y)) l)" "leg_due r l" and st: "tr_status y \<noteq> None"
    using assms(2,3) by (auto simp: due_leg_def Let_def status_backed_def split: option.splits transfer_status.splits if_splits)
  moreover have "tr_transferId y = Some T" using assms(1) st by (simp add: transfer_named_def)
  ultimately show "x = leg_id T l" "leg_due r l" "tr_status y \<noteq> None"
    using assms(1) by (auto simp: transfer_named_def or_else_def show_opt_def split: option.splits)
qed

lemma same_deal_cong:
  assumes "same_deal y z"
  shows "leg_party l y = leg_party l z" "leg_movement T l y = leg_movement T l z" "leg_input l y x = leg_input l z x"
    "leg_command l y x = leg_command l z x"
  using assms
  by (cases l; simp add: same_deal_def leg_movement_def moved_amount_def leg_input_def movement_input_def leg_command_def Let_def)+

lemma same_deal_refl [simp]: "same_deal y y"
  by (simp add: same_deal_def)

lemma same_deal_trans: "same_deal x y \<Longrightarrow> same_deal y z \<Longrightarrow> same_deal x z"
  by (simp add: same_deal_def)

lemma same_deal_sym: "same_deal x y \<Longrightarrow> same_deal y x"
  by (simp add: same_deal_def)

text \<open>The commands that are given to the transfer, by what the registry must have on record for them.\<close>

definition authorised :: "statuses \<Rightarrow> string \<Rightarrow> transfer_command \<Rightarrow> bool" where
  "authorised r T c \<longleftrightarrow>
     (\<exists>l. c = leg_start l (leg_id T l) \<and> leg_due r l)
   \<or> (\<exists>l. c = leg_done l \<and> r l = Some COMPLETED_TRANSACTION)
   \<or> (\<exists>l msg stage. c = FailTransfer msg stage \<and> leg_stage l = Some stage \<and> r l = Some FAILED_TERMINAL)
   \<or> (\<exists>src dst amount currency. c = InitiateTransfer T src dst amount currency)"

lemma authorised_cases:
  assumes "authorised r T c"
  obtains (start) l where "c = leg_start l (leg_id T l)" "leg_due r l"
  | (finish) l where "c = leg_done l" "r l = Some COMPLETED_TRANSACTION"
  | (fail) l msg stage where "c = FailTransfer msg stage" "leg_stage l = Some stage" "r l = Some FAILED_TERMINAL"
  | (initiate) src dst amount currency where "c = InitiateTransfer T src dst amount currency"
  using assms unfolding authorised_def by blast

lemma leg_all: "(\<forall>l. P l) \<longleftrightarrow> P LegDebit \<and> P LegCredit \<and> P LegCompensation"
  by (metis leg.exhaust)

lemma leg_not_initiate: "leg_start l x \<noteq> InitiateTransfer v a b amt cur" "leg_done l \<noteq> InitiateTransfer v a b amt cur"
  by (cases l; simp)+

lemma leg_handlers:
  "transfer_handler d i (leg_start l x) context = transfer_executeWithRetry d i (transfer_operation (leg_start l x) context)"
  "transfer_handler d i (leg_done l) context = transfer_executeWithRetry d i (transfer_operation (leg_done l) context)"
  by (cases l; simp add: transfer_handler_def)+

lemma leg_names [simp]: "names_transfer (leg_start l x)" "names_transfer (leg_done l)"
  by (cases l; simp)+

lemma authorised_keeps:
  assumes "transfer_operation c context st (y, us) = Inr (y', us')" "authorised r T c" "transfer_named T y" "status_backed r y" "T \<noteq> ''''"
  shows "transfer_named T y'" "status_backed r y'"
proof -
  obtain data where d: "command_data c y = Inr data" "transfer_when y (transfer_makeEvent y data context st) = Inr y'"
    using assms(1) by (auto simp: transfer_operation_event)
  have "names_transfer c" using assms(2,5) by (cases rule: authorised_cases) auto
  then have ok: "transfer_ok y'" using transfer_step_lifecycle [OF _ _ d] assms(3) by (simp add: transfer_named_def)
  have n: "\<forall>l x. leg_transactionId l y = Some x \<longrightarrow> x = leg_id T l"
      "tr_status y \<noteq> None \<Longrightarrow> tr_transferId y = Some T" "transfer_ok y"
    using assms(3) by (auto simp: transfer_named_def)
  from assms(2) have "((\<forall>l x. leg_transactionId l y' = Some x \<longrightarrow> x = leg_id T l)
      \<and> (tr_status y' \<noteq> None \<longrightarrow> tr_transferId y' = Some T)) \<and> status_backed r y'"
  proof (cases rule: authorised_cases)
    case (start l)
    then show ?thesis using d n
      by (cases l) (auto simp: leg_all transfer_when_def status_backed_def transfer_ok_def split: if_splits)
  next
    case (finish l)
    then show ?thesis using d n
      by (cases l) (auto simp: leg_all transfer_when_def status_backed_def split: if_splits)
  next
    case (fail l msg stage)
    then show ?thesis using d n
      by (cases l) (auto simp: leg_all transfer_when_def status_backed_def split: if_splits)
  next
    case (initiate src dst amount currency)
    then show ?thesis using d n
      by (auto simp: leg_all transfer_when_def status_backed_def bind_result_Inr_iff split: if_splits)
  qed
  then show "transfer_named T y'" "status_backed r y'" using ok by (simp_all add: transfer_named_def)
qed

lemma records_ok_deal:
  assumes "records_ok T rec y" "same_deal y z" "tr_status z \<noteq> None"
  shows "records_ok T rec z"
  using assms unfolding records_ok_def by (simp add: same_deal_cong [OF assms(2)])

lemma job_ok_deal: "job_ok T r m y j \<Longrightarrow> same_deal y z \<Longrightarrow> job_ok T r m z j"
  by (cases j) (auto intro: same_deal_trans)

lemma jobs_ok_deal:
  assumes "jobs_ok T r m y w" "same_deal y z" "tr_status z \<noteq> None"
  shows "jobs_ok T r m z w"
  using assms job_ok_deal unfolding jobs_ok_def by blast

lemma moves_ok_deal:
  assumes "moves_ok T h m y" "same_deal y z"
  shows "moves_ok T h m z"
  using assms(1) unfolding moves_ok_def by (simp add: same_deal_cong [OF assms(2)])

text \<open>A command to the transfer itself.\<close>

lemma saga_inv_transfer:
  assumes inv: "saga_inv T h recs w y m"
    and auth: "authorised (\<lambda>l. map_option tx_status (recs (leg_id T l))) T c" and T: "T \<noteq> ''''"
    and cmd: "transfer_operation c context st (y, []) = Inr (y', us)"
    and h': "\<And>a. h' (account_stream a) = h (account_stream a)" "transfer_history (h' (transfer_stream T)) y'"
  shows "saga_inv T h' recs w y' m"
proof -
  let ?r = "\<lambda>l. map_option tx_status (recs (leg_id T l))"
  note I = saga_invD [OF inv]
  note new = authorised_keeps [OF cmd auth I(2,3) T]
  have moves: "moves_ok T h' m z = moves_ok T h m z" for z by (simp add: moves_ok_def h'(1))
  have "records_ok T (\<lambda>l. recs (leg_id T l)) y' \<and> jobs_ok T ?r m y' w \<and> moves_ok T h m y'"
  proof (cases "tr_status y")
    case None
    then have none: "recs (leg_id T l) = None" "w i = None" for l i
      using I(4,5) unfolding records_ok_def jobs_ok_def by (metis not_None_eq)+
    then have "\<not> m l" for l using I(7) by (simp add: settled_ok_def)
    with none I(6) show ?thesis by (simp add: records_ok_def jobs_ok_def moves_ok_def)
  next
    case (Some v)
    then have "truthy (tr_transferId y)" "tr_status y \<noteq> None" using I(2) by (auto simp: transfer_named_def transfer_ok_def)
    from command_keeps_agreement [OF this cmd] have "same_deal y y'" "tr_status y' \<noteq> None" by (simp_all add: same_deal_def)
    then show ?thesis using I(4-6) records_ok_deal jobs_ok_deal moves_ok_deal by blast
  qed
  then show ?thesis using h'(2) new I(7) moves by (simp add: saga_inv_def Let_def)
qed

text \<open>A change of the registry that settles or opens one leg.\<close>

lemma job_ok_kept:
  assumes "job_ok T r m y j" "kept r r'" "\<And>l. works_on l j \<Longrightarrow> r' l = r l \<and> m' l = m l"
  shows "job_ok T r' m' y j"
proof -
  have settled: "r l = Some COMPLETED_TRANSACTION \<Longrightarrow> r' l = Some COMPLETED_TRANSACTION"
      "r l = Some FAILED_TERMINAL \<Longrightarrow> r' l = Some FAILED_TERMINAL" for l
    using assms(2) by (simp_all add: kept_def)
  from assms(1,3) show ?thesis
    by (cases j) (auto intro: leg_due_kept [OF _ assms(2)] settled split: sum.splits)
qed

lemma records_ok_kept:
  assumes "records_ok T rec y" and "kept (\<lambda>l. map_option tx_status (rec l)) (\<lambda>l. map_option tx_status (rec' l))"
    and "\<And>l. rec' l = rec l \<or> (\<exists>r. rec' l = Some r \<and> tr_status y \<noteq> None \<and> asks_for (leg_input l y (leg_id T l)) r
       \<and> tx_status r \<noteq> FAILED_RETRYABLE \<and> leg_due (\<lambda>k. map_option tx_status (rec k)) l)"
  shows "records_ok T rec' y"
  unfolding records_ok_def
proof (intro allI impI)
  fix l r assume r: "rec' l = Some r"
  have "tr_status y \<noteq> None \<and> asks_for (leg_input l y (leg_id T l)) r \<and> tx_status r \<noteq> FAILED_RETRYABLE
      \<and> leg_due (\<lambda>k. map_option tx_status (rec k)) l"
    using assms(1,3) r unfolding records_ok_def by (metis option.inject)
  then show "tr_status y \<noteq> None \<and> asks_for (leg_input l y (leg_id T l)) r \<and> tx_status r \<noteq> FAILED_RETRYABLE
      \<and> leg_due (\<lambda>k. map_option tx_status (rec' k)) l"
    using leg_due_kept [OF _ assms(2)] by blast
qed

lemma leg_id_inj [simp]: "leg_id T l = leg_id T k \<longleftrightarrow> l = k"
  by (cases l; cases k; simp)

lemma works_onD:
  assumes "jobs_ok T r m y w" "w i = Some j" "works_on l j" "w k = Some j'" "works_on l j'"
  shows "i = k"
  using assms unfolding jobs_ok_def by blast

lemma works_pending: "job_ok T r m y j \<Longrightarrow> works_on l j \<Longrightarrow> r l = Some PENDING"
  by (cases j) auto

text \<open>The registry admits a leg for the first time.\<close>

lemma saga_inv_admit:
  assumes inv: "saga_inv T h recs w y m" and w: "w i = Some (Started l x z)"
    and new: "recs x = None" "recs' = recs(x \<mapsto> r)" "tx_status r = PENDING" "asks_for (leg_input l z x) r"
  shows "saga_inv T h recs' (w(i \<mapsto> Admitted l x z)) y m"
proof -
  let ?r = "\<lambda>l. map_option tx_status (recs (leg_id T l))" and ?r' = "\<lambda>l. map_option tx_status (recs' (leg_id T l))"
  note I = saga_invD [OF inv]
  have st: "tr_status y \<noteq> None" and x: "x = leg_id T l" "leg_due ?r l" "same_deal z y"
    using saga_inv_jobD [OF inv w] by simp_all
  have r': "?r' = ?r(l := Some PENDING)" and rl: "?r l = None" using new(1-3) x(1) by (auto simp: fun_eq_iff)
  have r'k: "?r' k = (if k = l then Some PENDING else ?r k)" for k using fun_cong [OF r', of k] by simp
  have kept: "kept ?r ?r'" using rl unfolding r' by (simp add: kept_def)
  have "records_ok T (\<lambda>l. recs' (leg_id T l)) y"
    by (rule records_ok_kept [OF I(4) kept])
      (use new st x same_deal_cong(3) [OF x(3)] in \<open>auto simp: fun_eq_iff\<close>)
  moreover have free: "\<not> works_on l j" if "w k = Some j" for k j
    using works_pending [of T ?r m y j l] saga_inv_jobD(2) [OF inv that] rl by auto
  have "jobs_ok T ?r' m y w"
    unfolding jobs_ok_def
  proof (intro conjI allI impI)
    fix k j assume k: "w k = Some j"
    show "job_ok T ?r' m y j"
      by (rule job_ok_kept [OF saga_inv_jobD(2) [OF inv k] kept]) (use free [OF k] r'k in auto)
  qed (use st I(5) in \<open>auto simp: jobs_ok_def\<close>)
  then have "jobs_ok T ?r' m y (w(i \<mapsto> Admitted l x z))"
    by (rule jobs_ok_upd)
      (use st x free leg_due_kept [OF x(2) kept] I(7) rl in \<open>auto simp: r' settled_ok_def\<close>)
  moreover have "settled_ok ?r' m" using I(7) rl r' by (auto simp: settled_ok_def)
  ultimately show ?thesis
    using I(1,2,6) status_backed_kept [OF I(3) kept] by (simp add: saga_inv_def Let_def)
qed

text \<open>The account command of a leg has taken effect.\<close>

lemma saga_inv_ran:
  assumes inv: "saga_inv T h recs w y m" and w: "w i = Some (Admitted l x z)"
    and h': "h' = h(account_stream (show_opt (leg_party l z)) := h (account_stream (show_opt (leg_party l z))) @ [e])"
      "movement (ev_data e) = Some (leg_movement T l z)"
  shows "saga_inv T h' recs (w(i \<mapsto> Ran l x z (Inr v))) y (m(l := True))"
proof -
  let ?r = "\<lambda>l. map_option tx_status (recs (leg_id T l))"
  note I = saga_invD [OF inv]
  have st: "tr_status y \<noteq> None" and x: "x = leg_id T l" "leg_due ?r l" "same_deal z y" "?r l = Some PENDING" "\<not> m l"
    using saga_inv_jobD [OF inv w] by simp_all
  note deal = same_deal_cong [OF x(3)]
  obtain q where q: "recs (leg_id T l) = Some q" "tx_status q = PENDING" using x(4) by auto
  have other: "\<not> works_on l j" if "w k = Some j" "k \<noteq> i" for k j
    using works_onD [OF I(5) w _ that(1), of l] that(2) by auto
  have jobs: "jobs_ok T ?r (m(l := True)) y (w(i \<mapsto> Ran l x z (Inr v)))"
    unfolding jobs_ok_def
  proof (intro conjI allI impI)
    fix k j assume k: "(w(i \<mapsto> Ran l x z (Inr v))) k = Some j"
    show "tr_status y \<noteq> None" by (rule st)
    show "job_ok T ?r (m(l := True)) y j"
    proof (cases "k = i")
      case True
      then show ?thesis using k x by auto
    next
      case False
      then have k: "w k = Some j" using k by simp
      show ?thesis
        by (rule job_ok_kept [OF saga_inv_jobD(2) [OF inv k]]) (use other [OF k False] in \<open>auto simp: kept_def\<close>)
    qed
  next
    fix k k' j j' n
    assume "(w(i \<mapsto> Ran l x z (Inr v))) k = Some j" "(w(i \<mapsto> Ran l x z (Inr v))) k' = Some j'" "works_on n j" "works_on n j'"
    then show "k = k'" using other works_onD [OF I(5)] by (auto split: if_splits)
  qed
  have snd: "snd (snd (snd (leg_movement T l z))) = leg_id T l" by (simp add: leg_movement_def)
  have "moves_ok T h' (m(l := True)) y"
    unfolding moves_ok_def
  proof (intro allI)
    fix k a
    have "moves (h (account_stream a)) (leg_id T k) = (if m k \<and> a = show_opt (leg_party k y) then [leg_movement T k y] else [])"
      using I(6) by (simp add: moves_ok_def)
    then show "moves (h' (account_stream a)) (leg_id T k)
        = (if (m(l := True)) k \<and> a = show_opt (leg_party k y) then [leg_movement T k y] else [])"
      using h'(2) snd x(5) deal by (auto simp: h'(1) moves_append)
  qed
  moreover have "h' (transfer_stream T) = h (transfer_stream T)" by (simp add: h'(1))
  ultimately show ?thesis using I jobs q by (simp add: saga_inv_def Let_def settled_ok_def)
qed

text \<open>The registry learns the outcome.\<close>

lemma saga_inv_finish:
  assumes inv: "saga_inv T h recs w y m" and w: "w i = Some (Ran l x z out)"
    and recs: "recs x = Some r" "recs' = recs(x \<mapsto> (case out of
        Inr v \<Rightarrow> set_status COMPLETED_TRANSACTION None now r | Inl e \<Rightarrow> set_status FAILED_TERMINAL (Some (error_message e)) now r))"
  shows "saga_inv T h recs' (w(i \<mapsto> (case out of Inr v \<Rightarrow> Answered l x | Inl e \<Rightarrow> Failing l e))) y m"
proof -
  let ?r = "\<lambda>l. map_option tx_status (recs (leg_id T l))" and ?r' = "\<lambda>l. map_option tx_status (recs' (leg_id T l))"
  let ?s = "case out of Inr v \<Rightarrow> COMPLETED_TRANSACTION | Inl e \<Rightarrow> FAILED_TERMINAL"
  let ?w = "w(i := None)"
  note I = saga_invD [OF inv]
  have st: "tr_status y \<noteq> None" and x: "x = leg_id T l" "leg_due ?r l" "?r l = Some PENDING"
      "case out of Inl e \<Rightarrow> \<not> m l | Inr _ \<Rightarrow> m l"
    using saga_inv_jobD [OF inv w] by (auto split: sum.splits)
  have r': "?r' = ?r(l := Some ?s)" using recs x(1) by (auto simp: fun_eq_iff split: sum.split)
  have r'k: "?r' k = (if k = l then Some ?s else ?r k)" for k using fun_cong [OF r', of k] by simp
  obtain q where q: "recs (leg_id T l) = Some q" "tx_status q = PENDING" using x(3) by auto
  have kept: "kept ?r ?r'" using q unfolding r' by (simp add: kept_def)
  have "asks_for (leg_input l y (leg_id T l)) r" using I(4) recs(1) x(1) by (simp add: records_ok_def)
  then have "records_ok T (\<lambda>l. recs' (leg_id T l)) y"
    by (intro records_ok_kept [OF I(4) kept])
      (use recs st x(1,2) in \<open>auto split: sum.splits\<close>)
  moreover have other: "\<not> works_on l j" if "w k = Some j" "k \<noteq> i" for k j
    using works_onD [OF I(5) w _ that(1), of l] that(2) by auto
  have "jobs_ok T ?r' m y ?w"
    unfolding jobs_ok_def
  proof (intro conjI allI impI)
    fix k j assume k: "?w k = Some j"
    then have k: "w k = Some j" "k \<noteq> i" by (auto split: if_splits)
    show "job_ok T ?r' m y j"
      by (rule job_ok_kept [OF saga_inv_jobD(2) [OF inv k(1)] kept]) (use other [OF k] r'k in auto)
  qed (use st works_onD [OF I(5)] in \<open>auto split: if_splits\<close>)
  then have "jobs_ok T ?r' m y (?w(i \<mapsto> (case out of Inr v \<Rightarrow> Answered l x | Inl e \<Rightarrow> Failing l e)))"
    by (rule jobs_ok_upd) (use st in \<open>auto simp: r' split: sum.splits\<close>)
  moreover have "settled_ok ?r' m" using I(7) x(4) unfolding r' by (auto simp: settled_ok_def split: sum.splits)
  ultimately show ?thesis
    using I(1,2,6) status_backed_kept [OF I(3) kept] by (simp add: saga_inv_def Let_def)
qed

text \<open>A client's account command.\<close>

lemma saga_inv_client_account:
  assumes inv: "saga_inv T h recs w y m"
    and h': "h' = h(account_stream a := h (account_stream a) @ [e])"
      "\<forall>mv. movement (ev_data e) = Some mv \<longrightarrow> snd (snd (snd mv)) \<notin> leg_ids T"
  shows "saga_inv T h' recs w y m"
proof -
  have "moves (h' (account_stream b)) (leg_id T l) = moves (h (account_stream b)) (leg_id T l)" for b l
    using h' by (auto simp: moves_append leg_ids_def split: option.split)
  then show ?thesis using inv by (simp add: saga_inv_def Let_def moves_ok_def h'(1))
qed

section \<open>Errors the coordinator may catch\<close>

text \<open>
  A transfer id is plain when none of the conflicts that the registry and the transfer repository report
  for its legs reads like a terminal domain error.  Every id without one of the four phrases in it is.
\<close>

definition caught_errors :: "string \<Rightarrow> js_error list" where
  "caught_errors T = Conflict (transfer_conflict T) #
     concat (map (\<lambda>l.
       [Conflict (''Transaction '' @ leg_id T l @ '' has already been used for a different money movement''),
        Conflict (''Transaction '' @ leg_id T l @ '' is already in progress''),
        Conflict (''Transaction '' @ leg_id T l @ '' previously failed. Retry with a new transactionId.'')])
       [LegDebit, LegCredit, LegCompensation])"

definition plain_id :: "string \<Rightarrow> bool" where
  "plain_id T \<longleftrightarrow> T \<noteq> '''' \<and> list_all (\<lambda>e. \<not> isTerminalDomainError e) (caught_errors T)"

lemma parse_whole: "parseMoneyToMinorUnits (StringAmount (show_int i)) = Inr (100 * i)"
proof -
  let ?w = "show_nat (nat \<bar>i\<bar>)"
  have d: "?w \<noteq> ''''" "list_all is_digit ?w" using show_nat_digits by auto
  have shown: "show_int i = decimal_text (i < 0) ?w ''''" by (simp add: show_int_def decimal_text_def)
  have "digits_value ''00'' = 0" by (simp add: digits_value_def digit_val_def)
  then have "digits_value (?w @ ''00'') = 100 * nat \<bar>i\<bar>" using digits_value_append [of ?w "''00''"] by simp
  then have "minor_units_of (i < 0) ?w '''' = 100 * i"
    by (simp add: minor_units_of_def pad_end_def MONEY_SCALE_def numeral_2_eq_2)
  moreover have "parseMoneyToMinorUnits (StringAmount (show_int i)) = Inr (minor_units_of (i < 0) ?w '''')"
    using parse_normalized [OF normalize_string_decimal [OF d, of "''''" "i < 0"] d] shown by simp
  ultimately show ?thesis by simp
qed

lemma leg_input_fields [simp]:
  "ri_transactionId (leg_input l y x) = x" "parseMoneyToMinorUnits (ri_amount (leg_input l y x)) = Inr (100 * tr_amountMinorUnits y)"
  by (simp_all add: leg_input_def movement_input_def parse_whole)

lemma includes_prefix: "str_includes s pat \<longleftrightarrow> (\<exists>a b. s = a @ pat @ b)"
proof (induction s)
  case Nil
  then show ?case by simp
next
  case (Cons c s)
  have "(\<exists>a b. c # s = a @ pat @ b) \<longleftrightarrow> prefix pat (c # s) \<or> (\<exists>a b. s = a @ pat @ b)"
    by (auto simp: prefix_def Cons_eq_append_conv)
  with Cons show ?case by simp
qed

text \<open>The errors of the commands that close a leg are not terminal.\<close>

lemma done_errors:
  assumes "transfer_refusal (leg_done l) context e"
  shows "\<not> isTerminalDomainError e"
proof -
  have st: "status_text x \<in> {''UNKNOWN'', ''INITIATED'', ''DEBIT_IN_PROGRESS'', ''DEBITED'', ''CREDIT_IN_PROGRESS'', ''COMPLETED'',
      ''FAILED'', ''COMPENSATION_IN_PROGRESS'', ''COMPENSATED''}" for x
  proof (cases "tr_status x")
    case (Some s)
    then show ?thesis by (cases s) (simp_all add: status_text_def)
  qed (simp add: status_text_def)
  from assms consider "e = duplicate_key" | stamp x where "transfer_operation (leg_done l) context stamp (x, []) = Inl e"
    unfolding transfer_refusal_def by blast
  then show ?thesis
  proof cases
    case 1
    then show ?thesis by (simp add: duplicate_key_def isTerminalDomainError_def)
  next
    case 2
    then have "command_data (leg_done l) x = Inl e"
      by (cases l) (auto simp: transfer_operation_data bind_result_Inl_iff transfer_raise_apply transfer_when_def split: if_splits)
    then have "\<exists>msg. e = BadRequest (msg @ status_text x) \<and>
        msg \<in> {''Cannot mark transfer debited from status '', ''Cannot complete transfer from status '',
               ''Cannot mark transfer compensated from status ''}"
      by (cases l) (auto split: if_splits)
    then show ?thesis using st [of x] by (auto simp: isTerminalDomainError_def)
  qed
qed

section \<open>Runs of the handlers without interference\<close>

lemma transfer_history_unique: "transfer_history h x \<Longrightarrow> transfer_history h y \<Longrightarrow> x = y"
  by (simp add: transfer_history_def)

lemma transfer_committed_history:
  assumes "transfer_history h x" "transfer_operation c context stamp (x, []) = Inr (x', [e])" "same_core e e'"
  shows "transfer_history (h @ [e']) x'"
proof -
  have "ev_streamVersion e' = int (length h) + 1"
    using trf_cmd.cmd_emits [OF assms(2)] assms(3) transfer_history_version [OF assms(1)] by (auto simp: same_core_def)
  moreover have "transfer_ahead h (x', [e])"
    by (rule transfer_ahead_command [OF transfer_ahead_fresh [OF assms(1)] assms(2)])
  ultimately show ?thesis using transfer_commit [of h "(x', [e])" "[e']"] assms(3) by simp
qed

context transaction_repository
begin

lemma begin_reject:
  assumes "inv s" "transaction_begin ops input retryFailed now s = (Reject e, s')" "parseMoneyToMinorUnits (ri_amount input) = Inr m"
  shows "e \<in> {Conflict (''Transaction '' @ ri_transactionId input @ '' has already been used for a different money movement''),
        Conflict (''Transaction '' @ ri_transactionId input @ '' is already in progress''),
        Conflict (''Transaction '' @ ri_transactionId input @ '' previously failed. Retry with a new transactionId.'')}"
proof (cases "lookup s (ri_transactionId input)")
  case None
  then show ?thesis using reserve_new [OF assms(1) None, of now] assms(2,3) by (auto simp: transaction_begin_def Let_def)
next
  case (Some r)
  then have "xp_reserve ops input now s = (Inr (False, Some r), s)" using reserve_existing [OF assms(1) Some, of now] assms(3) by auto
  then show ?thesis using assms(2,3)
    by (auto simp: transaction_begin_def ensureSameTransactionIntent_def Let_def
        split: transaction_status.splits if_splits sum.splits)
qed

lemma finish_effect:
  assumes "inv s"
  shows "inv (transaction_finish ops retryable i out now s)"
    "lookup (transaction_finish ops retryable i out now s) = (lookup s)(i := map_option (case out of
        Inr x \<Rightarrow> set_status COMPLETED_TRANSACTION None now
      | Inl e \<Rightarrow> set_status (if retryable e then FAILED_RETRYABLE else FAILED_TERMINAL) (Some (error_message e)) now) (lookup s i))"
  using marked_completed [OF assms] marked_failed [OF assms] by (auto simp: transaction_finish_def split: sum.split)

end

locale saga_bank =
    shared_stores eops einv stream journal restamp fresh sops sinv latest
  + tx: transaction_repository tops tinv lookup
  for eops :: "'es event_store_ops" and einv stream journal restamp fresh
    and sops :: "'ss snapshot_ops" and sinv latest
    and tops :: "'t transaction_ops" and tinv lookup
begin

text \<open>The coordinator runs on these stores; the interleaving is in the steps.\<close>

definition quiet :: "('es, 'ss, 't) bank_deps \<Rightarrow> bool" where
  "quiet d \<longleftrightarrow> dp_events (bd_deps d) = eops \<and> dp_snapshots (bd_deps d) = sops \<and> dp_others (bd_deps d) = (\<lambda>n x. x)
     \<and> bd_txns d = tops"

lemma quiet_fair: "quiet d \<Longrightarrow> fair (bd_deps d)"
  by (auto simp: quiet_def fair_def)

lemma quiet_drift: "quiet d \<Longrightarrow> st_events (drift (bd_deps d) k s) = st_events s \<and> st_snapshots (drift (bd_deps d) k s) = st_snapshots s"
  by (induction k) (auto simp: quiet_def meanwhile_def)

lemma account_run:
  assumes "quiet d" "sound (st_events s) (st_snapshots s)" "account_handler (bd_deps d) a c context s = (r, s')"
  shows "sound (st_events s') (st_snapshots s')"
    and "case r of
        Inl e \<Rightarrow> stream (st_events s') = stream (st_events s) \<and> refusal e
      | Inr _ \<Rightarrow> \<exists>stamp x x' e e'. account_operation c context stamp (x, []) = Inr (x', [e]) \<and> same_core e e'
          \<and> stream (st_events s') = (stream (st_events s))(account_stream a := stream (st_events s) (account_stream a) @ [e'])"
proof -
  note q = quiet_drift [OF assms(1)]
  have "\<not> (\<forall>j<3. stream (st_events (drift (bd_deps d) (Suc j) s)) (account_stream a)
      \<noteq> stream (st_events (drift (bd_deps d) j s)) (account_stream a))"
    using q [of _ s] by (auto simp del: drift_simps intro!: exI [of _ "0::nat"])
  then show "sound (st_events s') (st_snapshots s')" "case r of
        Inl e \<Rightarrow> stream (st_events s') = stream (st_events s) \<and> refusal e
      | Inr _ \<Rightarrow> \<exists>stamp x x' e e'. account_operation c context stamp (x, []) = Inr (x', [e]) \<and> same_core e e'
          \<and> stream (st_events s') = (stream (st_events s))(account_stream a := stream (st_events s) (account_stream a) @ [e'])"
    using account_handler_outcome [OF quiet_fair [OF assms(1)] assms(2,3)] q [of _ s]
    by (auto simp del: drift_simps simp: account_committed_def split: sum.splits) blast
qed

lemma transfer_run:
  assumes "quiet d" "sound (st_events s) (st_snapshots s)"
    "transfer_executeWithRetry (bd_deps d) i (transfer_operation c context) s = (r, s')"
  shows "sound (st_events s') (st_snapshots s')"
    and "case r of
        Inl e \<Rightarrow> stream (st_events s') = stream (st_events s) \<and> transfer_refusal c context e
      | Inr _ \<Rightarrow> \<exists>stamp x x' e h. transfer_history (stream (st_events s) (transfer_stream i)) x
          \<and> transfer_operation c context stamp (x, []) = Inr (x', [e]) \<and> transfer_history h x'
          \<and> stream (st_events s') = (stream (st_events s))(transfer_stream i := h)"
proof -
  note q = quiet_drift [OF assms(1)]
  have "\<not> (\<forall>j<3. stream (st_events (drift (bd_deps d) (Suc j) s)) (transfer_stream i)
      \<noteq> stream (st_events (drift (bd_deps d) j s)) (transfer_stream i))"
    using q [of _ s] by (auto simp del: drift_simps intro!: exI [of _ "0::nat"])
  then show "sound (st_events s') (st_snapshots s')" "case r of
        Inl e \<Rightarrow> stream (st_events s') = stream (st_events s) \<and> transfer_refusal c context e
      | Inr _ \<Rightarrow> \<exists>stamp x x' e h. transfer_history (stream (st_events s) (transfer_stream i)) x
          \<and> transfer_operation c context stamp (x, []) = Inr (x', [e]) \<and> transfer_history h x'
          \<and> stream (st_events s') = (stream (st_events s))(transfer_stream i := h)"
    using transfer_execute_outcome [OF quiet_fair [OF assms(1)] assms(2,3)] q [of _ s] transfer_committed_history
    by (auto simp del: drift_simps simp: transfer_committed_def split: sum.splits) blast
qed

definition saga_ok :: "string \<Rightarrow> ('es, 'ss, 't) saga \<Rightarrow> bool" where
  "saga_ok T c \<longleftrightarrow> (case c of (s, t, w) \<Rightarrow> sound (st_events s) (st_snapshots s) \<and> tinv t
     \<and> (\<exists>y m. saga_inv T (stream (st_events s)) (lookup t) w y m))"

lemma saga_okI:
  "sound (st_events s) (st_snapshots s) \<Longrightarrow> tinv t \<Longrightarrow> saga_inv T (stream (st_events s)) (lookup t) w y m \<Longrightarrow> saga_ok T (s, t, w)"
  by (auto simp: saga_ok_def)

lemma saga_loads:
  assumes "quiet d" "sound (st_events s) (st_snapshots s)" "saga_inv T (stream (st_events s)) recs w y m"
    "transfer_getById (bd_deps d) T s = Inr a"
  shows "fst a = y"
  using transfer_getById_replays [OF assms(2), of "bd_deps d" T] assms(1,4) saga_invD(1) [OF assms(3)] transfer_history_unique
  by (fastforce simp: quiet_def)

text \<open>A command to the transfer keeps the invariant, whether it is accepted or refused.\<close>

lemma saga_transfer_step:
  assumes "quiet d" "sound (st_events s) (st_snapshots s)" "saga_inv T (stream (st_events s)) recs w y m" "T \<noteq> ''''"
    and "authorised (\<lambda>l. map_option tx_status (recs (leg_id T l))) T c"
    and "transfer_executeWithRetry (bd_deps d) T (transfer_operation c context) s = (r, s')"
  shows "sound (st_events s') (st_snapshots s')" "\<exists>y'. saga_inv T (stream (st_events s')) recs w y' m"
proof -
  note run = transfer_run [OF assms(1,2,6)]
  show "sound (st_events s') (st_snapshots s')" by (rule run(1))
  show "\<exists>y'. saga_inv T (stream (st_events s')) recs w y' m"
  proof (cases r)
    case (Inl e)
    then show ?thesis using run(2) assms(3) by auto
  next
    case (Inr u)
    then obtain stamp x x' e h where x: "transfer_history (stream (st_events s) (transfer_stream T)) x"
        "transfer_operation c context stamp (x, []) = Inr (x', [e])" "transfer_history h x'"
        "stream (st_events s') = (stream (st_events s))(transfer_stream T := h)"
      using run(2) by auto
    have "x = y" using transfer_history_unique [OF x(1) saga_invD(1) [OF assms(3)]] .
    then have "saga_inv T (stream (st_events s')) recs w x' m"
      using saga_inv_transfer [OF assms(3,5,4), of "context" stamp x' "[e]" "stream (st_events s')"] x by simp
    then show ?thesis by blast
  qed
qed

lemma handler_runs:
  assumes "transfer_handler d u c context s = (r, s')"
  shows "s' = s \<or> transfer_executeWithRetry d (case c of InitiateTransfer v _ _ _ _ \<Rightarrow> v | _ \<Rightarrow> u)
     (transfer_operation c context) s = (r, s')"
  using assms by (cases c) (auto simp: transfer_handler_def InitiateTransferHandler_def split: sum.splits)

lemma saga_handler_step:
  assumes "quiet d" "sound (st_events s) (st_snapshots s)" "saga_inv T (stream (st_events s)) recs w y m" "T \<noteq> ''''"
    and "authorised (\<lambda>l. map_option tx_status (recs (leg_id T l))) T c"
    and "transfer_handler (bd_deps d) T c context s = (r, s')"
  shows "sound (st_events s') (st_snapshots s')" "\<exists>y'. saga_inv T (stream (st_events s')) recs w y' m"
proof -
  have "(case c of InitiateTransfer v _ _ _ _ \<Rightarrow> v | _ \<Rightarrow> T) = T"
    using assms(5) by (cases rule: authorised_cases) (auto split: transfer_command.split simp: leg_not_initiate [symmetric] leg_not_initiate)
  then have "s' = s \<or> transfer_executeWithRetry (bd_deps d) T (transfer_operation c context) s = (r, s')"
    using handler_runs [OF assms(6)] by auto
  then show "sound (st_events s') (st_snapshots s')" "\<exists>y'. saga_inv T (stream (st_events s')) recs w y' m"
    using saga_transfer_step [OF assms(1-5)] assms(2,3) by blast+
qed

text \<open>A command to another transfer does not touch this one.\<close>

lemma saga_inv_frame:
  assumes "saga_inv T h recs w y m" "\<And>a. h' (account_stream a) = h (account_stream a)" "h' (transfer_stream T) = h (transfer_stream T)"
  shows "saga_inv T h' recs w y m"
  using assms by (simp add: saga_inv_def Let_def moves_ok_def)

lemma saga_other_transfer:
  assumes "quiet d" "sound (st_events s) (st_snapshots s)" "saga_inv T (stream (st_events s)) recs w y m" "u \<noteq> T"
    and "transfer_executeWithRetry (bd_deps d) u (transfer_operation c context) s = (r, s')"
  shows "sound (st_events s') (st_snapshots s')" "saga_inv T (stream (st_events s')) recs w y m"
proof -
  note run = transfer_run [OF assms(1,2,5)]
  show "sound (st_events s') (st_snapshots s')" by (rule run(1))
  have "stream (st_events s') (account_stream a) = stream (st_events s) (account_stream a)" for a
    using run(2) by (auto split: sum.splits)
  moreover have "stream (st_events s') (transfer_stream T) = stream (st_events s) (transfer_stream T)"
    using run(2) assms(4) by (auto split: sum.splits)
  ultimately show "saga_inv T (stream (st_events s')) recs w y m" using saga_inv_frame [OF assms(3)] by blast
qed

text \<open>The registry under other transaction ids does not touch this transfer either.\<close>

lemma saga_inv_other_record:
  assumes "saga_inv T h recs w y m" "\<And>l. recs' (leg_id T l) = recs (leg_id T l)"
  shows "saga_inv T h recs' w y m"
  using assms by (simp add: saga_inv_def)

lemma begin_frame:
  assumes "tinv t" "transaction_begin tops input rf now t = (adm, t')"
  shows "tinv t'" "x \<noteq> ri_transactionId input \<Longrightarrow> lookup t' x = lookup t x"
  using tx.begin_cases [OF assms] assms(1) by auto

lemma failing_reject:
  assumes "plain_id T" "e \<in> set (caught_errors T)"
  shows "\<not> isTerminalDomainError e"
  using assms by (auto simp: plain_id_def list_all_iff)

lemma done_run_error:
  assumes "quiet d" "sound (st_events s) (st_snapshots s)" "transfer_handler (bd_deps d) T (leg_done l) ctx s = (Inl e, s')"
  shows "\<not> isTerminalDomainError e"
  using transfer_run(2) [OF assms(1,2) assms(3) [unfolded leg_handlers]] done_errors by auto

text \<open>Every step keeps the invariant.\<close>

lemma saga_admit_step:
  assumes q: "quiet d" and plain: "plain_id T" and t: "tinv t" and inv: "saga_inv T h (lookup t) w y m"
    and w: "w i = Some (Started l x z)" and b: "transaction_begin (bd_txns d) (leg_input l z x) True now t = (adm, t')"
  shows "tinv t' \<and> saga_inv T h (lookup t') (w(i \<mapsto>
      (case adm of Proceed \<Rightarrow> Admitted l x z | Replay _ \<Rightarrow> Answered l x | Reject e \<Rightarrow> Failing l e))) y m"
proof -
  have b: "transaction_begin tops (leg_input l z x) True now t = (adm, t')" using b q by (simp add: quiet_def)
  have st: "tr_status y \<noteq> None" and x: "x = leg_id T l" "same_deal z y"
    using saga_inv_jobD [OF inv w] by simp_all
  from tx.begin_cases [OF t b] show ?thesis
  proof (elim disjE)
    assume "(\<exists>e. adm = Reject e) \<and> t' = t"
    then obtain e where e: "adm = Reject e" "t' = t" by blast
    have "e \<in> set (caught_errors T)"
      using tx.begin_reject [OF t b [unfolded e(1)], of "100 * tr_amountMinorUnits z"] x(1)
      by (cases l) (auto simp: caught_errors_def)
    with failing_reject [OF plain] saga_inv_put [OF inv st, of "Failing l e" i] show ?thesis by (simp add: e t)
  next
    assume "\<exists>r. adm = Replay ''accepted'' \<and> t' = t \<and> lookup t (ri_transactionId (leg_input l z x)) = Some r
        \<and> asks_for (leg_input l z x) r \<and> tx_status r = COMPLETED_TRANSACTION"
    then show ?thesis using saga_inv_put [OF inv st, of "Answered l x" i] x(1) t by auto
  next
    assume "\<exists>n. adm = Proceed \<and> tinv t' \<and> lookup t (ri_transactionId (leg_input l z x)) = None
        \<and> parseMoneyToMinorUnits (ri_amount (leg_input l z x)) = Inr n
        \<and> lookup t' = (lookup t)(ri_transactionId (leg_input l z x) \<mapsto> new_transaction_record (leg_input l z x) n now)"
    then obtain n where n: "adm = Proceed" "tinv t'" "lookup t x = None" "parseMoneyToMinorUnits (ri_amount (leg_input l z x)) = Inr n"
        "lookup t' = (lookup t)(x \<mapsto> new_transaction_record (leg_input l z x) n now)" by auto
    from saga_inv_admit [OF inv w n(3,5) _ asks_for_new [OF n(4)]] n(1,2) show ?thesis by (simp add: new_transaction_record_def)
  next
    assume "\<exists>r. adm = Proceed \<and> tinv t' \<and> lookup t (ri_transactionId (leg_input l z x)) = Some r \<and> asks_for (leg_input l z x) r \<and> True
        \<and> tx_status r = FAILED_RETRYABLE
        \<and> lookup t' = (lookup t)(ri_transactionId (leg_input l z x) \<mapsto> set_status PENDING (tx_errorMessage r) now r)"
    then show ?thesis using saga_invD(4) [OF inv] x(1) by (auto simp: records_ok_def)
  qed
qed

lemma saga_run_step:
  assumes q: "quiet d" and sound: "sound (st_events s) (st_snapshots s)" and inv: "saga_inv T (stream (st_events s)) recs w y m"
    and w: "w i = Some (Admitted l x z)"
    and run: "movement_handler d (show_opt (leg_party l z)) (leg_command l z x) context s = (r, s')"
  shows "sound (st_events s') (st_snapshots s') \<and> (\<exists>m'. saga_inv T (stream (st_events s')) recs (w(i \<mapsto> Ran l x z r)) y m')"
proof -
  have st: "tr_status y \<noteq> None" and ok: "x = leg_id T l" "leg_due (\<lambda>l. map_option tx_status (recs (leg_id T l))) l"
      "map_option tx_status (recs (leg_id T l)) = Some PENDING" "\<not> m l"
    using saga_inv_jobD [OF inv w] by simp_all
  obtain r0 where r0: "account_handler (bd_deps d) (show_opt (leg_party l z)) (leg_command l z x) context s = (r0, s')"
      "r = (case r0 of Inl e \<Rightarrow> Inl e | Inr _ \<Rightarrow> Inr ''accepted'')"
    using run by (auto simp: movement_handler_def and_then_def split: prod.splits sum.splits)
  note out = account_run [OF q sound r0(1)]
  show ?thesis
  proof (cases r0)
    case (Inl e)
    then have "stream (st_events s') = stream (st_events s)" "\<not> isRetryableError e"
      using out(2) by (auto simp: refusal_def isRetryableError_def)
    with saga_inv_put [OF inv st, of "Ran l x z (Inl e)" i] w ok have "saga_inv T (stream (st_events s')) recs (w(i \<mapsto> Ran l x z r)) y m"
      using Inl r0(2) by simp
    then show ?thesis using out(1) by blast
  next
    case (Inr u)
    then obtain stamp a a' e e' where e: "account_operation (leg_command l z x) context stamp (a, []) = Inr (a', [e])"
        "same_core e e'" "stream (st_events s') = (stream (st_events s))(account_stream (show_opt (leg_party l z)) :=
            stream (st_events s) (account_stream (show_opt (leg_party l z))) @ [e'])"
      using out(2) by auto
    have "movement (ev_data e') = Some (leg_movement T l z)"
      using account_operation_movement [OF e(1)] e(2) ok(1) by (auto simp: same_core_def)
    with saga_inv_ran [OF inv w e(3)] out(1) Inr r0(2) show ?thesis by auto
  qed
qed

lemma saga_client_step:
  assumes q: "quiet d" and sound: "sound (st_events s) (st_snapshots s)" and inv: "saga_inv T (stream (st_events s)) recs w y m"
    and c: "\<forall>x. command_id c = Some x \<longrightarrow> x \<notin> leg_ids T" and run: "account_handler (bd_deps d) a c context s = (r, s')"
  shows "sound (st_events s') (st_snapshots s') \<and> saga_inv T (stream (st_events s')) recs w y m"
proof -
  note out = account_run [OF q sound run]
  show ?thesis
  proof (cases r)
    case (Inl e)
    then show ?thesis using out inv by simp
  next
    case (Inr u)
    then obtain stamp b b' e e' where e: "account_operation c context stamp (b, []) = Inr (b', [e])"
        "same_core e e'" "stream (st_events s') = (stream (st_events s))(account_stream a := stream (st_events s) (account_stream a) @ [e'])"
      using out(2) by auto
    have "\<forall>mv. movement (ev_data e') = Some mv \<longrightarrow> snd (snd (snd mv)) \<notin> leg_ids T"
      using account_operation_movement [OF e(1)] c e(2) by (auto simp: same_core_def)
    with saga_inv_client_account [OF inv e(3)] out(1) show ?thesis by blast
  qed
qed

lemma saga_step_ok:
  assumes "saga_step d T c lb c'" "saga_ok T c" "quiet d" "plain_id T"
  shows "saga_ok T c'"
proof -
  obtain s t w where c: "c = (s, t, w)" by (cases c)
  obtain y m where ok: "sound (st_events s) (st_snapshots s)" "tinv t" "saga_inv T (stream (st_events s)) (lookup t) w y m"
    using assms(2) by (auto simp: saga_ok_def c)
  note inv = ok(3) and I = saga_invD [OF ok(3)]
  have T: "T \<noteq> ''''" using assms(4) by (simp add: plain_id_def)
  have tops: "bd_txns d = tops" using assms(3) by (simp add: quiet_def)
  from assms(1) show ?thesis
  proof cases
    case (sg_choose w i s a l x t)
    then have "fst a = y" using saga_loads [OF assms(3) ok(1) inv] by (simp add: c)
    with due_leg_ok [OF I(2,3)] sg_choose(5) have "x = leg_id T l" "leg_due (\<lambda>l. map_option tx_status (lookup t (leg_id T l))) l" "tr_status y \<noteq> None"
      using sg_choose c by auto
    then show ?thesis
      using saga_okI [OF ok(1,2)] saga_inv_put [OF inv, of "Chosen l x" i] sg_choose c by auto
  next
    case (sg_load w i l x s a t)
    then have "fst a = y" using saga_loads [OF assms(3) ok(1) inv] by (simp add: c)
    moreover have "w i = Some (Chosen l x)" using sg_load by simp
    ultimately show ?thesis
      using saga_okI [OF ok(1,2)] saga_inv_put [OF inv, of "Loaded l x y" i] saga_inv_jobD [OF inv, of i] sg_load c by auto
  next
    case (sg_start w i l x z ctx s r s' t)
    then have j: "tr_status y \<noteq> None" "x = leg_id T l" "leg_due (\<lambda>l. map_option tx_status (lookup t (leg_id T l))) l" "same_deal z y"
      using saga_inv_jobD [OF inv, of i] c by auto
    have inv2: "saga_inv T (stream (st_events s)) (lookup t) (w(i := (case r of Inr _ \<Rightarrow> Some (Started l x z) | Inl _ \<Rightarrow> None))) y m"
      using saga_inv_put [OF inv j(1), of "Started l x z" i] saga_inv_drop [OF inv, of i] j sg_start(1,2) c by (auto split: sum.split)
    have "authorised (\<lambda>l. map_option tx_status (lookup t (leg_id T l))) T (leg_start l x)"
      using j(2,3) by (auto simp: authorised_def)
    from saga_handler_step [OF assms(3) _ inv2 T this sg_start(6)] ok(1,2) sg_start c show ?thesis
      by (auto simp: saga_ok_def)
  next
    case (sg_skip w i l x z s t)
    then show ?thesis
      using saga_okI [OF ok(1,2)] saga_inv_put [OF inv, of "Started l x z" i] saga_inv_jobD [OF inv, of i] c by auto
  next
    case (sg_admit w i l x z now t adm t' s)
    then show ?thesis
      using saga_admit_step [OF assms(3,4) ok(2) inv, of i l x z now adm t'] saga_okI [OF ok(1)] c by auto
  next
    case (sg_run w i l x z ctx s r s' t)
    then show ?thesis
      using saga_run_step [OF assms(3) ok(1) inv, of i l x z ctx r s'] ok(2) c by (auto simp: saga_ok_def)
  next
    case (sg_conflict w i l x z s t msg)
    then show ?thesis
      using saga_okI [OF ok(1,2)] saga_inv_put [OF inv, of "Ran l x z (Inl (Conflict msg))" i] saga_inv_jobD [OF inv, of i] c
      by (auto simp: isRetryableError_def)
  next
    case (sg_finish w i l x z r s t now)
    then have inv: "saga_inv T (stream (st_events s)) (lookup t) w y m" and ok: "sound (st_events s) (st_snapshots s)" "tinv t"
      using ok c by simp_all
    have w: "w i = Some (Ran l x z r)" by (rule sg_finish(4))
    have t: "lookup t (leg_id T l) \<noteq> None" "x = leg_id T l" and e: "\<And>e. r = Inl e \<Longrightarrow> \<not> isRetryableError e"
      using saga_inv_jobD [OF inv w] by auto
    then obtain rc where rc: "lookup t x = Some rc" by auto
    have "lookup (transaction_finish tops isRetryableError x r now t) = (lookup t)(x \<mapsto> (case r of
        Inr v \<Rightarrow> set_status COMPLETED_TRANSACTION None now rc | Inl e \<Rightarrow> set_status FAILED_TERMINAL (Some (error_message e)) now rc))"
      using tx.finish_effect(2) [OF ok(2)] rc e by (auto split: sum.split)
    from saga_inv_finish [OF inv w rc this] tx.finish_effect(1) [OF ok(2)] ok(1) tops show ?thesis
      by (auto simp: saga_ok_def sg_finish(3))
  next
    case (sg_done w i l x ctx s r s' t)
    then have j: "tr_status y \<noteq> None" "map_option tx_status (lookup t (leg_id T l)) = Some COMPLETED_TRANSACTION"
      using saga_inv_jobD [OF inv, of i] c by auto
    have "authorised (\<lambda>l. map_option tx_status (lookup t (leg_id T l))) T (leg_done l)"
      using j(2) by (auto simp: authorised_def)
    moreover have inv2: "saga_inv T (stream (st_events s)) (lookup t) (w(i := (case r of Inr _ \<Rightarrow> None | Inl e \<Rightarrow> Some (Failing l e)))) y m"
    proof (cases r)
      case (Inl e)
      then have "\<not> isTerminalDomainError e" using done_run_error [OF assms(3), of s] ok(1) sg_done c by blast
      then show ?thesis using saga_inv_put [OF inv j(1), of "Failing l e" i] Inl sg_done(1) c by simp
    next
      case (Inr u)
      then show ?thesis using saga_inv_drop [OF inv, of i] sg_done(1) c by simp
    qed
    ultimately show ?thesis
      using saga_handler_step [OF assms(3) _ inv2 T _ sg_done(5)] ok(1,2) sg_done c by (auto simp: saga_ok_def)
  next
    case (sg_done_conflict w i l x s t)
    then show ?thesis
      using saga_okI [OF ok(1,2)] saga_inv_put [OF inv, of "Failing l (Conflict (transfer_conflict T))" i] saga_inv_jobD [OF inv, of i]
        failing_reject [OF assms(4), of "Conflict (transfer_conflict T)"] c
      by (auto simp: caught_errors_def)
  next
    case (sg_fail w i l e stage ctx s r s' t)
    from ok c sg_fail(1) have inv: "saga_inv T (stream (st_events s)) (lookup t) w y m"
      and ok: "sound (st_events s) (st_snapshots s)" "tinv t" by simp_all
    from sg_fail have "map_option tx_status (lookup t (leg_id T l)) = Some FAILED_TERMINAL"
      using saga_inv_jobD [OF inv, of i] by auto
    then have "authorised (\<lambda>l. map_option tx_status (lookup t (leg_id T l))) T (FailTransfer (error_message e) stage)"
      using sg_fail(5) by (auto simp: authorised_def)
    from saga_handler_step [OF assms(3) _ saga_inv_drop [OF inv, of i] T this sg_fail(7)] ok(1,2) sg_fail c show ?thesis
      by (auto simp: saga_ok_def)
  next
    case (sg_stop s t w i)
    from ok c sg_stop(1) have inv: "saga_inv T (stream (st_events s)) (lookup t) w y m"
      and ok: "sound (st_events s) (st_snapshots s)" "tinv t" by simp_all
    show ?thesis using saga_okI [OF ok saga_inv_drop [OF inv]] sg_stop by simp
  next
    case (sg_client_account cmd a ctx s r s' t w)
    from ok c sg_client_account(1) have inv: "saga_inv T (stream (st_events s)) (lookup t) w y m"
      and ok: "sound (st_events s) (st_snapshots s)" "tinv t" by simp_all
    show ?thesis
      using saga_client_step [OF assms(3) ok(1) inv, of cmd a ctx r s'] ok(2) sg_client_account by (auto simp: saga_ok_def)
  next
    case (sg_client_transfer u cmd ctx s r s' t w)
    from ok c sg_client_transfer(1) have inv: "saga_inv T (stream (st_events s)) (lookup t) w y m"
      and ok: "sound (st_events s) (st_snapshots s)" "tinv t" by simp_all
    let ?v = "case cmd of InitiateTransfer v _ _ _ _ \<Rightarrow> v | _ \<Rightarrow> u"
    from handler_runs [OF sg_client_transfer(5)] show ?thesis
    proof
      assume "s' = s"
      then show ?thesis using assms(2) sg_client_transfer c by simp
    next
      assume run: "transfer_executeWithRetry (bd_deps d) ?v (transfer_operation cmd ctx) s = (r, s')"
      show ?thesis
      proof (cases "?v = T")
        case True
        then have "authorised (\<lambda>l. map_option tx_status (lookup t (leg_id T l))) T cmd"
          using sg_client_transfer(4) by (cases cmd) (auto simp: authorised_def)
        from saga_transfer_step [OF assms(3) ok(1) inv T this run [unfolded True]] ok sg_client_transfer c show ?thesis
          by (auto simp: saga_ok_def)
      next
        case False
        from saga_other_transfer [OF assms(3) ok(1) inv this run] ok sg_client_transfer c show ?thesis
          by (auto simp: saga_ok_def)
      qed
    qed
  next
    case (sg_client_begin input rf now t adm t' s w)
    from ok c sg_client_begin(1) have inv: "saga_inv T (stream (st_events s)) (lookup t) w y m"
      and ok: "sound (st_events s) (st_snapshots s)" "tinv t" by simp_all
    have "lookup t' (leg_id T l) = lookup t (leg_id T l)" for l
      using begin_frame(2) [OF ok(2), of input rf now adm t' "leg_id T l"] tops sg_client_begin by (metis leg_ids_def rangeI)
    with saga_inv_other_record [OF inv, of "lookup t'"] begin_frame(1) [OF ok(2)] ok(1) sg_client_begin tops c show ?thesis
      by (auto simp: saga_ok_def)
  next
    case (sg_client_finish x s t w retryable r now)
    from ok c sg_client_finish(1) have inv: "saga_inv T (stream (st_events s)) (lookup t) w y m"
      and ok: "sound (st_events s) (st_snapshots s)" "tinv t" by simp_all
    have "lookup (transaction_finish tops retryable x r now t) (leg_id T l) = lookup t (leg_id T l)" for l
      using tx.finish_effect(2) [OF ok(2)] sg_client_finish by (auto simp: leg_ids_def)
    with saga_inv_other_record [OF inv] tx.finish_effect(1) [OF ok(2)] ok(1) sg_client_finish tops c show ?thesis
      by (auto simp: saga_ok_def)
  qed
qed

lemma saga_path_ok:
  assumes "path (saga_step d T) c ls c'" "saga_ok T c" "quiet d" "plain_id T"
  shows "saga_ok T c'"
  using assms
proof (induction rule: path.induct)
  case path_Nil
  then show ?case by simp
next
  case (path_snoc ls q l r)
  then show ?case using saga_step_ok by blast
qed

lemma saga_start:
  assumes "sound (st_events s) (st_snapshots s)" "tinv t" "\<forall>x. lookup t x = None" "\<forall>sid. stream (st_events s) sid = []"
  shows "saga_ok T (s, t, Map.empty)"
proof (rule saga_okI [OF assms(1,2)])
  have "transfer_history [] new_transfer_state" by (simp add: transfer_history_def new_transfer_def)
  moreover have "transfer_named T new_transfer_state"
    by (simp add: transfer_named_def new_transfer_ok leg_all) (simp add: new_transfer_state_def)
  moreover have "status_backed r new_transfer_state" for r by (simp add: status_backed_def new_transfer_state_def)
  ultimately show "saga_inv T (stream (st_events s)) (lookup t) Map.empty new_transfer_state (\<lambda>l. False)"
    using assms(3,4) by (simp add: saga_inv_def Let_def records_ok_def jobs_ok_def moves_ok_def settled_ok_def)
qed

lemma saga_summary:
  assumes "saga_ok T (s, t, w)" "quiet d"
  shows "\<exists>y m. transfer_getById (bd_deps d) T s = Inr (y, [])
    \<and> (\<forall>l a. moves (stream (st_events s) (account_stream a)) (leg_id T l)
         = (if m l \<and> a = show_opt (leg_party l y) then [leg_movement T l y] else []))
    \<and> (\<bar>tr_amountMinorUnits y\<bar> < 10 ^ 15 \<longrightarrow> moved_amount y = tr_amountMinorUnits y)
    \<and> (m LegCredit \<or> m LegCompensation \<longrightarrow> m LegDebit) \<and> \<not> (m LegCredit \<and> m LegCompensation)
    \<and> (case phase_of y of
         Absent \<Rightarrow> \<not> m LegDebit
       | Completed \<Rightarrow> m LegCredit
       | Compensated \<Rightarrow> m LegCompensation
       | FailedAt DEBIT \<Rightarrow> \<not> m LegDebit
       | _ \<Rightarrow> True)"
proof -
  obtain y m where ok: "sound (st_events s) (st_snapshots s)" "saga_inv T (stream (st_events s)) (lookup t) w y m"
    using assms(1) by (auto simp: saga_ok_def)
  note I = saga_invD [OF ok(2)]
  let ?r = "\<lambda>l. map_option tx_status (lookup t (leg_id T l))"
  have load: "transfer_getById (bd_deps d) T s = Inr (y, [])"
    using transfer_getById_replays [OF ok(1), of "bd_deps d" T] assms(2) I(1) transfer_history_unique by (fastforce simp: quiet_def)
  have detour: "\<bar>tr_amountMinorUnits y\<bar> < 10 ^ 15 \<longrightarrow> moved_amount y = tr_amountMinorUnits y"
    using number_detour by (auto simp: moved_amount_def)
  have due: "leg_due ?r l" if "m l" for l
    using that I(4,7) unfolding records_ok_def settled_ok_def by (metis not_None_eq option.map_disc_iff)
  have paid: "m l" if "?r l = Some COMPLETED_TRANSACTION" for l using that I(7) by (auto simp: settled_ok_def)
  have failed: "\<not> m l" if "?r l = Some FAILED_TERMINAL" for l using that I(7) by (auto simp: settled_ok_def)
  have credit_due: "?r LegDebit = Some COMPLETED_TRANSACTION" if "?r LegCredit \<noteq> None"
    using I(4) that unfolding records_ok_def by fastforce
  have order: "(m LegCredit \<or> m LegCompensation \<longrightarrow> m LegDebit) \<and> \<not> (m LegCredit \<and> m LegCompensation)"
    using due [of LegCredit] due [of LegCompensation] paid [of LegDebit] failed [of LegCredit] credit_due by auto
  have absent: "\<not> m LegDebit" if "tr_status y = None"
    using I(4,7) that unfolding records_ok_def settled_ok_def by (metis not_None_eq option.map_disc_iff)
  have "case phase_of y of Absent \<Rightarrow> \<not> m LegDebit | Completed \<Rightarrow> m LegCredit | Compensated \<Rightarrow> m LegCompensation
       | FailedAt DEBIT \<Rightarrow> \<not> m LegDebit | _ \<Rightarrow> True"
    using I(3) absent paid failed
    by (auto simp: status_backed_def phase_of_def split: option.splits transfer_status.splits stage.splits)
  with load detour order I(6) show ?thesis unfolding moves_ok_def by blast
qed

end

section \<open>The stores the service runs on\<close>

interpretation memory_saga: saga_bank memory_event_store me_inv me_stream me_allEvents me_restamp "\<lambda>_ _. True"
    memory_snapshot_store "\<lambda>_. True" ms_latest memory_transaction_repository "\<lambda>_. True" "\<lambda>s. s"
  by unfold_locales

interpretation postgres_saga: saga_bank postgres_event_store pg_inv pg_stream pg_journal pg_restamp pg_fresh
    postgres_snapshot_store ps_inv ps_latest postgres_transaction_repository pt_inv pt_lookup
  by unfold_locales

definition pg_bank ::
  "(nat \<Rightarrow> stamp) \<Rightarrow> ((pg_events, pg_snapshots) stores \<Rightarrow> int) \<Rightarrow> (pg_events, pg_snapshots, pg_transactions) bank_deps" where
  "pg_bank stamps clock =
     \<lparr>bd_deps = pg_deps stamps (\<lambda>n x. x), bd_txns = postgres_transaction_repository, bd_clock = clock\<rparr>"

lemma pg_bank_quiet: "postgres_saga.quiet (pg_bank stamps clock)"
  by (simp add: postgres_saga.quiet_def pg_bank_def pg_deps_def)

lemma pg_saga_start: "postgres_saga.saga_ok T (empty_pg_stores, [], Map.empty)"
  by (rule postgres_saga.saga_start [OF empty_pg_sound])
    (simp_all add: pt_inv_def pt_lookup_def empty_pg_stores_def pg_stream_def empty_pg_events_def)

end
