(* ===== verification/SagaRuns.thy ===== *)
theory SagaRuns
  imports Saga "HOL-Library.Code_Target_Nat"
begin

text \<open>
  Executable runs of the coordinators: a scheduler whose turns are steps of \<open>saga_step\<close>, the ordinary
  way of a transfer and the interleaving in which a transfer pays twice.
\<close>

section \<open>Schedules\<close>

fun job_turn ::
  "('es, 'ss, 't) bank_deps \<Rightarrow> string \<Rightarrow> command_context \<Rightarrow> ('es, 'ss) stores \<Rightarrow> 't \<Rightarrow> job option
     \<Rightarrow> ('es, 'ss) stores \<times> 't \<times> job option" where
  "job_turn d T ctx s t None =
     (case transfer_getById (bd_deps d) T s of
        Inl e \<Rightarrow> (s, t, None)
      | Inr a \<Rightarrow> (s, t, map_option (\<lambda>(l, x). Chosen l x) (due_leg (fst a))))"
| "job_turn d T ctx s t (Some (Chosen l x)) =
     (case transfer_getById (bd_deps d) T s of Inl e \<Rightarrow> (s, t, None) | Inr a \<Rightarrow> (s, t, Some (Loaded l x (fst a))))"
| "job_turn d T ctx s t (Some (Loaded l x y)) =
     (if leg_resumes l (tr_status y)
      then (case transfer_handler (bd_deps d) T (leg_start l x) ctx s of
              (r, s') \<Rightarrow> (s', t, case r of Inr _ \<Rightarrow> Some (Started l x y) | Inl _ \<Rightarrow> None))
      else (s, t, Some (Started l x y)))"
| "job_turn d T ctx s t (Some (Started l x y)) =
     (case transaction_begin (bd_txns d) (leg_input l y x) True (bd_clock d s) t of
        (adm, t') \<Rightarrow> (s, t', Some
          (case adm of Proceed \<Rightarrow> Admitted l x y | Replay _ \<Rightarrow> Answered l x | Reject e \<Rightarrow> Failing l e)))"
| "job_turn d T ctx s t (Some (Admitted l x y)) =
     (case movement_handler d (show_opt (leg_party l y)) (leg_command l y x) ctx s of
        (r, s') \<Rightarrow> (s', t, Some (Ran l x y r)))"
| "job_turn d T ctx s t (Some (Ran l x y r)) =
     (s, transaction_finish (bd_txns d) isRetryableError x r (bd_clock d s) t,
        Some (case r of Inr _ \<Rightarrow> Answered l x | Inl e \<Rightarrow> Failing l e))"
| "job_turn d T ctx s t (Some (Answered l x)) =
     (case transfer_handler (bd_deps d) T (leg_done l) ctx s of
        (r, s') \<Rightarrow> (s', t, case r of Inr _ \<Rightarrow> None | Inl e \<Rightarrow> Some (Failing l e)))"
| "job_turn d T ctx s t (Some (Failing l e)) =
     (case leg_stage l of
        None \<Rightarrow> (s, t, None)
      | Some stage \<Rightarrow>
          if isTerminalDomainError e
          then (case transfer_handler (bd_deps d) T (FailTransfer (error_message e) stage) ctx s of
                  (r, s') \<Rightarrow> (s', t, None))
          else (s, t, None))"

definition coordinator_turn ::
  "('es, 'ss, 't) bank_deps \<Rightarrow> string \<Rightarrow> command_context \<Rightarrow> nat \<Rightarrow> ('es, 'ss, 't) saga \<Rightarrow> ('es, 'ss, 't) saga" where
  "coordinator_turn d T ctx i g =
     (case g of (s, t, w) \<Rightarrow> (case job_turn d T ctx s t (w i) of (s', t', j) \<Rightarrow> (s', t', w(i := j))))"

lemma turn_is_step: "saga_step d T g (Coordinator i) (coordinator_turn d T ctx i g)"
proof -
  obtain s t w where g: "g = (s, t, w)" by (cases g)
  show ?thesis
  proof (cases "w i")
    case (Some j)
    then show ?thesis
      by (cases j)
        (auto simp: g coordinator_turn_def split: sum.split option.split prod.split
          intro: saga_step.intros sg_load [where a = "(y, us)" for y us, simplified]
            sg_start [where r = "Inl e" for e, simplified] sg_start [where r = "Inr v" for v, simplified]
            sg_finish [where r = "Inl e" for e, simplified] sg_finish [where r = "Inr v" for v, simplified]
            sg_done [where r = "Inl e" for e, simplified] sg_done [where r = "Inr v" for v, simplified])
  qed (auto simp: g coordinator_turn_def map_option_case split: sum.split option.split intro: saga_step.intros)
qed

text \<open>What a schedule consists of: a coordinator's turn, a client's account command, the request for the transfer.\<close>

datatype act = Turn nat | ClientAccount string account_command | ClientTransfer string string money_input string

definition client_may :: "string \<Rightarrow> account_command \<Rightarrow> bool" where
  "client_may T c \<longleftrightarrow> (case command_id c of None \<Rightarrow> True
     | Some x \<Rightarrow> x \<notin> set (map (leg_id T) [LegDebit, LegCredit, LegCompensation]))"

fun act_on :: "('es, 'ss, 't) bank_deps \<Rightarrow> string \<Rightarrow> command_context \<Rightarrow> act \<Rightarrow> ('es, 'ss, 't) saga \<Rightarrow> ('es, 'ss, 't) saga" where
  "act_on d T ctx (Turn i) g = coordinator_turn d T ctx i g"
| "act_on d T ctx (ClientAccount a c) (s, t, w) =
     (if client_may T c then (snd (account_handler (bd_deps d) a c ctx s), t, w) else (s, t, w(0 := w 0)))"
| "act_on d T ctx (ClientTransfer src dst amount currency) (s, t, w) =
     (snd (transfer_handler (bd_deps d) T (InitiateTransfer T src dst amount currency) ctx s), t, w)"

lemma leg_ids_list: "leg_ids T = set (map (leg_id T) [LegDebit, LegCredit, LegCompensation])"
proof -
  have "l \<in> {LegDebit, LegCredit, LegCompensation}" for l by (cases l) simp_all
  then have all: "(UNIV :: leg set) = {LegDebit, LegCredit, LegCompensation}" by blast
  show ?thesis unfolding leg_ids_def all by simp
qed

lemma path_trans: "path step q ks r \<Longrightarrow> path step p ls q \<Longrightarrow> path step p (ls @ ks) r"
proof (induction rule: path.induct)
  case path_Nil
  then show ?case by simp
next
  case (path_snoc q0 ks q1 l r)
  then have "path step p (ls @ ks) q1" by simp
  from path.path_snoc [OF this path_snoc(2)] show ?case by simp
qed

lemma act_is_path: "\<exists>ls. path (saga_step d T) g ls (act_on d T ctx a g)"
proof (cases a)
  case (Turn i)
  have "saga_step d T g (Coordinator i) (act_on d T ctx a g)" using turn_is_step [of d T g i ctx] by (simp add: Turn)
  from path_single [where step = "saga_step d T", OF this] show ?thesis by blast
next
  case (ClientAccount b c)
  obtain s t w where g: "g = (s, t, w)" by (cases g)
  show ?thesis
  proof (cases "client_may T c")
    case True
    then have "\<forall>x. command_id c = Some x \<longrightarrow> x \<notin> leg_ids T" by (auto simp: client_may_def leg_ids_list)
    from sg_client_account [OF this, of d b ctx s "fst (account_handler (bd_deps d) b c ctx s)"
        "snd (account_handler (bd_deps d) b c ctx s)"] have "saga_step d T g Client (act_on d T ctx a g)"
      using True by (simp add: g ClientAccount)
    from path_single [where step = "saga_step d T", OF this] show ?thesis by blast
  next
    case False
    then show ?thesis using path_Nil [of "saga_step d T" g] by (auto simp: g ClientAccount)
  qed
next
  case (ClientTransfer src dst amount currency)
  obtain s t w where g: "g = (s, t, w)" by (cases g)
  have "saga_step d T g Client (act_on d T ctx a g)"
    using sg_client_transfer [of T T "InitiateTransfer T src dst amount currency" d ctx s
        "fst (transfer_handler (bd_deps d) T (InitiateTransfer T src dst amount currency) ctx s)"
        "snd (transfer_handler (bd_deps d) T (InitiateTransfer T src dst amount currency) ctx s)"]
    by (simp add: g ClientTransfer)
  from path_single [where step = "saga_step d T", OF this] show ?thesis by blast
qed

definition run_schedule ::
  "('es, 'ss, 't) bank_deps \<Rightarrow> string \<Rightarrow> command_context \<Rightarrow> act list \<Rightarrow> ('es, 'ss, 't) saga \<Rightarrow> ('es, 'ss, 't) saga" where
  "run_schedule d T ctx acts g = fold (act_on d T ctx) acts g"

lemma schedule_is_path: "\<exists>ls. path (saga_step d T) g ls (run_schedule d T ctx acts g)"
proof (induction acts arbitrary: g)
  case Nil
  then show ?case using path_Nil [of "saga_step d T" g] by (auto simp: run_schedule_def)
next
  case (Cons a acts)
  obtain ls where "path (saga_step d T) g ls (act_on d T ctx a g)" using act_is_path by blast
  moreover obtain ls' where "path (saga_step d T) (act_on d T ctx a g) ls' (run_schedule d T ctx acts (act_on d T ctx a g))"
    using Cons by blast
  ultimately have "path (saga_step d T) g (ls @ ls') (run_schedule d T ctx acts (act_on d T ctx a g))"
    by (intro path_trans)
  then show ?case by (auto simp: run_schedule_def)
qed

section \<open>The coordinator's program is a sequence of steps\<close>

definition reaches :: "('es, 'ss, 't) bank_deps \<Rightarrow> string \<Rightarrow> ('es, 'ss, 't) saga \<Rightarrow> ('es, 'ss, 't) saga \<Rightarrow> bool" where
  "reaches d T g g' \<longleftrightarrow> (\<exists>ls. path (saga_step d T) g ls g')"

lemma reaches_refl: "reaches d T g g"
  unfolding reaches_def using path_Nil [of "saga_step d T" g] by blast

lemma reaches_first:
  assumes "saga_step d T g lb g'" "reaches d T g' g''"
  shows "reaches d T g g''"
proof -
  obtain ls where "path (saga_step d T) g' ls g''" using assms(2) unfolding reaches_def by blast
  from path_trans [OF this path_single [where step = "saga_step d T", OF assms(1)]] show ?thesis unfolding reaches_def by blast
qed

text \<open>The state of the stores and records after a run of the program, with the coordinator idle.\<close>

definition idle_at :: "nat \<Rightarrow> (nat \<rightharpoonup> job) \<Rightarrow> 'r \<times> ('es, 'ss, 't) bank \<Rightarrow> ('es, 'ss, 't) saga" where
  "idle_at i w rb = (bk_stores (snd rb), bk_txns (snd rb), w(i := None))"

lemma idle_at_simps [simp]:
  "idle_at i w (r, b) = (bk_stores b, bk_txns b, w(i := None))"
  by (simp add: idle_at_def)

lemma via_stores_apply: "via_stores m b = (fst (m (bk_stores b)), b\<lparr>bk_stores := snd (m (bk_stores b))\<rparr>)"
  by (simp add: via_stores_def on_field_def split: prod.split)

lemma failing_runs:
  "reaches d T (bk_stores b, bk_txns b, w(i \<mapsto> Failing l e)) (idle_at i w (leg_catch d l T ctx e b))"
proof (cases "leg_stage l")
  case (Some stage)
  show ?thesis
  proof (cases "isTerminalDomainError e")
    case True
    let ?m = "transfer_handler (bd_deps d) T (FailTransfer (error_message e) stage) ctx (bk_stores b)"
    have "saga_step d T (bk_stores b, bk_txns b, w(i \<mapsto> Failing l e)) (Coordinator i)
        (snd ?m, bk_txns b, (w(i \<mapsto> Failing l e))(i := None))"
      by (rule sg_fail [where r = "fst ?m"]) (use Some True in simp_all)
    from reaches_first [OF this reaches_refl] show ?thesis
      using Some True by (simp add: leg_catch_def via_stores_apply)
  next
    case False
    from reaches_first [OF sg_stop [where w = "w(i \<mapsto> Failing l e)" and i = i] reaches_refl] show ?thesis
      using Some False by (simp add: leg_catch_def)
  qed
next
  case None
  from reaches_first [OF sg_stop [where w = "w(i \<mapsto> Failing l e)" and i = i] reaches_refl] show ?thesis
    using None by (simp add: leg_catch_def)
qed

lemma answered_runs:
  "reaches d T (bk_stores b, bk_txns b, w(i \<mapsto> Answered l x))
     (idle_at i w (catching (via_stores (transfer_handler (bd_deps d) T (leg_done l) ctx)) (leg_catch d l T ctx) b))"
proof -
  obtain r s' where m: "transfer_handler (bd_deps d) T (leg_done l) ctx (bk_stores b) = (r, s')" by fastforce
  have step: "saga_step d T (bk_stores b, bk_txns b, w(i \<mapsto> Answered l x)) (Coordinator i)
      (s', bk_txns b, w(i := (case r of Inr _ \<Rightarrow> None | Inl e \<Rightarrow> Some (Failing l e))))"
    using sg_done [of "w(i \<mapsto> Answered l x)" i l x d T ctx "bk_stores b" r s' "bk_txns b"] m by simp
  show ?thesis
  proof (cases r)
    case (Inl e)
    with step have "saga_step d T (bk_stores b, bk_txns b, w(i \<mapsto> Answered l x)) (Coordinator i)
        (s', bk_txns b, w(i \<mapsto> Failing l e))" by simp
    from reaches_first [OF this] failing_runs [of d T "b\<lparr>bk_stores := s'\<rparr>" w i l e ctx] Inl m show ?thesis
      by (simp add: catching_def via_stores_apply)
  next
    case (Inr u)
    with step have "saga_step d T (bk_stores b, bk_txns b, w(i \<mapsto> Answered l x)) (Coordinator i) (s', bk_txns b, w(i := None))"
      by simp
    from reaches_first [OF this reaches_refl] Inr m show ?thesis by (simp add: catching_def via_stores_apply)
  qed
qed

lemma started_runs:
  "reaches d T (bk_stores b, bk_txns b, w(i \<mapsto> Started l x y))
     (idle_at i w (catching (and_then (registry_execute d (leg_input l y x)
           (movement_handler d (show_opt (leg_party l y)) (leg_command l y x) ctx))
         (\<lambda>_. via_stores (transfer_handler (bd_deps d) T (leg_done l) ctx))) (leg_catch d l T ctx) b))"
proof -
  let ?m = "movement_handler d (show_opt (leg_party l y)) (leg_command l y x) ctx"
  obtain adm t1 where adm: "transaction_begin (bd_txns d) (leg_input l y x) True (bd_clock d (bk_stores b)) (bk_txns b) = (adm, t1)"
    by fastforce
  have step: "saga_step d T (bk_stores b, bk_txns b, w(i \<mapsto> Started l x y)) (Coordinator i) (bk_stores b, t1, w(i \<mapsto>
      (case adm of Proceed \<Rightarrow> Admitted l x y | Replay _ \<Rightarrow> Answered l x | Reject e \<Rightarrow> Failing l e)))"
    using sg_admit [of "w(i \<mapsto> Started l x y)" i l x y d _ "bk_txns b" adm t1 T "bk_stores b"] adm by simp
  show ?thesis
  proof (cases adm)
    case Proceed
    obtain out s2 where out: "?m (bk_stores b) = (out, s2)" by fastforce
    let ?t2 = "transaction_finish (bd_txns d) isRetryableError x out (bd_clock d s2) t1"
    have reg: "registry_execute d (leg_input l y x) ?m b = (out, b\<lparr>bk_stores := s2, bk_txns := ?t2\<rparr>)"
      using adm out Proceed by (simp add: registry_execute_def on_field_def transaction_execute_def)
    have run: "saga_step d T (bk_stores b, t1, w(i \<mapsto> Admitted l x y)) (Coordinator i) (s2, t1, w(i \<mapsto> Ran l x y out))"
      using sg_run [of "w(i \<mapsto> Admitted l x y)" i l x y d ctx "bk_stores b" out s2 T t1] out by simp
    have fin: "saga_step d T (s2, t1, w(i \<mapsto> Ran l x y out)) (Coordinator i)
        (s2, ?t2, w(i \<mapsto> (case out of Inr _ \<Rightarrow> Answered l x | Inl e \<Rightarrow> Failing l e)))"
      using sg_finish [of "w(i \<mapsto> Ran l x y out)" i l x y out d T s2 t1 "bd_clock d s2"] by simp
    show ?thesis
    proof (cases out)
      case (Inl e)
      with failing_runs [of d T "b\<lparr>bk_stores := s2, bk_txns := ?t2\<rparr>" w i l e ctx] reg
      show ?thesis using reaches_first [OF step] reaches_first [OF run] reaches_first [OF fin] Proceed Inl
        by (simp add: catching_def and_then_def)
    next
      case (Inr v)
      with answered_runs [of d T "b\<lparr>bk_stores := s2, bk_txns := ?t2\<rparr>" w i l x ctx] reg
      show ?thesis using reaches_first [OF step] reaches_first [OF run] reaches_first [OF fin] Proceed Inr
        by (simp add: catching_def and_then_def)
    qed
  next
    case (Replay resp)
    then have "registry_execute d (leg_input l y x) ?m b = (Inr resp, b\<lparr>bk_txns := t1\<rparr>)"
      using adm by (simp add: registry_execute_def on_field_def transaction_execute_def)
    with answered_runs [of d T "b\<lparr>bk_txns := t1\<rparr>" w i l x ctx] reaches_first [OF step] Replay
    show ?thesis by (simp add: catching_def and_then_def)
  next
    case (Reject e)
    then have "registry_execute d (leg_input l y x) ?m b = (Inl e, b\<lparr>bk_txns := t1\<rparr>)"
      using adm by (simp add: registry_execute_def on_field_def transaction_execute_def)
    with failing_runs [of d T "b\<lparr>bk_txns := t1\<rparr>" w i l e ctx] reaches_first [OF step] Reject
    show ?thesis by (simp add: catching_def and_then_def)
  qed
qed

lemma leg_runs:
  "reaches d T (bk_stores b, bk_txns b, w(i \<mapsto> Chosen l x)) (idle_at i w (process_leg d l T ctx x b))"
proof (cases "transfer_getById (bd_deps d) T (bk_stores b)")
  case (Inl e)
  from reaches_first [OF sg_stop [where w = "w(i \<mapsto> Chosen l x)" and i = i] reaches_refl] Inl show ?thesis
    by (simp add: process_leg_def)
next
  case (Inr a)
  have load: "saga_step d T (bk_stores b, bk_txns b, w(i \<mapsto> Chosen l x)) (Coordinator i)
      (bk_stores b, bk_txns b, w(i \<mapsto> Loaded l x (fst a)))"
    using sg_load [of "w(i \<mapsto> Chosen l x)" i l x d T "bk_stores b" a "bk_txns b"] Inr by simp
  show ?thesis
  proof (cases "leg_resumes l (tr_status (fst a))")
    case True
    obtain r s' where m: "transfer_handler (bd_deps d) T (leg_start l x) ctx (bk_stores b) = (r, s')" by fastforce
    have start: "saga_step d T (bk_stores b, bk_txns b, w(i \<mapsto> Loaded l x (fst a))) (Coordinator i)
        (s', bk_txns b, w(i := (case r of Inr _ \<Rightarrow> Some (Started l x (fst a)) | Inl _ \<Rightarrow> None)))"
      using sg_start [of "w(i \<mapsto> Loaded l x (fst a))" i l x "fst a" d T ctx "bk_stores b" r s' "bk_txns b"] True m by simp
    show ?thesis
    proof (cases r)
      case (Inl e)
      with start have "saga_step d T (bk_stores b, bk_txns b, w(i \<mapsto> Loaded l x (fst a))) (Coordinator i) (s', bk_txns b, w(i := None))"
        by simp
      from reaches_first [OF load reaches_first [OF this reaches_refl]] show ?thesis
        using Inl True \<open>transfer_getById (bd_deps d) T (bk_stores b) = Inr a\<close> m
        by (simp add: process_leg_def and_then_def via_stores_apply)
    next
      case (Inr u)
      with started_runs [of d T "b\<lparr>bk_stores := s'\<rparr>" w i l x "fst a" ctx] reaches_first [OF load] reaches_first [OF start]
      show ?thesis using True \<open>transfer_getById (bd_deps d) T (bk_stores b) = Inr a\<close> m
        by (simp add: process_leg_def and_then_def [of "via_stores _"] via_stores_apply)
    qed
  next
    case False
    have skip: "saga_step d T (bk_stores b, bk_txns b, w(i \<mapsto> Loaded l x (fst a))) (Coordinator i)
        (bk_stores b, bk_txns b, w(i \<mapsto> Started l x (fst a)))"
      using sg_skip [of "w(i \<mapsto> Loaded l x (fst a))" i l x "fst a" d T] False by simp
    from started_runs [of d T b w i l x "fst a" ctx] reaches_first [OF load] reaches_first [OF skip] Inr False
    show ?thesis by (simp add: process_leg_def)
  qed
qed

text \<open>C3: The steps are the program's: running \<open>processTransfer\<close> from beginning to end is a sequence of steps
  of one coordinator from idle to idle, whatever it does on the way, so that everything shown of the
  interleaved steps holds of the program as it is written.\<close>

theorem processTransfer_is_steps:
  assumes "\<And>a. transfer_getById (bd_deps d) T (bk_stores b) = Inr a \<Longrightarrow> tr_status (fst a) \<noteq> None \<Longrightarrow> tr_transferId (fst a) = Some T"
    and "w i = None"
  shows "\<exists>ls. path (saga_step d T) (bk_stores b, bk_txns b, w) ls
     (bk_stores (snd (processTransfer d T b)), bk_txns (snd (processTransfer d T b)), w)"
proof -
  have idle: "w(i := None) = w" using assms(2) by (simp add: fun_eq_iff)
  have "reaches d T (bk_stores b, bk_txns b, w) (idle_at i w (processTransfer d T b))"
  proof (cases "transfer_getById (bd_deps d) T (bk_stores b)")
    case (Inl e)
    then show ?thesis using reaches_refl by (simp add: processTransfer_due idle)
  next
    case (Inr a)
    show ?thesis
    proof (cases "due_leg (fst a)")
      case None
      then show ?thesis using reaches_refl Inr by (simp add: processTransfer_due idle)
    next
      case (Some lx)
      obtain l x where lx: "lx = (l, x)" by (cases lx)
      let ?ctx = "makeContext T (st_uuid (dp_stamps (bd_deps d) (st_tick (bk_stores b))))"
      have "tr_status (fst a) \<noteq> None" using Some by (cases "tr_status (fst a)") (simp_all add: due_leg_def Let_def)
      then have id: "show_opt (tr_transferId (fst a)) = T" using assms(1) [OF Inr] by (simp add: show_opt_def)
      have "idle_at i w (processTransfer d T b) = idle_at i w (process_leg d l T ?ctx x b)"
        using Inr Some by (simp add: processTransfer_due lx id idle_at_def catching_def split: prod.split sum.split)
      moreover have "saga_step d T (bk_stores b, bk_txns b, w) (Coordinator i) (bk_stores b, bk_txns b, w(i \<mapsto> Chosen l x))"
        using sg_choose [of w i d T "bk_stores b" a l x "bk_txns b"] assms(2) Inr Some lx by simp
      ultimately show ?thesis using reaches_first leg_runs [of d T b w i l x ?ctx] by metis
    qed
  qed
  then show ?thesis by (simp add: reaches_def idle_at_def idle)
qed

section \<open>Every run\<close>



section \<open>Two runs\<close>

text \<open>The runs use the in-memory stores and a clock that stands still.\<close>

definition demo_bank :: "(memory_events, memory_snapshots, memory_transactions) bank_deps" where
  "demo_bank =
     \<lparr>bd_deps = \<lparr>dp_events = memory_event_store, dp_snapshots = memory_snapshot_store,
        dp_stamps = (\<lambda>n. \<lparr>st_uuid = ''e'', st_now = 0\<rparr>), dp_others = (\<lambda>n x. x)\<rparr>,
      bd_txns = memory_transaction_repository, bd_clock = (\<lambda>s. 0)\<rparr>"

definition demo_start :: "(memory_events, memory_snapshots, memory_transactions) saga" where
  "demo_start = (\<lparr>st_events = empty_memory_events, st_snapshots = Map.empty, st_tick = 0\<rparr>, Map.empty, Map.empty)"

definition demo_clients :: "act list" where
  "demo_clients =
     [ClientAccount ''a'' (CreateAccount ''a'' ''o'' ''USD''), ClientAccount ''b'' (CreateAccount ''b'' ''o'' ''USD''),
      ClientAccount ''a'' (DepositMoney (StringAmount ''9.00'') ''USD'' ''x''),
      ClientTransfer ''a'' ''b'' (StringAmount ''5.00'') ''USD'']"

text \<open>How often the three legs have moved money between \<open>a\<close> and \<open>b\<close>, the two balances and the status.\<close>

definition demo_result :: "string \<Rightarrow> (memory_events, memory_snapshots, memory_transactions) saga
    \<Rightarrow> nat list \<times> int list \<times> transfer_status option" where
  "demo_result T g =
     (let s = fst g; count = (\<lambda>l a. length (moves (me_stream (st_events s) (account_stream a)) (leg_id T l)));
          balance = (\<lambda>a. case account_getById (bd_deps demo_bank) a s of Inl e \<Rightarrow> - 1 | Inr x \<Rightarrow> acc_balance (fst x))
      in ([count LegDebit ''a'', count LegCredit ''b'', count LegCompensation ''a''], [balance ''a'', balance ''b''],
          case transfer_getById (bd_deps demo_bank) T s of Inl e \<Rightarrow> None | Inr y \<Rightarrow> tr_status (fst y)))"

theorem processTransfer_is_steps_witness:
  "\<exists>ls. path (saga_step demo_bank ''T'')
     (fst (run_schedule demo_bank ''T'' sample_context demo_clients demo_start), Map.empty, Map.empty) ls
     (bk_stores (snd (processTransfer demo_bank ''T''
        \<lparr>bk_stores = fst (run_schedule demo_bank ''T'' sample_context demo_clients demo_start), bk_txns = Map.empty\<rparr>)),
      bk_txns (snd (processTransfer demo_bank ''T''
        \<lparr>bk_stores = fst (run_schedule demo_bank ''T'' sample_context demo_clients demo_start), bk_txns = Map.empty\<rparr>)), Map.empty)"
proof -
  let ?s = "fst (run_schedule demo_bank ''T'' sample_context demo_clients demo_start)"
  have "case transfer_getById (bd_deps demo_bank) ''T'' ?s of Inl e \<Rightarrow> True | Inr a \<Rightarrow> tr_transferId (fst a) = Some ''T''"
    by code_simp
  then have "tr_transferId (fst a) = Some ''T''"
    if "transfer_getById (bd_deps demo_bank) ''T'' (bk_stores \<lparr>bk_stores = ?s, bk_txns = Map.empty\<rparr>) = Inr a" for a
    using that by simp
  from processTransfer_is_steps [of demo_bank "''T''" "\<lparr>bk_stores = ?s, bk_txns = Map.empty\<rparr>" Map.empty 0, OF this]
  show ?thesis by simp
qed

text \<open>The ordinary way of a transfer exists: one coordinator, undisturbed, takes a transfer of 5.00 from a
  source with 9.00 to completion in fourteen steps; the source is left with 4.00 and the destination has
  5.00, each leg having moved money exactly once and the compensation not at all.\<close>

theorem transfer_completes:
  "\<exists>ls g. path (saga_step demo_bank ''T'') demo_start ls g
     \<and> demo_result ''T'' g = ([1, 1, 0], [400, 500], Some T_COMPLETED)"
proof -
  have "demo_result ''T'' (run_schedule demo_bank ''T'' sample_context (demo_clients @ replicate 14 (Turn 1)) demo_start)
      = ([1, 1, 0], [400, 500], Some T_COMPLETED)" by code_simp
  with schedule_is_path [of demo_bank "''T''" demo_start sample_context "demo_clients @ replicate 14 (Turn 1)"]
  show ?thesis by blast
qed

text \<open>C2: A transfer can pay twice when its id, which the client chooses, contains one of the phrases by which
  the coordinator recognises a terminal error: while one coordinator is about to deposit, a second one is
  refused by the registry with a conflict whose message quotes the id, takes it for a terminal failure of
  the credit, and the source is paid back; the first coordinator's deposit then goes through as well.  Of
  9.00 in the bank the transfer makes 14.00.\<close>

theorem transfer_pays_twice:
  "\<not> plain_id ''not found'' \<and>
   (\<exists>ls g. path (saga_step demo_bank ''not found'') demo_start ls g
     \<and> demo_result ''not found'' g = ([1, 1, 1], [900, 500], Some T_COMPENSATED))"
proof -
  let ?acts = "demo_clients @ replicate 11 (Turn 1) @ replicate 5 (Turn 2) @ [Turn 1] @ replicate 7 (Turn 3)"
  have "demo_result ''not found'' (run_schedule demo_bank ''not found'' sample_context ?acts demo_start)
      = ([1, 1, 1], [900, 500], Some T_COMPENSATED)" by code_simp
  moreover have "\<not> plain_id ''not found''"
    by (simp add: plain_id_def caught_errors_def isTerminalDomainError_def transfer_conflict_def)
  ultimately show ?thesis
    using schedule_is_path [of demo_bank "''not found''" demo_start sample_context ?acts] by blast
qed

text \<open>No failure of a leg is ever recorded as retryable: \<open>isRetryableError\<close> asks for an error class that only the catch
  block around the registry throws, so the handler it is asked about never does.  A deposit that lost against three
  interfering writes, say, is recorded as a terminal failure, and its leg refuses every later attempt.\<close>

theorem failed_legs_are_never_reopened:
  assumes "bd_deps d = pg_deps stamps others" and "postgres_stores.fair (pg_deps stamps others)"
    and "postgres_stores.sound (st_events s) (st_snapshots s)"
    and "movement_handler d accountId c context s = (Inl e, s')"
  shows "transaction_finish ops isRetryableError t (Inl e) now x = xp_markFailed ops t (error_message e) FAILED_TERMINAL now x"
proof -
  from assms(4) have "account_handler (pg_deps stamps others) accountId c context s = (Inl e, s')"
    by (auto simp: movement_handler_def and_then_def assms(1) split: prod.splits sum.splits)
  from postgres_stores.account_handler_outcome [OF assms(2,3) this]
  have "refusal e \<or> (\<exists>msg. e = Conflict msg)" by auto
  then show ?thesis by (auto simp: refusal_def transaction_finish_def isRetryableError_def)
qed

end
