(* ===== verification/AccountReadModels.thy ===== *)
theory AccountReadModels
  imports AccountAggregate
begin

text \<open>
  \<open>src/modules/accounts/query\<close>: the read models of the accounts (a summary and a statement per account,
  and the projection checkpoints), in memory and in Postgres, and the contract the projector relies on.
\<close>

section \<open>The interface\<close>

record account_summary =
  sm_accountId :: string
  sm_ownerId :: string
  sm_currency :: string
  sm_status :: account_status
  sm_balanceMinorUnits :: string
  sm_balance :: js_number
  sm_version :: int
  sm_createdAt :: int
  sm_updatedAt :: int

datatype entry_kind = ACCOUNT_OPERATION | TRANSFER

datatype transfer_direction = INCOMING | OUTGOING | REVERSAL

record statement_entry =
  se_eventId :: string
  se_accountId :: string
  se_streamVersion :: int
  se_eventType :: string
  se_entryKind :: "entry_kind option"
  se_amountMinorUnits :: "string option"
  se_amount :: "js_number option"
  se_currency :: "string option"
  se_transactionId :: "string option"
  se_transferId :: "string option"
  se_transferDirection :: "transfer_direction option"
  se_sourceAccountId :: "string option"
  se_destinationAccountId :: "string option"
  se_counterpartyAccountId :: "string option"
  se_description :: "string option"
  se_reason :: "string option"
  se_occurredAt :: int

record 'r account_read_ops =
  ar_getSummary :: "string \<Rightarrow> 'r \<Rightarrow> account_summary option result"
  ar_getStatement :: "string \<Rightarrow> nat \<Rightarrow> nat \<Rightarrow> 'r \<Rightarrow> statement_entry list result"
  ar_upsertSummary :: "account_summary \<Rightarrow> ('r, unit) prog"
  ar_appendStatement :: "statement_entry \<Rightarrow> ('r, unit) prog"
  ar_resetAccount :: "string \<Rightarrow> 'r \<Rightarrow> 'r"
  ar_resetAll :: "'r \<Rightarrow> 'r"
  ar_getCheckpoint :: "string \<Rightarrow> 'r \<Rightarrow> int"
  ar_saveCheckpoint :: "string \<Rightarrow> int \<Rightarrow> 'r \<Rightarrow> 'r"

section \<open>The in-memory repository\<close>

record memory_accounts =
  ma_summaries :: "string \<rightharpoonup> account_summary"
  ma_statements :: "string \<rightharpoonup> statement_entry list"
  ma_checkpoints :: "string \<rightharpoonup> int"

definition empty_memory_accounts :: memory_accounts where
  "empty_memory_accounts = \<lparr>ma_summaries = Map.empty, ma_statements = Map.empty, ma_checkpoints = Map.empty\<rparr>"

definition ma_statement :: "memory_accounts \<Rightarrow> string \<Rightarrow> statement_entry list" where
  "ma_statement r accountId = (case ma_statements r accountId of None \<Rightarrow> [] | Some es \<Rightarrow> es)"

definition ma_getStatement :: "string \<Rightarrow> nat \<Rightarrow> nat \<Rightarrow> memory_accounts \<Rightarrow> statement_entry list" where
  "ma_getStatement accountId limit offset r = take limit (drop offset (ma_statement r accountId))"

definition ma_upsertSummary :: "account_summary \<Rightarrow> memory_accounts \<Rightarrow> memory_accounts" where
  "ma_upsertSummary summary r =
     (case ma_summaries r (sm_accountId summary) of
        Some current \<Rightarrow>
          if sm_version summary \<le> sm_version current then r
          else r\<lparr>ma_summaries := (ma_summaries r)(sm_accountId summary \<mapsto> summary)\<rparr>
      | None \<Rightarrow> r\<lparr>ma_summaries := (ma_summaries r)(sm_accountId summary \<mapsto> summary)\<rparr>)"

definition ma_appendStatement :: "statement_entry \<Rightarrow> memory_accounts \<Rightarrow> memory_accounts" where
  "ma_appendStatement entry r =
     (let current = ma_statement r (se_accountId entry)
      in if list_ex (\<lambda>item. se_eventId item = se_eventId entry) current then r
         else r\<lparr>ma_statements := (ma_statements r)(se_accountId entry \<mapsto> sort_key se_streamVersion (current @ [entry]))\<rparr>)"

definition ma_resetAccount :: "string \<Rightarrow> memory_accounts \<Rightarrow> memory_accounts" where
  "ma_resetAccount accountId r =
     r\<lparr>ma_summaries := (ma_summaries r)(accountId := None), ma_statements := (ma_statements r)(accountId := None)\<rparr>"

definition ma_resetAll :: "memory_accounts \<Rightarrow> memory_accounts" where
  "ma_resetAll r = r\<lparr>ma_summaries := Map.empty, ma_statements := Map.empty, ma_checkpoints := Map.empty\<rparr>"

definition ma_getCheckpoint :: "string \<Rightarrow> memory_accounts \<Rightarrow> int" where
  "ma_getCheckpoint projectionName r = (case ma_checkpoints r projectionName of None \<Rightarrow> 0 | Some p \<Rightarrow> p)"

definition ma_saveCheckpoint :: "string \<Rightarrow> int \<Rightarrow> memory_accounts \<Rightarrow> memory_accounts" where
  "ma_saveCheckpoint projectionName position r =
     (if ma_getCheckpoint projectionName r < position
      then r\<lparr>ma_checkpoints := (ma_checkpoints r)(projectionName \<mapsto> position)\<rparr> else r)"

definition memory_account_reads :: "memory_accounts account_read_ops" where
  "memory_account_reads =
     \<lparr>ar_getSummary = (\<lambda>a r. Inr (ma_summaries r a)), ar_getStatement = (\<lambda>a limit offset r. Inr (ma_getStatement a limit offset r)),
      ar_upsertSummary = (\<lambda>s. modifies (ma_upsertSummary s)), ar_appendStatement = (\<lambda>e. modifies (ma_appendStatement e)),
      ar_resetAccount = ma_resetAccount, ar_resetAll = ma_resetAll, ar_getCheckpoint = ma_getCheckpoint,
      ar_saveCheckpoint = ma_saveCheckpoint\<rparr>"

section \<open>The Postgres repository\<close>

text \<open>
  A row of \<open>account_summary\<close> is the summary it was written from, with the \<open>balance\<close> column, which is
  \<open>NUMERIC(19, 2)\<close>: a number is sent to it as its text, is rounded to hundredths (halves away from zero)
  and must stay below \<open>10 ^ 17\<close>.  The same holds of the \<open>amount\<close> of a row of \<open>account_statement\<close>.
\<close>

definition round_hundredths :: "rat \<Rightarrow> rat" where
  "round_hundredths x = sgn x * of_int \<lfloor>\<bar>x\<bar> * 100 + 1 / 2\<rfloor> / 100"

definition numeric_overflow :: js_error where
  "numeric_overflow = GenericError ''numeric field overflow''"

definition numeric_19_2 :: "js_number \<Rightarrow> js_number result" where
  "numeric_19_2 x =
     (case x of
        JsNaN \<Rightarrow> Inr JsNaN
      | JsInf _ \<Rightarrow> Inl numeric_overflow
      | JsFin q \<Rightarrow>
          (case shortest_digits \<bar>q\<bar> of
             None \<Rightarrow> Inr (JsFin 0)
           | Some (s, t) \<Rightarrow>
               (let y = round_hundredths (sgn q * of_nat s * 10 powi t)
                in if \<bar>y\<bar> < 10 ^ 17 then Inr (JsFin y) else Inl numeric_overflow)))"

text \<open>The cast \<open>((x * 100)::bigint)::text\<close> of such a column.\<close>

definition hundredths_text :: "js_number \<Rightarrow> string result" where
  "hundredths_text x =
     (case x of
        JsFin y \<Rightarrow>
          if - (2 ^ 63) \<le> \<lfloor>y * 100\<rfloor> \<and> \<lfloor>y * 100\<rfloor> < 2 ^ 63 then Inr (show_int \<lfloor>y * 100\<rfloor>)
          else Inl (GenericError ''bigint out of range'')
      | _ \<Rightarrow> Inl (GenericError ''cannot convert NaN to bigint''))"

record pg_accounts =
  pa_summaries :: "account_summary list"
  pa_entries :: "statement_entry list"
  pa_checkpoints :: "(string \<times> int) list"

definition empty_pg_accounts :: pg_accounts where
  "empty_pg_accounts = \<lparr>pa_summaries = [], pa_entries = [], pa_checkpoints = []\<rparr>"

definition resolved_balance :: "account_summary \<Rightarrow> string result" where
  "resolved_balance row =
     (if sm_balanceMinorUnits row = ''0'' \<and> sm_balance row \<noteq> JsFin 0 then hundredths_text (sm_balance row)
      else Inr (sm_balanceMinorUnits row))"

definition pa_getSummary :: "string \<Rightarrow> pg_accounts \<Rightarrow> account_summary option result" where
  "pa_getSummary accountId r =
     (case find (\<lambda>row. sm_accountId row = accountId) (pa_summaries r) of
        None \<Rightarrow> Inr None
      | Some row \<Rightarrow>
          bind_result (resolved_balance row) (\<lambda>resolved.
          bind_result (js_BigInt resolved) (\<lambda>m.
            Inr (Some (row\<lparr>sm_balanceMinorUnits := resolved, sm_balance := minorUnitsToNumber m\<rparr>)))))"

definition resolved_amount :: "statement_entry \<Rightarrow> string option result" where
  "resolved_amount row =
     (case (se_amountMinorUnits row, se_amount row) of
        (None, Some x) \<Rightarrow> bind_result (hundredths_text x) (\<lambda>t. Inr (Some t))
      | (u, _) \<Rightarrow> Inr u)"

definition pa_entry :: "statement_entry \<Rightarrow> statement_entry result" where
  "pa_entry row =
     bind_result (resolved_amount row) (\<lambda>resolved.
       case resolved of
         None \<Rightarrow> Inr (row\<lparr>se_amountMinorUnits := None, se_amount := None\<rparr>)
       | Some u \<Rightarrow>
           bind_result (js_BigInt u) (\<lambda>m.
             Inr (row\<lparr>se_amountMinorUnits := Some u, se_amount := Some (minorUnitsToNumber m)\<rparr>)))"

fun map_results :: "('a \<Rightarrow> 'b result) \<Rightarrow> 'a list \<Rightarrow> 'b list result" where
  "map_results f [] = Inr []"
| "map_results f (x # xs) = bind_result (f x) (\<lambda>y. bind_result (map_results f xs) (\<lambda>ys. Inr (y # ys)))"

definition pa_rows :: "string \<Rightarrow> pg_accounts \<Rightarrow> statement_entry list" where
  "pa_rows accountId r = sort_key se_streamVersion (filter (\<lambda>e. se_accountId e = accountId) (pa_entries r))"

definition pa_getStatement :: "string \<Rightarrow> nat \<Rightarrow> nat \<Rightarrow> pg_accounts \<Rightarrow> statement_entry list result" where
  "pa_getStatement accountId limit offset r = map_results pa_entry (take limit (drop offset (pa_rows accountId r)))"

definition pa_upsertSummary :: "account_summary \<Rightarrow> (pg_accounts, unit) prog" where
  "pa_upsertSummary summary r =
     (case numeric_19_2 (sm_balance summary) of
        Inl e \<Rightarrow> (Inl e, r)
      | Inr n \<Rightarrow>
          (let row = summary\<lparr>sm_balance := n\<rparr>
           in (Inr (),
               if list_ex (\<lambda>x. sm_accountId x = sm_accountId summary) (pa_summaries r)
               then r\<lparr>pa_summaries :=
                        map (\<lambda>x. if sm_accountId x = sm_accountId summary \<and> sm_version x < sm_version summary then row else x)
                          (pa_summaries r)\<rparr>
               else r\<lparr>pa_summaries := pa_summaries r @ [row]\<rparr>)))"

text \<open>
  The primary key of \<open>account_statement\<close> is the event id, and \<open>account_id\<close> with \<open>stream_version\<close> is unique
  too; only a conflict on the former is passed over.
\<close>

definition entry_columns :: "statement_entry \<Rightarrow> statement_entry result" where
  "entry_columns entry =
     bind_result (case se_amount entry of None \<Rightarrow> Inr None | Some x \<Rightarrow> bind_result (numeric_19_2 x) (\<lambda>n. Inr (Some n)))
       (\<lambda>amount.
     bind_result (case (se_amountMinorUnits entry, se_amount entry) of
         (None, Some x) \<Rightarrow> bind_result (parseMoneyToMinorUnits (NumberAmount x)) (\<lambda>m. Inr (Some (show_int m)))
       | (u, _) \<Rightarrow> Inr u)
       (\<lambda>minorUnits. Inr (entry\<lparr>se_amount := amount, se_amountMinorUnits := minorUnits\<rparr>)))"

definition pa_appendStatement :: "statement_entry \<Rightarrow> (pg_accounts, unit) prog" where
  "pa_appendStatement entry r =
     (case entry_columns entry of
        Inl e \<Rightarrow> (Inl e, r)
      | Inr row \<Rightarrow>
          if list_ex (\<lambda>x. se_eventId x = se_eventId entry) (pa_entries r) then (Inr (), r)
          else if list_ex (\<lambda>x. se_accountId x = se_accountId entry \<and> se_streamVersion x = se_streamVersion entry) (pa_entries r)
          then (Inl (GenericError ''duplicate key value violates unique constraint''), r)
          else (Inr (), r\<lparr>pa_entries := pa_entries r @ [row]\<rparr>))"

definition pa_resetAccount :: "string \<Rightarrow> pg_accounts \<Rightarrow> pg_accounts" where
  "pa_resetAccount accountId r =
     r\<lparr>pa_entries := filter (\<lambda>e. se_accountId e \<noteq> accountId) (pa_entries r),
       pa_summaries := filter (\<lambda>x. sm_accountId x \<noteq> accountId) (pa_summaries r)\<rparr>"

definition pa_resetAll :: "pg_accounts \<Rightarrow> pg_accounts" where
  "pa_resetAll r = r\<lparr>pa_entries := [], pa_summaries := [], pa_checkpoints := []\<rparr>"

definition pa_getCheckpoint :: "string \<Rightarrow> pg_accounts \<Rightarrow> int" where
  "pa_getCheckpoint projectionName r = (case map_of (pa_checkpoints r) projectionName of None \<Rightarrow> 0 | Some p \<Rightarrow> p)"

definition pa_saveCheckpoint :: "string \<Rightarrow> int \<Rightarrow> pg_accounts \<Rightarrow> pg_accounts" where
  "pa_saveCheckpoint projectionName position r =
     (case map_of (pa_checkpoints r) projectionName of
        None \<Rightarrow> r\<lparr>pa_checkpoints := pa_checkpoints r @ [(projectionName, position)]\<rparr>
      | Some p \<Rightarrow>
          r\<lparr>pa_checkpoints := map (\<lambda>c. if fst c = projectionName \<and> snd c < position then (fst c, position) else c) (pa_checkpoints r)\<rparr>)"

definition postgres_account_reads :: "pg_accounts account_read_ops" where
  "postgres_account_reads =
     \<lparr>ar_getSummary = pa_getSummary, ar_getStatement = pa_getStatement, ar_upsertSummary = pa_upsertSummary,
      ar_appendStatement = pa_appendStatement, ar_resetAccount = pa_resetAccount, ar_resetAll = pa_resetAll,
      ar_getCheckpoint = pa_getCheckpoint, ar_saveCheckpoint = pa_saveCheckpoint\<rparr>"

section \<open>What a read model of the accounts promises\<close>

text \<open>Summaries and entries whose amounts are held twice, as the text and as the number of the same minor units.\<close>

definition summary_ok :: "account_summary \<Rightarrow> bool" where
  "summary_ok s \<longleftrightarrow> (\<exists>m. \<bar>m\<bar> < 10 ^ 15 \<and> sm_balanceMinorUnits s = show_int m \<and> sm_balance s = minorUnitsToNumber m)"

definition entry_ok :: "statement_entry \<Rightarrow> bool" where
  "entry_ok e \<longleftrightarrow> se_amountMinorUnits e = None \<and> se_amount e = None
     \<or> (\<exists>m. \<bar>m\<bar> < 10 ^ 15 \<and> se_amountMinorUnits e = Some (show_int m) \<and> se_amount e = Some (minorUnitsToNumber m))"

definition newer_summary :: "account_summary option \<Rightarrow> account_summary \<Rightarrow> account_summary" where
  "newer_summary old s = (case old of Some c \<Rightarrow> if sm_version s \<le> sm_version c then c else s | None \<Rightarrow> s)"

locale account_read_model =
  fixes ops :: "'r account_read_ops"
    and inv :: "'r \<Rightarrow> bool"
    and summary :: "'r \<Rightarrow> string \<rightharpoonup> account_summary"
    and statement :: "'r \<Rightarrow> string \<Rightarrow> statement_entry list"
  assumes get_summary: "inv r \<Longrightarrow> ar_getSummary ops a r = Inr (summary r a)"
    and summary_account: "inv r \<Longrightarrow> summary r a = Some s \<Longrightarrow> sm_accountId s = a \<and> summary_ok s"
    and get_statement: "inv r \<Longrightarrow> ar_getStatement ops a limit offset r = Inr (take limit (drop offset (statement r a)))"
    and upsert: "inv r \<Longrightarrow> summary_ok s \<Longrightarrow> \<exists>r'. ar_upsertSummary ops s r = (Inr (), r') \<and> inv r' \<and> statement r' = statement r
      \<and> summary r' = (summary r)(sm_accountId s \<mapsto> newer_summary (summary r (sm_accountId s)) s)"
    and append_known: "inv r \<Longrightarrow> entry_ok e \<Longrightarrow> se_eventId e \<in> se_eventId ` set (statement r (se_accountId e)) \<Longrightarrow>
      ar_appendStatement ops e r = (Inr (), r)"
    and append_new: "inv r \<Longrightarrow> entry_ok e \<Longrightarrow> \<forall>a. se_eventId e \<notin> se_eventId ` set (statement r a) \<Longrightarrow>
      \<forall>x \<in> set (statement r (se_accountId e)). se_streamVersion x < se_streamVersion e \<Longrightarrow>
      \<exists>r'. ar_appendStatement ops e r = (Inr (), r') \<and> inv r' \<and> summary r' = summary r
        \<and> statement r' = (statement r)(se_accountId e := statement r (se_accountId e) @ [e])"
    and reset_account: "inv r \<Longrightarrow> inv (ar_resetAccount ops a r) \<and> summary (ar_resetAccount ops a r) = (summary r)(a := None)
      \<and> statement (ar_resetAccount ops a r) = (statement r)(a := [])"
    and reset_all: "inv r \<Longrightarrow> inv (ar_resetAll ops r) \<and> summary (ar_resetAll ops r) = Map.empty
      \<and> statement (ar_resetAll ops r) = (\<lambda>a. [])"
    and checkpoint: "inv r \<Longrightarrow> 0 \<le> p \<Longrightarrow> 0 \<le> ar_getCheckpoint ops n r \<Longrightarrow>
      ar_getCheckpoint ops n (ar_saveCheckpoint ops n' p r) =
        (if n = n' then max (ar_getCheckpoint ops n r) p else ar_getCheckpoint ops n r)"

section \<open>The in-memory repository keeps the contract\<close>

definition ma_inv :: "memory_accounts \<Rightarrow> bool" where
  "ma_inv r \<longleftrightarrow> (\<forall>a s. ma_summaries r a = Some s \<longrightarrow> sm_accountId s = a \<and> summary_ok s)
     \<and> (\<forall>a. sorted (map se_streamVersion (ma_statement r a)))"

lemma sort_key_snoc_last:
  assumes "sorted (map f xs)" "\<forall>x \<in> set xs. f x < f y"
  shows "sort_key f (xs @ [y]) = xs @ [y]"
  using assms by (intro sort_key_id_if_sorted) (auto simp: sorted_append intro: less_imp_le)

interpretation memory_accounts: account_read_model memory_account_reads ma_inv ma_summaries ma_statement
proof unfold_locales
  fix r and e :: statement_entry
  assume r: "ma_inv r" and new: "\<forall>a. se_eventId e \<notin> se_eventId ` set (ma_statement r a)"
    and last: "\<forall>x \<in> set (ma_statement r (se_accountId e)). se_streamVersion x < se_streamVersion e"
  let ?r = "r\<lparr>ma_statements := (ma_statements r)(se_accountId e \<mapsto> ma_statement r (se_accountId e) @ [e])\<rparr>"
  have sorted: "sorted (map se_streamVersion (ma_statement r (se_accountId e)))" using r by (simp add: ma_inv_def)
  have "\<not> list_ex (\<lambda>x. se_eventId x = se_eventId e) (ma_statement r (se_accountId e))"
    using new [THEN spec, of "se_accountId e"] by (auto simp: list_ex_iff image_iff)
  then have "ar_appendStatement memory_account_reads e r = (Inr (), ?r)"
    by (simp add: memory_account_reads_def ma_appendStatement_def Let_def sort_key_snoc_last [OF sorted last])
  moreover have "ma_statement ?r = (ma_statement r)(se_accountId e := ma_statement r (se_accountId e) @ [e])"
    by (auto simp: ma_statement_def fun_eq_iff)
  moreover have "ma_inv ?r"
    using r last sorted unfolding ma_inv_def calculation(2)
    by (auto simp: sorted_append intro: less_imp_le)
  ultimately show "\<exists>r'. ar_appendStatement memory_account_reads e r = (Inr (), r') \<and> ma_inv r' \<and> ma_summaries r' = ma_summaries r
        \<and> ma_statement r' = (ma_statement r)(se_accountId e := ma_statement r (se_accountId e) @ [e])"
    by (intro exI [of _ ?r]) simp
next
  fix r and s :: account_summary
  assume "ma_inv r" "summary_ok s"
  then show "\<exists>r'. ar_upsertSummary memory_account_reads s r = (Inr (), r') \<and> ma_inv r' \<and> ma_statement r' = ma_statement r
      \<and> ma_summaries r' = (ma_summaries r)(sm_accountId s \<mapsto> newer_summary (ma_summaries r (sm_accountId s)) s)"
    by (auto simp: memory_account_reads_def ma_upsertSummary_def newer_summary_def ma_inv_def ma_statement_def fun_eq_iff
        split: option.split)
next
  fix r and a :: string
  assume "ma_inv r"
  then show "ma_inv (ar_resetAccount memory_account_reads a r)
      \<and> ma_summaries (ar_resetAccount memory_account_reads a r) = (ma_summaries r)(a := None)
      \<and> ma_statement (ar_resetAccount memory_account_reads a r) = (ma_statement r)(a := [])"
    by (auto simp: memory_account_reads_def ma_resetAccount_def ma_inv_def ma_statement_def fun_eq_iff)
qed (auto simp: memory_account_reads_def ma_inv_def ma_getStatement_def ma_resetAll_def ma_statement_def
    ma_getCheckpoint_def ma_saveCheckpoint_def ma_appendStatement_def Let_def list_ex_iff image_iff split: option.splits)

section \<open>The Postgres repository keeps the contract\<close>

lemma round_hundredths_cents: "round_hundredths (of_int k / 100) = of_int k / 100"
proof -
  have "\<lfloor>\<bar>of_int k / 100 :: rat\<bar> * 100 + 1 / 2\<rfloor> = \<bar>k\<bar>"
    by (rule floor_unique) (simp_all add: abs_if)
  then show ?thesis by (simp add: round_hundredths_def sgn_if abs_if)
qed

text \<open>An amount below ten trillion units goes into its column exactly.\<close>

lemma numeric_cents:
  assumes "\<bar>m\<bar> < 10 ^ 15"
  shows "numeric_19_2 (minorUnitsToNumber m) = Inr (JsFin (of_int m / 100))"
proof (cases "m = 0")
  case True
  have "numeric_19_2 (JsFin 0) = Inr (JsFin 0)"
    by (auto simp: numeric_19_2_def round_hundredths_def Let_def split: option.split)
  with True show ?thesis by (simp add: minorUnitsToNumber_round js_round_def)
next
  case False
  obtain v s t where v: "js_round (of_int m / 100) = JsFin v" "v \<noteq> 0" "v < 0 \<longleftrightarrow> m < 0"
      "shortest_digits \<bar>v\<bar> = Some (s, t)" "of_nat s * 10 powi t = (of_int \<bar>m\<bar> / 100 :: rat)"
    using js_round_cents [OF False assms] by blast
  have "sgn v * of_nat s * 10 powi t = sgn v * (of_int \<bar>m\<bar> / 100)" using v(5) by (simp add: mult.assoc)
  also have "\<dots> = of_int m / 100" using v(2,3) False by (cases "m < 0") (simp_all add: sgn_if)
  finally have "round_hundredths (sgn v * of_nat s * 10 powi t) = of_int m / 100"
    by (simp only: round_hundredths_cents)
  moreover have "\<bar>of_int m / 100 :: rat\<bar> < 10 ^ 17"
  proof -
    have "(of_int \<bar>m\<bar> :: rat) < of_int (10 ^ 15)" using assms by (simp only: of_int_less_iff)
    then show ?thesis by (simp add: abs_if split: if_splits)
  qed
  ultimately show ?thesis
    using v(1,4) by (simp add: minorUnitsToNumber_round numeric_19_2_def Let_def del: abs_divide)
qed

lemma show_int_zero: "show_int m = ''0'' \<longleftrightarrow> m = 0"
proof -
  have zero: "show_int 0 = ''0''" by code_simp
  then show ?thesis using show_int_BigInt [of m] show_int_BigInt [of 0] by (metis sum.inject(2))
qed

text \<open>The rows that the repository writes, for minor units \<open>m\<close>.\<close>

definition summary_row :: "account_summary \<Rightarrow> bool" where
  "summary_row row \<longleftrightarrow> (\<exists>m. \<bar>m\<bar> < 10 ^ 15 \<and> sm_balanceMinorUnits row = show_int m \<and> sm_balance row = JsFin (of_int m / 100))"

definition entry_row :: "statement_entry \<Rightarrow> bool" where
  "entry_row row \<longleftrightarrow> se_amountMinorUnits row = None \<and> se_amount row = None
     \<or> (\<exists>m. \<bar>m\<bar> < 10 ^ 15 \<and> se_amountMinorUnits row = Some (show_int m) \<and> se_amount row = Some (JsFin (of_int m / 100)))"

text \<open>What is read back from a row.\<close>

definition read_summary :: "account_summary \<Rightarrow> account_summary" where
  "read_summary row =
     row\<lparr>sm_balance := case js_BigInt (sm_balanceMinorUnits row) of Inr m \<Rightarrow> minorUnitsToNumber m | Inl _ \<Rightarrow> sm_balance row\<rparr>"

definition read_entry :: "statement_entry \<Rightarrow> statement_entry" where
  "read_entry row =
     row\<lparr>se_amount := case se_amountMinorUnits row of
           None \<Rightarrow> None
         | Some u \<Rightarrow> (case js_BigInt u of Inr m \<Rightarrow> Some (minorUnitsToNumber m) | Inl _ \<Rightarrow> se_amount row)\<rparr>"

lemma read_summary_fields [simp]:
  "sm_accountId (read_summary row) = sm_accountId row" "sm_version (read_summary row) = sm_version row"
  by (simp_all add: read_summary_def)

lemma read_entry_fields [simp]:
  "se_accountId (read_entry row) = se_accountId row" "se_eventId (read_entry row) = se_eventId row"
  "se_streamVersion (read_entry row) = se_streamVersion row"
  by (simp_all add: read_entry_def)

lemma summary_row_read:
  assumes "summary_row row"
  shows "bind_result (resolved_balance row) (\<lambda>resolved. bind_result (js_BigInt resolved) (\<lambda>m.
      Inr (Some (row\<lparr>sm_balanceMinorUnits := resolved, sm_balance := minorUnitsToNumber m\<rparr>)))) = Inr (Some (read_summary row))"
    and "summary_ok (read_summary row)"
proof -
  obtain m where m: "\<bar>m\<bar> < 10 ^ 15" "sm_balanceMinorUnits row = show_int m" "sm_balance row = JsFin (of_int m / 100)"
    using assms by (auto simp: summary_row_def)
  have "resolved_balance row = Inr (show_int m)" using m(2,3) by (simp add: resolved_balance_def show_int_zero)
  then show "bind_result (resolved_balance row) (\<lambda>resolved. bind_result (js_BigInt resolved) (\<lambda>m.
      Inr (Some (row\<lparr>sm_balanceMinorUnits := resolved, sm_balance := minorUnitsToNumber m\<rparr>)))) = Inr (Some (read_summary row))"
    using m by (simp add: show_int_BigInt read_summary_def)
  show "summary_ok (read_summary row)" using m by (auto simp: summary_ok_def read_summary_def show_int_BigInt)
qed

lemma summary_row_written:
  assumes "summary_ok s"
  shows "\<exists>n. numeric_19_2 (sm_balance s) = Inr n \<and> summary_row (s\<lparr>sm_balance := n\<rparr>) \<and> read_summary (s\<lparr>sm_balance := n\<rparr>) = s"
  using assms by (auto simp: summary_ok_def summary_row_def read_summary_def numeric_cents show_int_BigInt)

lemma entry_row_read: "entry_row row \<Longrightarrow> pa_entry row = Inr (read_entry row)"
  by (auto simp: entry_row_def pa_entry_def resolved_amount_def read_entry_def show_int_BigInt)

lemma entry_row_written:
  assumes "entry_ok e"
  shows "\<exists>row. entry_columns e = Inr row \<and> entry_row row \<and> read_entry row = e
    \<and> se_eventId row = se_eventId e \<and> se_accountId row = se_accountId e \<and> se_streamVersion row = se_streamVersion e"
  using assms by (auto simp: entry_ok_def entry_row_def entry_columns_def read_entry_def numeric_cents show_int_BigInt)

lemma map_results_ok: "(\<And>x. x \<in> set xs \<Longrightarrow> f x = Inr (g x)) \<Longrightarrow> map_results f xs = Inr (map g xs)"
  by (induction xs) simp_all

definition pa_summary :: "pg_accounts \<Rightarrow> string \<rightharpoonup> account_summary" where
  "pa_summary r a = map_option read_summary (find (\<lambda>row. sm_accountId row = a) (pa_summaries r))"

definition pa_statement :: "pg_accounts \<Rightarrow> string \<Rightarrow> statement_entry list" where
  "pa_statement r a = map read_entry (pa_rows a r)"

definition pa_inv :: "pg_accounts \<Rightarrow> bool" where
  "pa_inv r \<longleftrightarrow> distinct (map sm_accountId (pa_summaries r)) \<and> (\<forall>row \<in> set (pa_summaries r). summary_row row)
     \<and> (\<forall>row \<in> set (pa_entries r). entry_row row)"

lemma pa_statement_ids: "se_eventId ` set (pa_statement r a) = se_eventId ` {x \<in> set (pa_entries r). se_accountId x = a}"
  by (force simp: pa_statement_def pa_rows_def image_iff)

lemma pa_statement_versions:
  "se_streamVersion ` set (pa_statement r a) = se_streamVersion ` {x \<in> set (pa_entries r). se_accountId x = a}"
  by (force simp: pa_statement_def pa_rows_def image_iff)

lemma sort_key_append_last:
  assumes "\<forall>x \<in> set xs. f x < f y"
  shows "sort_key f (xs @ [y]) = sort_key f xs @ [y]"
proof -
  have "insort_key f x (zs @ [y]) = insort_key f x zs @ [y]" if "f x < f y" for x zs
    using that by (induction zs) auto
  with assms show ?thesis by (induction xs) auto
qed

lemma pa_known_id: "list_ex (\<lambda>x. se_eventId x = i) (pa_entries r) \<longleftrightarrow> (\<exists>a. i \<in> se_eventId ` set (pa_statement r a))"
  unfolding pa_statement_ids list_ex_iff by blast

lemma pa_rows_append:
  assumes "\<forall>x \<in> set (pa_statement r (se_accountId row)). se_streamVersion x < se_streamVersion row"
  shows "pa_rows a (r\<lparr>pa_entries := pa_entries r @ [row]\<rparr>) = (if a = se_accountId row then pa_rows a r @ [row] else pa_rows a r)"
proof -
  let ?xs = "filter (\<lambda>e. se_accountId e = se_accountId row) (pa_entries r)"
  have "\<forall>x \<in> set ?xs. se_streamVersion x < se_streamVersion row"
    using assms by (auto simp: pa_statement_def pa_rows_def)
  then have "sort_key se_streamVersion (?xs @ [row]) = sort_key se_streamVersion ?xs @ [row]"
    by (intro sort_key_append_last)
  then show ?thesis by (auto simp: pa_rows_def)
qed

lemma pa_find_append:
  assumes "\<not> list_ex (\<lambda>x. sm_accountId x = sm_accountId row) xs"
  shows "find (\<lambda>x. sm_accountId x = a) (xs @ [row]) = (if a = sm_accountId row then Some row else find (\<lambda>x. sm_accountId x = a) xs)"
  using assms by (induction xs) auto

lemma pa_find_update:
  assumes "sm_accountId row = i"
  shows "find (\<lambda>x. sm_accountId x = a) (map (\<lambda>x. if sm_accountId x = i \<and> sm_version x < sm_version row then row else x) xs)
    = (if a = i then map_option (\<lambda>x. if sm_version x < sm_version row then row else x) (find (\<lambda>x. sm_accountId x = i) xs)
       else find (\<lambda>x. sm_accountId x = a) xs)"
  using assms by (induction xs) auto

lemma pa_upsert_contract:
  assumes inv: "pa_inv r" and ok: "summary_ok s"
  shows "\<exists>r'. pa_upsertSummary s r = (Inr (), r') \<and> pa_inv r' \<and> pa_statement r' = pa_statement r
      \<and> pa_summary r' = (pa_summary r)(sm_accountId s \<mapsto> newer_summary (pa_summary r (sm_accountId s)) s)"
proof -
  obtain n where n: "numeric_19_2 (sm_balance s) = Inr n" "summary_row (s\<lparr>sm_balance := n\<rparr>)" "read_summary (s\<lparr>sm_balance := n\<rparr>) = s"
    using summary_row_written [OF ok] by blast
  let ?row = "s\<lparr>sm_balance := n\<rparr>"
  let ?upd = "\<lambda>x. if sm_accountId x = sm_accountId s \<and> sm_version x < sm_version ?row then ?row else x"
  show ?thesis
  proof (cases "list_ex (\<lambda>x. sm_accountId x = sm_accountId s) (pa_summaries r)")
    case True
    then obtain x where x: "find (\<lambda>x. sm_accountId x = sm_accountId s) (pa_summaries r) = Some x"
      by (cases "find (\<lambda>x. sm_accountId x = sm_accountId s) (pa_summaries r)") (auto simp: find_None_iff list_ex_iff)
    let ?r = "r\<lparr>pa_summaries := map ?upd (pa_summaries r)\<rparr>"
    have "map sm_accountId (map ?upd (pa_summaries r)) = map sm_accountId (pa_summaries r)" by simp
    then have "pa_inv ?r" using inv n(2) by (auto simp: pa_inv_def simp del: map_map)
    moreover have "pa_summary ?r = (pa_summary r)(sm_accountId s \<mapsto> newer_summary (pa_summary r (sm_accountId s)) s)"
      using pa_find_update [of ?row "sm_accountId s" _ "pa_summaries r"] x n(3)
      by (auto simp: pa_summary_def newer_summary_def fun_eq_iff)
    ultimately show ?thesis
      using True n(1) by (auto simp: pa_upsertSummary_def pa_statement_def pa_rows_def fun_eq_iff)
  next
    case False
    let ?r = "r\<lparr>pa_summaries := pa_summaries r @ [?row]\<rparr>"
    have "pa_inv ?r" using inv n(2) False by (auto simp: pa_inv_def list_ex_iff)
    moreover have "find (\<lambda>x. sm_accountId x = sm_accountId s) (pa_summaries r) = None"
      using False by (auto simp: find_None_iff list_ex_iff)
    then have "pa_summary ?r = (pa_summary r)(sm_accountId s \<mapsto> newer_summary (pa_summary r (sm_accountId s)) s)"
      using pa_find_append [of ?row "pa_summaries r"] False n(3)
      by (auto simp: pa_summary_def newer_summary_def fun_eq_iff)
    ultimately show ?thesis
      using False n(1) by (auto simp: pa_upsertSummary_def pa_statement_def pa_rows_def fun_eq_iff)
  qed
qed

lemma pa_append_contract:
  assumes inv: "pa_inv r" and ok: "entry_ok e" and new: "\<forall>a. se_eventId e \<notin> se_eventId ` set (pa_statement r a)"
    and last: "\<forall>x \<in> set (pa_statement r (se_accountId e)). se_streamVersion x < se_streamVersion e"
  shows "\<exists>r'. pa_appendStatement e r = (Inr (), r') \<and> pa_inv r' \<and> pa_summary r' = pa_summary r
    \<and> pa_statement r' = (pa_statement r)(se_accountId e := pa_statement r (se_accountId e) @ [e])"
proof -
  obtain row where row: "entry_columns e = Inr row" "entry_row row" "read_entry row = e"
      "se_accountId row = se_accountId e" "se_streamVersion row = se_streamVersion e"
    using entry_row_written [OF ok] by blast
  let ?r = "r\<lparr>pa_entries := pa_entries r @ [row]\<rparr>"
  have "\<not> list_ex (\<lambda>x. se_eventId x = se_eventId e) (pa_entries r)"
    using new by (simp add: pa_known_id)
  moreover have "\<not> list_ex (\<lambda>x. se_accountId x = se_accountId e \<and> se_streamVersion x = se_streamVersion e) (pa_entries r)"
  proof
    assume "list_ex (\<lambda>x. se_accountId x = se_accountId e \<and> se_streamVersion x = se_streamVersion e) (pa_entries r)"
    then have "se_streamVersion e \<in> se_streamVersion ` set (pa_statement r (se_accountId e))"
      unfolding pa_statement_versions list_ex_iff by (metis (mono_tags, lifting) image_eqI mem_Collect_eq)
    with last show False by auto
  qed
  moreover have "pa_inv ?r" using inv row(2) by (auto simp: pa_inv_def)
  moreover have "pa_statement ?r = (pa_statement r)(se_accountId e := pa_statement r (se_accountId e) @ [e])"
    using pa_rows_append [of r row] last row by (auto simp: pa_statement_def fun_eq_iff)
  ultimately show ?thesis using row(1) by (simp add: pa_appendStatement_def pa_summary_def fun_eq_iff)
qed

lemma find_removed:
  "find (\<lambda>y. f y = x) (filter (\<lambda>y. f y \<noteq> a) ys) = (if x = a then None else find (\<lambda>y. f y = x) ys)"
  by (induction ys) auto

lemma filter_removed:
  "filter (\<lambda>y. f y = x) (filter (\<lambda>y. f y \<noteq> a) ys) = (if x = a then [] else filter (\<lambda>y. f y = x) ys)"
  by (induction ys) auto

lemma map_of_checkpoint:
  "map_of (map (\<lambda>c. if fst c = x \<and> snd c < p then (fst c, p) else c) cs) n
     = (if n = x then map_option (\<lambda>q. if q < p then p else q) (map_of cs n) else map_of cs n)"
  by (induction cs) (auto split: if_splits)

interpretation postgres_accounts: account_read_model postgres_account_reads pa_inv pa_summary pa_statement
proof unfold_locales
  fix r and a :: string
  assume inv: "pa_inv r"
  show "ar_getSummary postgres_account_reads a r = Inr (pa_summary r a)"
  proof (cases "find (\<lambda>row. sm_accountId row = a) (pa_summaries r)")
    case None
    then show ?thesis by (simp add: postgres_account_reads_def pa_getSummary_def pa_summary_def)
  next
    case (Some row)
    then have "summary_row row" using inv by (auto simp: pa_inv_def find_Some_iff)
    from summary_row_read(1) [OF this] Some show ?thesis
      by (simp add: postgres_account_reads_def pa_getSummary_def pa_summary_def)
  qed
next
  fix r and a :: string and s :: account_summary
  assume "pa_inv r" "pa_summary r a = Some s"
  then show "sm_accountId s = a \<and> summary_ok s"
    using summary_row_read(2) by (auto simp: pa_summary_def pa_inv_def find_Some_iff)
next
  fix r and a :: string and limit offset :: nat
  assume "pa_inv r"
  then have "pa_entry x = Inr (read_entry x)" if "x \<in> set (take limit (drop offset (pa_rows a r)))" for x
    using that by (intro entry_row_read) (auto simp: pa_inv_def pa_rows_def dest!: in_set_takeD in_set_dropD)
  from map_results_ok [OF this]
  show "ar_getStatement postgres_account_reads a limit offset r = Inr (take limit (drop offset (pa_statement r a)))"
    by (simp add: postgres_account_reads_def pa_getStatement_def pa_statement_def take_map drop_map)
next
  fix r and s :: account_summary
  assume "pa_inv r" "summary_ok s"
  from pa_upsert_contract [OF this]
  show "\<exists>r'. ar_upsertSummary postgres_account_reads s r = (Inr (), r') \<and> pa_inv r' \<and> pa_statement r' = pa_statement r
      \<and> pa_summary r' = (pa_summary r)(sm_accountId s \<mapsto> newer_summary (pa_summary r (sm_accountId s)) s)"
    by (simp add: postgres_account_reads_def)
next
  fix r and e :: statement_entry
  assume "pa_inv r" "entry_ok e" and known: "se_eventId e \<in> se_eventId ` set (pa_statement r (se_accountId e))"
  obtain row where "entry_columns e = Inr row" using entry_row_written [OF \<open>entry_ok e\<close>] by blast
  moreover have "list_ex (\<lambda>x. se_eventId x = se_eventId e) (pa_entries r)" using known pa_known_id by blast
  ultimately show "ar_appendStatement postgres_account_reads e r = (Inr (), r)"
    by (simp add: postgres_account_reads_def pa_appendStatement_def)
next
  fix r and e :: statement_entry
  assume "pa_inv r" "entry_ok e" "\<forall>a. se_eventId e \<notin> se_eventId ` set (pa_statement r a)"
    "\<forall>x \<in> set (pa_statement r (se_accountId e)). se_streamVersion x < se_streamVersion e"
  from pa_append_contract [OF this]
  show "\<exists>r'. ar_appendStatement postgres_account_reads e r = (Inr (), r') \<and> pa_inv r' \<and> pa_summary r' = pa_summary r
        \<and> pa_statement r' = (pa_statement r)(se_accountId e := pa_statement r (se_accountId e) @ [e])"
    by (simp add: postgres_account_reads_def)
next
  fix r and a :: string
  assume inv: "pa_inv r"
  then have "distinct (map sm_accountId (filter (\<lambda>x. sm_accountId x \<noteq> a) (pa_summaries r)))"
    by (intro distinct_map_filter) (simp add: pa_inv_def)
  with inv have "pa_inv (ar_resetAccount postgres_account_reads a r)"
    by (simp add: postgres_account_reads_def pa_resetAccount_def pa_inv_def)
  then show "pa_inv (ar_resetAccount postgres_account_reads a r)
      \<and> pa_summary (ar_resetAccount postgres_account_reads a r) = (pa_summary r)(a := None)
      \<and> pa_statement (ar_resetAccount postgres_account_reads a r) = (pa_statement r)(a := [])"
    by (simp add: postgres_account_reads_def pa_resetAccount_def pa_summary_def pa_statement_def pa_rows_def fun_eq_iff
        find_removed filter_removed del: filter_filter)
qed (auto simp: postgres_account_reads_def pa_inv_def pa_resetAll_def pa_summary_def pa_statement_def pa_rows_def
    pa_getCheckpoint_def pa_saveCheckpoint_def map_of_checkpoint map_add_def split: option.splits)

end
