(* ===== verification/TransferReadModels.thy ===== *)
theory TransferReadModels
  imports AccountReadModels TransferAggregate "HOL-Library.Multiset"
begin

text \<open>
  \<open>src/modules/transfers/query\<close>: the read model of the transfers, in memory and in Postgres, with the list
  of pending transfers that the coordinator works through.
\<close>

section \<open>The interface\<close>

record transfer_summary =
  ts_transferId :: string
  ts_sourceAccountId :: string
  ts_destinationAccountId :: string
  ts_amountMinorUnits :: string
  ts_amount :: js_number
  ts_currency :: string
  ts_status :: transfer_status
  ts_failureReason :: "string option"
  ts_failureStage :: "stage option"
  ts_sourceDebitTransactionId :: "string option"
  ts_destinationCreditTransactionId :: "string option"
  ts_compensationTransactionId :: "string option"
  ts_debitAttempts :: int
  ts_creditAttempts :: int
  ts_compensationAttempts :: int
  ts_createdAt :: int
  ts_updatedAt :: int

text \<open>The last argument of \<open>tp_listStuck\<close> is what the clock says.\<close>

record 'p transfer_read_ops =
  tp_getSummary :: "string \<Rightarrow> 'p \<Rightarrow> transfer_summary option result"
  tp_upsertSummary :: "transfer_summary \<Rightarrow> ('p, unit) prog"
  tp_listPending :: "nat \<Rightarrow> 'p \<Rightarrow> transfer_summary list result"
  tp_listStuck :: "int \<Rightarrow> nat \<Rightarrow> int \<Rightarrow> 'p \<Rightarrow> transfer_summary list result"
  tp_resetTransfer :: "string \<Rightarrow> 'p \<Rightarrow> 'p"
  tp_resetAll :: "'p \<Rightarrow> 'p"

text \<open>The summary of a transfer in a list that holds one per transfer.\<close>

definition row_of_transfer :: "transfer_summary list \<Rightarrow> string \<rightharpoonup> transfer_summary" where
  "row_of_transfer rows transferId = find (\<lambda>x. ts_transferId x = transferId) rows"

section \<open>The in-memory repository\<close>

text \<open>A \<open>Map\<close> lists its values in the order in which their keys came in: the list has one summary per transfer.\<close>

type_synonym memory_transfers = "transfer_summary list"

definition mp_upsertSummary :: "transfer_summary \<Rightarrow> memory_transfers \<Rightarrow> memory_transfers" where
  "mp_upsertSummary summary p =
     (case row_of_transfer p (ts_transferId summary) of
        Some current \<Rightarrow>
          if ts_updatedAt summary < ts_updatedAt current then p
          else map (\<lambda>x. if ts_transferId x = ts_transferId summary then summary else x) p
      | None \<Rightarrow> p @ [summary])"

definition memory_pending :: "transfer_summary \<Rightarrow> bool" where
  "memory_pending summary \<longleftrightarrow>
     ts_status summary \<notin> {T_COMPLETED, T_COMPENSATED, T_FAILED} \<or> ts_failureStage summary = Some CREDIT"

definition mp_listPending :: "nat \<Rightarrow> memory_transfers \<Rightarrow> transfer_summary list" where
  "mp_listPending limit p = take limit (sort_key ts_updatedAt (filter memory_pending p))"

definition mp_listStuck :: "int \<Rightarrow> nat \<Rightarrow> int \<Rightarrow> memory_transfers \<Rightarrow> transfer_summary list" where
  "mp_listStuck olderThanSeconds limit now p =
     (let threshold = now - olderThanSeconds * 1000
      in take limit (filter (\<lambda>x. ts_updatedAt x \<le> threshold) (mp_listPending limit p)))"

definition memory_transfer_reads :: "memory_transfers transfer_read_ops" where
  "memory_transfer_reads =
     \<lparr>tp_getSummary = (\<lambda>i p. Inr (row_of_transfer p i)), tp_upsertSummary = (\<lambda>s. modifies (mp_upsertSummary s)),
      tp_listPending = (\<lambda>limit p. Inr (mp_listPending limit p)),
      tp_listStuck = (\<lambda>older limit now p. Inr (mp_listStuck older limit now p)),
      tp_resetTransfer = (\<lambda>i. filter (\<lambda>x. ts_transferId x \<noteq> i)), tp_resetAll = (\<lambda>_. [])\<rparr>"

section \<open>The Postgres repository\<close>

text \<open>
  A row of \<open>transfer_summary\<close> is the summary it was written from, with its \<open>amount\<close> column.  Rows with the
  same \<open>updated_at\<close> come in whatever order the table is read in: \<open>place\<close> says where a row lies.
\<close>

type_synonym pg_transfers = "transfer_summary list"

definition pp_getSummary :: "string \<Rightarrow> pg_transfers \<Rightarrow> transfer_summary option result" where
  "pp_getSummary transferId p =
     (case row_of_transfer p transferId of
        None \<Rightarrow> Inr None
      | Some row \<Rightarrow>
          bind_result (js_BigInt (ts_amountMinorUnits row)) (\<lambda>m. Inr (Some (row\<lparr>ts_amount := minorUnitsToNumber m\<rparr>))))"

definition pp_upsertSummary :: "transfer_summary \<Rightarrow> (pg_transfers, unit) prog" where
  "pp_upsertSummary summary p =
     (case numeric_19_2 (ts_amount summary) of
        Inl e \<Rightarrow> (Inl e, p)
      | Inr n \<Rightarrow>
          (let row = summary\<lparr>ts_amount := n\<rparr>
           in (Inr (),
               if list_ex (\<lambda>x. ts_transferId x = ts_transferId summary) p
               then map (\<lambda>x. if ts_transferId x = ts_transferId summary \<and> ts_updatedAt x \<le> ts_updatedAt summary then row else x) p
               else p @ [row])))"

definition postgres_pending :: "transfer_summary \<Rightarrow> bool" where
  "postgres_pending row \<longleftrightarrow> ts_status row \<notin> {T_COMPLETED, T_COMPENSATED}"

definition pp_summaries :: "transfer_summary list \<Rightarrow> pg_transfers \<Rightarrow> transfer_summary list result" where
  "pp_summaries rows p =
     bind_result (map_results (\<lambda>row. pp_getSummary (ts_transferId row) p) rows)
       (\<lambda>found. Inr (map the (filter (\<lambda>x. x \<noteq> None) found)))"

definition pp_listPending ::
  "(transfer_summary \<Rightarrow> nat) \<Rightarrow> nat \<Rightarrow> pg_transfers \<Rightarrow> transfer_summary list result" where
  "pp_listPending place limit p =
     pp_summaries (take limit (sort_key ts_updatedAt (filter postgres_pending (sort_key place p)))) p"

definition pp_listStuck ::
  "(transfer_summary \<Rightarrow> nat) \<Rightarrow> int \<Rightarrow> nat \<Rightarrow> int \<Rightarrow> pg_transfers \<Rightarrow> transfer_summary list result" where
  "pp_listStuck place olderThanSeconds limit now p =
     pp_summaries (take limit (sort_key ts_updatedAt
       (filter (\<lambda>x. postgres_pending x \<and> ts_updatedAt x \<le> now - olderThanSeconds * 1000) (sort_key place p)))) p"

definition postgres_transfer_reads :: "(transfer_summary \<Rightarrow> nat) \<Rightarrow> pg_transfers transfer_read_ops" where
  "postgres_transfer_reads place =
     \<lparr>tp_getSummary = pp_getSummary, tp_upsertSummary = pp_upsertSummary, tp_listPending = pp_listPending place,
      tp_listStuck = pp_listStuck place, tp_resetTransfer = (\<lambda>i. filter (\<lambda>x. ts_transferId x \<noteq> i)),
      tp_resetAll = (\<lambda>_. [])\<rparr>"

section \<open>What a read model of the transfers promises\<close>

definition transfer_summary_ok :: "transfer_summary \<Rightarrow> bool" where
  "transfer_summary_ok s \<longleftrightarrow> (\<exists>m. \<bar>m\<bar> < 10 ^ 15 \<and> ts_amountMinorUnits s = show_int m \<and> ts_amount s = minorUnitsToNumber m)"

definition latest_summary :: "transfer_summary option \<Rightarrow> transfer_summary \<Rightarrow> transfer_summary" where
  "latest_summary old s = (case old of Some c \<Rightarrow> if ts_updatedAt s < ts_updatedAt c then c else s | None \<Rightarrow> s)"

text \<open>The transfers on which a coordinator has work to do.\<close>

definition open_transfer :: "transfer_summary \<Rightarrow> bool" where
  "open_transfer s \<longleftrightarrow> ts_status s \<notin> {T_COMPLETED, T_COMPENSATED}
     \<and> (ts_status s = T_FAILED \<longrightarrow> ts_failureStage s = Some CREDIT)"

locale transfer_read_model =
  fixes ops :: "'p transfer_read_ops"
    and inv :: "'p \<Rightarrow> bool"
    and summary :: "'p \<Rightarrow> string \<rightharpoonup> transfer_summary"
    and pending :: "transfer_summary \<Rightarrow> bool"
  assumes get_summary: "inv p \<Longrightarrow> tp_getSummary ops i p = Inr (summary p i)"
    and summary_transfer: "inv p \<Longrightarrow> summary p i = Some s \<Longrightarrow> ts_transferId s = i \<and> transfer_summary_ok s"
    and upsert: "inv p \<Longrightarrow> transfer_summary_ok s \<Longrightarrow> \<exists>p'. tp_upsertSummary ops s p = (Inr (), p') \<and> inv p'
      \<and> summary p' = (summary p)(ts_transferId s \<mapsto> latest_summary (summary p (ts_transferId s)) s)"
    and list_pending: "inv p \<Longrightarrow> \<exists>xs. tp_listPending ops limit p = Inr (take limit xs) \<and> sorted (map ts_updatedAt xs)
      \<and> distinct (map ts_transferId xs) \<and> set xs = {s. summary p (ts_transferId s) = Some s \<and> pending s}"
    and open_pending: "open_transfer s \<Longrightarrow> pending s"
    and list_stuck: "inv p \<Longrightarrow> \<exists>xs. tp_listStuck ops older limit now p = Inr xs \<and> length xs \<le> limit
      \<and> set xs \<subseteq> {s. summary p (ts_transferId s) = Some s \<and> pending s \<and> ts_updatedAt s \<le> now - older * 1000}"
    and reset_transfer: "inv p \<Longrightarrow> inv (tp_resetTransfer ops i p) \<and> summary (tp_resetTransfer ops i p) = (summary p)(i := None)"
    and reset_all: "inv p \<Longrightarrow> inv (tp_resetAll ops p) \<and> summary (tp_resetAll ops p) = Map.empty"
begin

text \<open>An open transfer is listed unless as many pending ones have waited at least as long.\<close>

lemma open_is_listed:
  assumes "inv p" "summary p (ts_transferId s) = Some s" "open_transfer s"
    and "card {x. summary p (ts_transferId x) = Some x \<and> pending x \<and> ts_updatedAt x \<le> ts_updatedAt s \<and> x \<noteq> s} < limit"
  shows "\<exists>xs. tp_listPending ops limit p = Inr xs \<and> s \<in> set xs"
proof -
  obtain xs where xs: "tp_listPending ops limit p = Inr (take limit xs)" "sorted (map ts_updatedAt xs)"
      "distinct (map ts_transferId xs)" "set xs = {s. summary p (ts_transferId s) = Some s \<and> pending s}"
    using list_pending [OF assms(1), of limit] by blast
  have "s \<in> set xs" using assms(2) open_pending [OF assms(3)] xs(4) by simp
  then obtain ys zs where split: "xs = ys @ s # zs" by (auto dest: split_list)
  have "set ys \<subseteq> {x. summary p (ts_transferId x) = Some x \<and> pending x \<and> ts_updatedAt x \<le> ts_updatedAt s \<and> x \<noteq> s}"
    using xs(2-4) by (auto simp: split sorted_append)
  moreover have "{x. summary p (ts_transferId x) = Some x \<and> pending x \<and> ts_updatedAt x \<le> ts_updatedAt s \<and> x \<noteq> s} \<subseteq> set xs"
    using xs(4) by auto
  then have "finite {x. summary p (ts_transferId x) = Some x \<and> pending x \<and> ts_updatedAt x \<le> ts_updatedAt s \<and> x \<noteq> s}"
    by (rule finite_subset) simp
  ultimately have "card (set ys) < limit" using assms(4) card_mono by (meson le_less_trans)
  moreover have "card (set ys) = length ys" using xs(3) by (intro distinct_card) (simp add: split distinct_map)
  ultimately have "s \<in> set (take limit xs)" by (simp add: split take_Cons' )
  then show ?thesis using xs(1) by blast
qed

end

section \<open>The in-memory repository keeps the contract\<close>

definition mp_inv :: "memory_transfers \<Rightarrow> bool" where
  "mp_inv p \<longleftrightarrow> distinct (map ts_transferId p) \<and> (\<forall>s \<in> set p. transfer_summary_ok s)"

lemma row_of_transfer_iff:
  assumes "distinct (map ts_transferId p)"
  shows "row_of_transfer p i = Some s \<longleftrightarrow> s \<in> set p \<and> ts_transferId s = i"
  using assms by (induction p) (auto simp: row_of_transfer_def image_iff)

lemma row_of_transfer_None: "row_of_transfer p i = None \<longleftrightarrow> i \<notin> ts_transferId ` set p"
  by (auto simp: row_of_transfer_def find_None_iff)

lemma row_of_transfer_append:
  "row_of_transfer (p @ [s]) i = (case row_of_transfer p i of Some x \<Rightarrow> Some x | None \<Rightarrow> if ts_transferId s = i then Some s else None)"
  by (induction p) (auto simp: row_of_transfer_def)

lemma row_of_transfer_map:
  assumes "\<And>x. ts_transferId (f x) = ts_transferId x"
  shows "row_of_transfer (map f p) i = map_option f (row_of_transfer p i)"
  by (induction p) (simp_all add: row_of_transfer_def assms)

lemma row_of_transfer_removed:
  "row_of_transfer (filter (\<lambda>x. ts_transferId x \<noteq> i) p) = (row_of_transfer p)(i := None)"
  by (simp add: row_of_transfer_def find_removed fun_eq_iff)

lemma mp_upsert_contract:
  assumes inv: "mp_inv p" and ok: "transfer_summary_ok s"
  shows "mp_inv (mp_upsertSummary s p) \<and> row_of_transfer (mp_upsertSummary s p)
    = (row_of_transfer p)(ts_transferId s \<mapsto> latest_summary (row_of_transfer p (ts_transferId s)) s)"
proof (cases "row_of_transfer p (ts_transferId s)")
  case None
  then have "ts_transferId s \<notin> ts_transferId ` set p" by (simp add: row_of_transfer_None)
  with None show ?thesis
    using inv ok by (auto simp: mp_upsertSummary_def mp_inv_def latest_summary_def fun_eq_iff
        row_of_transfer_append split: option.split)
next
  case (Some c)
  let ?f = "\<lambda>x. if ts_transferId x = ts_transferId s then s else x"
  have ids: "ts_transferId (?f x) = ts_transferId x" for x by simp
  then have "map ts_transferId (map ?f p) = map ts_transferId p" by (simp add: comp_def)
  then have "mp_inv (map ?f p)" using inv ok by (auto simp: mp_inv_def simp del: map_map)
  moreover have "ts_transferId x = i" if "row_of_transfer p i = Some x" for x i
    using that by (auto simp: row_of_transfer_def find_Some_iff)
  then have "row_of_transfer (map ?f p) = (row_of_transfer p)(ts_transferId s \<mapsto> s)"
    using Some by (auto simp: row_of_transfer_map [OF ids] fun_eq_iff map_option_case split: option.split)
  ultimately show ?thesis using Some inv by (auto simp: mp_upsertSummary_def latest_summary_def fun_eq_iff)
qed

interpretation memory_transfers: transfer_read_model memory_transfer_reads mp_inv row_of_transfer memory_pending
proof unfold_locales
  fix p and s :: transfer_summary
  assume "mp_inv p" "transfer_summary_ok s"
  from mp_upsert_contract [OF this]
  show "\<exists>p'. tp_upsertSummary memory_transfer_reads s p = (Inr (), p') \<and> mp_inv p'
      \<and> row_of_transfer p' = (row_of_transfer p)(ts_transferId s \<mapsto> latest_summary (row_of_transfer p (ts_transferId s)) s)"
    by (simp add: memory_transfer_reads_def)
next
  fix p and limit :: nat
  assume inv: "mp_inv p"
  let ?xs = "sort_key ts_updatedAt (filter memory_pending p)"
  have "distinct (map ts_transferId (filter memory_pending p))"
    using inv by (simp add: mp_inv_def distinct_map_filter)
  then have "distinct (map ts_transferId ?xs)"
    by (metis mset_map mset_sort mset_eq_imp_distinct_iff)
  moreover have "set ?xs = {s. row_of_transfer p (ts_transferId s) = Some s \<and> memory_pending s}"
    using inv by (auto simp: mp_inv_def row_of_transfer_iff)
  ultimately show "\<exists>xs. tp_listPending memory_transfer_reads limit p = Inr (take limit xs) \<and> sorted (map ts_updatedAt xs)
      \<and> distinct (map ts_transferId xs) \<and> set xs = {s. row_of_transfer p (ts_transferId s) = Some s \<and> memory_pending s}"
    by (intro exI [of _ ?xs]) (simp add: memory_transfer_reads_def mp_listPending_def)
next
  fix p and older now :: int and limit :: nat
  assume inv: "mp_inv p"
  have "set (take limit (filter P (take limit (sort_key ts_updatedAt (filter memory_pending p)))))
      \<subseteq> {x \<in> set p. memory_pending x \<and> P x}" for P
    by (auto dest!: in_set_takeD)
  then show "\<exists>xs. tp_listStuck memory_transfer_reads older limit now p = Inr xs \<and> length xs \<le> limit
      \<and> set xs \<subseteq> {s. row_of_transfer p (ts_transferId s) = Some s \<and> memory_pending s \<and> ts_updatedAt s \<le> now - older * 1000}"
    using inv by (fastforce simp: memory_transfer_reads_def mp_listStuck_def mp_listPending_def Let_def mp_inv_def row_of_transfer_iff)
next
  fix p and i :: string
  assume "mp_inv p"
  then show "mp_inv (tp_resetTransfer memory_transfer_reads i p)
      \<and> row_of_transfer (tp_resetTransfer memory_transfer_reads i p) = (row_of_transfer p)(i := None)"
    by (simp add: memory_transfer_reads_def row_of_transfer_removed mp_inv_def distinct_map_filter)
qed (auto simp: memory_transfer_reads_def mp_inv_def row_of_transfer_iff row_of_transfer_def [of "[]"] fun_eq_iff
    open_transfer_def memory_pending_def)

section \<open>The Postgres repository keeps the contract\<close>

definition transfer_row :: "transfer_summary \<Rightarrow> bool" where
  "transfer_row row \<longleftrightarrow> (\<exists>m. \<bar>m\<bar> < 10 ^ 15 \<and> ts_amountMinorUnits row = show_int m)"

definition read_transfer :: "transfer_summary \<Rightarrow> transfer_summary" where
  "read_transfer row =
     row\<lparr>ts_amount := case js_BigInt (ts_amountMinorUnits row) of Inr m \<Rightarrow> minorUnitsToNumber m | Inl _ \<Rightarrow> ts_amount row\<rparr>"

lemma read_transfer_fields [simp]:
  "ts_transferId (read_transfer row) = ts_transferId row" "ts_updatedAt (read_transfer row) = ts_updatedAt row"
  "ts_status (read_transfer row) = ts_status row" "ts_failureStage (read_transfer row) = ts_failureStage row"
  "postgres_pending (read_transfer row) = postgres_pending row"
  by (simp_all add: read_transfer_def postgres_pending_def)

definition pp_summary :: "pg_transfers \<Rightarrow> string \<rightharpoonup> transfer_summary" where
  "pp_summary p i = map_option read_transfer (row_of_transfer p i)"

definition pp_inv :: "pg_transfers \<Rightarrow> bool" where
  "pp_inv p \<longleftrightarrow> distinct (map ts_transferId p) \<and> (\<forall>row \<in> set p. transfer_row row)"

lemma transfer_row_read: "transfer_row row \<Longrightarrow> transfer_summary_ok (read_transfer row)"
  by (auto simp: transfer_row_def transfer_summary_ok_def read_transfer_def show_int_BigInt)

lemma pp_getSummary_eq: "pp_inv p \<Longrightarrow> pp_getSummary i p = Inr (pp_summary p i)"
proof (cases "row_of_transfer p i")
  case None
  then show ?thesis by (simp add: pp_getSummary_def pp_summary_def)
next
  case (Some row)
  assume "pp_inv p"
  with Some have "transfer_row row" by (auto simp: pp_inv_def row_of_transfer_iff)
  with Some show ?thesis
    by (auto simp: pp_getSummary_def pp_summary_def transfer_row_def show_int_BigInt read_transfer_def)
qed

lemma transfer_row_written:
  assumes "transfer_summary_ok s"
  shows "\<exists>n. numeric_19_2 (ts_amount s) = Inr n \<and> transfer_row (s\<lparr>ts_amount := n\<rparr>) \<and> read_transfer (s\<lparr>ts_amount := n\<rparr>) = s"
  using assms by (auto simp: transfer_summary_ok_def transfer_row_def read_transfer_def numeric_cents show_int_BigInt)

lemma pp_upsert_contract:
  assumes inv: "pp_inv p" and ok: "transfer_summary_ok s"
  shows "\<exists>p'. pp_upsertSummary s p = (Inr (), p') \<and> pp_inv p'
    \<and> pp_summary p' = (pp_summary p)(ts_transferId s \<mapsto> latest_summary (pp_summary p (ts_transferId s)) s)"
proof -
  obtain n where n: "numeric_19_2 (ts_amount s) = Inr n" "transfer_row (s\<lparr>ts_amount := n\<rparr>)" "read_transfer (s\<lparr>ts_amount := n\<rparr>) = s"
    using transfer_row_written [OF ok] by blast
  let ?row = "s\<lparr>ts_amount := n\<rparr>"
  show ?thesis
  proof (cases "list_ex (\<lambda>x. ts_transferId x = ts_transferId s) p")
    case True
    let ?f = "\<lambda>x. if ts_transferId x = ts_transferId s \<and> ts_updatedAt x \<le> ts_updatedAt s then ?row else x"
    have ids: "ts_transferId (?f x) = ts_transferId x" for x by simp
    then have "map ts_transferId (map ?f p) = map ts_transferId p" by (simp add: comp_def)
    then have "pp_inv (map ?f p)" using inv n(2) by (auto simp: pp_inv_def simp del: map_map)
    moreover have id: "ts_transferId x = i" if "row_of_transfer p i = Some x" for x i
      using that by (auto simp: row_of_transfer_def find_Some_iff)
    have "row_of_transfer p (ts_transferId s) \<noteq> None"
      using True unfolding row_of_transfer_None list_ex_iff by (metis image_eqI)
    then obtain c where "row_of_transfer p (ts_transferId s) = Some c" by blast
    then have "pp_summary (map ?f p) = (pp_summary p)(ts_transferId s \<mapsto> latest_summary (pp_summary p (ts_transferId s)) s)"
      using id n(3) by (auto simp: pp_summary_def row_of_transfer_map [OF ids] latest_summary_def fun_eq_iff map_option_case
          split: option.split)
    ultimately show ?thesis using True n(1) by (simp add: pp_upsertSummary_def)
  next
    case False
    then have new: "ts_transferId s \<notin> ts_transferId ` set p" by (auto simp: list_ex_iff)
    then have "row_of_transfer p (ts_transferId s) = None" by (simp add: row_of_transfer_None)
    then have "pp_summary (p @ [?row]) = (pp_summary p)(ts_transferId s \<mapsto> latest_summary (pp_summary p (ts_transferId s)) s)"
      using n(3) by (auto simp: pp_summary_def row_of_transfer_append latest_summary_def fun_eq_iff split: option.split)
    moreover have "pp_inv (p @ [?row])" using inv n(2) new by (auto simp: pp_inv_def)
    ultimately show ?thesis using False n(1) by (simp add: pp_upsertSummary_def)
  qed
qed

lemma pp_summaries_rows:
  assumes "pp_inv p" "set rows \<subseteq> set p"
  shows "pp_summaries rows p = Inr (map read_transfer rows)"
proof -
  have "pp_getSummary (ts_transferId row) p = Inr (Some (read_transfer row))" if "row \<in> set rows" for row
  proof -
    have "row_of_transfer p (ts_transferId row) = Some row"
      using that assms by (auto simp: row_of_transfer_iff pp_inv_def)
    then show ?thesis using pp_getSummary_eq [OF assms(1)] by (simp add: pp_summary_def)
  qed
  from map_results_ok [OF this, of rows] show ?thesis by (simp add: pp_summaries_def comp_def)
qed

lemma pp_summary_read:
  assumes "pp_inv p"
  shows "read_transfer ` {x \<in> set p. P (ts_updatedAt x) \<and> postgres_pending x}
    = {s. pp_summary p (ts_transferId s) = Some s \<and> P (ts_updatedAt s) \<and> postgres_pending s}" (is "?L = ?R")
proof
  show "?L \<subseteq> ?R" using assms by (auto simp: pp_summary_def pp_inv_def row_of_transfer_iff)
  show "?R \<subseteq> ?L"
  proof
    fix s assume s: "s \<in> ?R"
    then obtain x where "x \<in> set p" "read_transfer x = s"
      using assms by (auto simp: pp_summary_def pp_inv_def row_of_transfer_iff)
    with s show "s \<in> ?L" by auto
  qed
qed

definition pending_rows :: "(transfer_summary \<Rightarrow> nat) \<Rightarrow> pg_transfers \<Rightarrow> transfer_summary list" where
  "pending_rows place p = sort_key ts_updatedAt (filter postgres_pending (sort_key place p))"

lemma pp_listPending_rows:
  assumes "pp_inv p"
  shows "pp_listPending place limit p = Inr (take limit (map read_transfer (pending_rows place p)))"
proof -
  have "set (take limit (pending_rows place p)) \<subseteq> set p" by (auto simp: pending_rows_def dest!: in_set_takeD)
  from pp_summaries_rows [OF assms this] show ?thesis
    by (simp add: pp_listPending_def pending_rows_def take_map)
qed

lemma pp_pending_rows:
  assumes "pp_inv p"
  shows "sorted (map ts_updatedAt (map read_transfer (pending_rows place p)))
    \<and> distinct (map ts_transferId (map read_transfer (pending_rows place p)))
    \<and> set (map read_transfer (pending_rows place p)) = {s. pp_summary p (ts_transferId s) = Some s \<and> postgres_pending s}"
proof (intro conjI)
  show "sorted (map ts_updatedAt (map read_transfer (pending_rows place p)))"
    by (simp add: pending_rows_def comp_def)
  have "mset (map ts_transferId (pending_rows place p)) = mset (map ts_transferId (filter postgres_pending p))"
    by (simp only: pending_rows_def mset_map mset_sort mset_filter)
  moreover have "distinct (map ts_transferId (filter postgres_pending p))"
    using assms by (simp add: pp_inv_def distinct_map_filter)
  ultimately have "distinct (map ts_transferId (pending_rows place p))" by (metis mset_eq_imp_distinct_iff)
  then show "distinct (map ts_transferId (map read_transfer (pending_rows place p)))" by (simp add: comp_def)
  have "set (pending_rows place p) = {x \<in> set p. postgres_pending x}" by (auto simp: pending_rows_def)
  with pp_summary_read [OF assms, of "\<lambda>_. True"]
  show "set (map read_transfer (pending_rows place p)) = {s. pp_summary p (ts_transferId s) = Some s \<and> postgres_pending s}"
    by simp
qed

interpretation postgres_transfers: transfer_read_model "postgres_transfer_reads place" pp_inv pp_summary postgres_pending
proof unfold_locales
  fix p and s :: transfer_summary
  assume "pp_inv p" "transfer_summary_ok s"
  from pp_upsert_contract [OF this]
  show "\<exists>p'. tp_upsertSummary (postgres_transfer_reads place) s p = (Inr (), p') \<and> pp_inv p'
      \<and> pp_summary p' = (pp_summary p)(ts_transferId s \<mapsto> latest_summary (pp_summary p (ts_transferId s)) s)"
    by (simp add: postgres_transfer_reads_def)
next
  fix p and i :: string and s :: transfer_summary
  assume "pp_inv p" "pp_summary p i = Some s"
  then show "ts_transferId s = i \<and> transfer_summary_ok s"
    using transfer_row_read by (auto simp: pp_summary_def pp_inv_def row_of_transfer_iff)
next
  fix p and limit :: nat
  assume "pp_inv p"
  from pp_listPending_rows [OF this, of place limit] pp_pending_rows [OF this, of place]
  show "\<exists>xs. tp_listPending (postgres_transfer_reads place) limit p = Inr (take limit xs) \<and> sorted (map ts_updatedAt xs)
      \<and> distinct (map ts_transferId xs) \<and> set xs = {s. pp_summary p (ts_transferId s) = Some s \<and> postgres_pending s}"
    unfolding postgres_transfer_reads_def transfer_read_ops.simps by blast
next
  fix p and older now :: int and limit :: nat
  assume inv: "pp_inv p"
  let ?ok = "\<lambda>x. postgres_pending x \<and> ts_updatedAt x \<le> now - older * 1000"
  let ?rows = "take limit (sort_key ts_updatedAt (filter ?ok (sort_key place p)))"
  have rows: "set ?rows \<subseteq> {x \<in> set p. ts_updatedAt x \<le> now - older * 1000 \<and> postgres_pending x}"
    by (auto dest!: in_set_takeD)
  then have "set ?rows \<subseteq> set p" by blast
  from pp_summaries_rows [OF inv this]
  have "tp_listStuck (postgres_transfer_reads place) older limit now p = Inr (map read_transfer ?rows)"
    by (simp only: postgres_transfer_reads_def pp_listStuck_def transfer_read_ops.simps)
  moreover have "set (map read_transfer ?rows)
      \<subseteq> {s. pp_summary p (ts_transferId s) = Some s \<and> ts_updatedAt s \<le> now - older * 1000 \<and> postgres_pending s}"
    using image_mono [OF rows, of read_transfer] pp_summary_read [OF inv, of "\<lambda>u. u \<le> now - older * 1000"] by simp
  ultimately show "\<exists>xs. tp_listStuck (postgres_transfer_reads place) older limit now p = Inr xs \<and> length xs \<le> limit
      \<and> set xs \<subseteq> {s. pp_summary p (ts_transferId s) = Some s \<and> postgres_pending s \<and> ts_updatedAt s \<le> now - older * 1000}"
    by (intro exI [of _ "map read_transfer ?rows"]) (auto simp del: set_map)
next
  fix p and i :: string
  assume "pp_inv p"
  then show "pp_inv (tp_resetTransfer (postgres_transfer_reads place) i p)
      \<and> pp_summary (tp_resetTransfer (postgres_transfer_reads place) i p) = (pp_summary p)(i := None)"
    by (auto simp: postgres_transfer_reads_def row_of_transfer_removed pp_inv_def pp_summary_def distinct_map_filter fun_eq_iff)
qed (auto simp: postgres_transfer_reads_def pp_getSummary_eq pp_inv_def pp_summary_def row_of_transfer_def [of "[]"] fun_eq_iff
    open_transfer_def postgres_pending_def)

end
