(* ===== verification/AccountProjector.thy ===== *)
theory AccountProjector
  imports TransferReadModels "HOL-Library.Sublist"
begin

text \<open>
  \<open>src/modules/accounts/query/account-projector.service.ts\<close>: the projector that keeps the read models of the
  accounts up to date, event by event.  \<open>lookup\<close> is what \<open>getTransferSummary\<close> of the read model of the
  transfers answers while an event is projected.
\<close>

section \<open>The projector\<close>

text \<open>An event of an account without an id (\<open>undefined\<close>) finds no summary in either repository.\<close>

definition getRequiredSummary :: "'r account_read_ops \<Rightarrow> string option \<Rightarrow> 'r \<Rightarrow> account_summary result" where
  "getRequiredSummary ops accountId r =
     bind_result (case accountId of None \<Rightarrow> Inr None | Some a \<Rightarrow> ar_getSummary ops a r) (\<lambda>summary.
       case summary of
         None \<Rightarrow> Inl (GenericError (''Projection missing account summary for account '' @ show_opt accountId))
       | Some s \<Rightarrow> Inr s)"

definition ensureSequentialVersion :: "string \<Rightarrow> int \<Rightarrow> int \<Rightarrow> unit result" where
  "ensureSequentialVersion accountId currentVersion incomingVersion =
     (let expectedNextVersion = currentVersion + 1
      in if incomingVersion \<noteq> expectedNextVersion then Inl (ProjectionGap accountId expectedNextVersion incomingVersion)
         else Inr ())"

record transfer_details =
  td_transferId :: string
  td_transferDirection :: transfer_direction
  td_sourceAccountId :: string
  td_destinationAccountId :: string
  td_counterpartyAccountId :: string
  td_description :: string

definition mapTransferStatementDetails :: "transfer_summary \<Rightarrow> string \<Rightarrow> transfer_details option" where
  "mapTransferStatementDetails transfer accountId =
     (if ts_sourceAccountId transfer = accountId
      then (let isCompensation = ts_compensationTransactionId transfer \<noteq> None
                  \<and> ts_sourceDebitTransactionId transfer \<noteq> ts_compensationTransactionId transfer
            in Some \<lparr>td_transferId = ts_transferId transfer,
                 td_transferDirection = (if isCompensation then REVERSAL else OUTGOING),
                 td_sourceAccountId = ts_sourceAccountId transfer,
                 td_destinationAccountId = ts_destinationAccountId transfer,
                 td_counterpartyAccountId = ts_destinationAccountId transfer,
                 td_description =
                   (if isCompensation
                    then ''Transfer reversal back from failed transfer to account '' @ ts_destinationAccountId transfer
                    else ''Transfer sent to account '' @ ts_destinationAccountId transfer)\<rparr>)
      else if ts_destinationAccountId transfer = accountId
      then Some \<lparr>td_transferId = ts_transferId transfer, td_transferDirection = INCOMING,
             td_sourceAccountId = ts_sourceAccountId transfer, td_destinationAccountId = ts_destinationAccountId transfer,
             td_counterpartyAccountId = ts_sourceAccountId transfer,
             td_description = ''Transfer received from account '' @ ts_sourceAccountId transfer\<rparr>
      else None)"

definition getTransferStatementDetails ::
  "(string \<Rightarrow> transfer_summary option result) \<Rightarrow> domain_event \<Rightarrow> string \<Rightarrow> transfer_details option result" where
  "getTransferStatementDetails lookup event accountId =
     (let transferId = md_correlationId (ev_metadata event)
      in if transferId = '''' then Inr None
         else bind_result (lookup transferId) (\<lambda>transfer.
           case transfer of None \<Rightarrow> Inr None | Some t \<Rightarrow> Inr (mapTransferStatementDetails t accountId)))"

text \<open>An entry with the fields that every event gives it.\<close>

definition plain_entry :: "domain_event \<Rightarrow> string \<Rightarrow> statement_entry" where
  "plain_entry event accountId =
     \<lparr>se_eventId = ev_eventId event, se_accountId = accountId, se_streamVersion = ev_streamVersion event,
      se_eventType = eventType (ev_data event), se_entryKind = None, se_amountMinorUnits = None, se_amount = None,
      se_currency = None, se_transactionId = None, se_transferId = None, se_transferDirection = None,
      se_sourceAccountId = None, se_destinationAccountId = None, se_counterpartyAccountId = None,
      se_description = None, se_reason = None, se_occurredAt = ev_occurredAt event\<rparr>"

definition projectAccountCreated ::
  "'r account_read_ops \<Rightarrow> domain_event \<Rightarrow> string \<Rightarrow> string \<Rightarrow> string \<Rightarrow> ('r, unit) prog" where
  "projectAccountCreated ops event accountId ownerId currency r =
     (case ar_getSummary ops accountId r of
        Inl e \<Rightarrow> (Inl e, r)
      | Inr (Some existing) \<Rightarrow>
          if ev_streamVersion event \<le> sm_version existing then (Inr (), r)
          else (Inl (ProjectionGap accountId (sm_version existing + 1) (ev_streamVersion event)), r)
      | Inr None \<Rightarrow>
          if ev_streamVersion event \<noteq> 1 then (Inl (ProjectionGap accountId 1 (ev_streamVersion event)), r)
          else and_then
            (ar_upsertSummary ops
              \<lparr>sm_accountId = accountId, sm_ownerId = ownerId, sm_currency = currency, sm_status = ACTIVE,
               sm_balanceMinorUnits = ''0'', sm_balance = JsFin 0, sm_version = ev_streamVersion event,
               sm_createdAt = ev_occurredAt event, sm_updatedAt = ev_occurredAt event\<rparr>)
            (\<lambda>_. ar_appendStatement ops (plain_entry event accountId)) r)"

text \<open>The entry of a deposit or a withdrawal.\<close>

definition movement_entry ::
  "domain_event \<Rightarrow> string \<Rightarrow> int \<Rightarrow> string \<Rightarrow> string \<Rightarrow> transfer_details option \<Rightarrow> statement_entry" where
  "movement_entry event accountId amountMinorUnits currency transactionId details =
     (plain_entry event accountId)\<lparr>se_entryKind := Some (if details = None then ACCOUNT_OPERATION else TRANSFER),
        se_amountMinorUnits := Some (show_int amountMinorUnits), se_amount := Some (minorUnitsToNumber amountMinorUnits),
        se_currency := Some currency, se_transactionId := Some transactionId,
        se_transferId := map_option td_transferId details,
        se_transferDirection := map_option td_transferDirection details,
        se_sourceAccountId := map_option td_sourceAccountId details,
        se_destinationAccountId := map_option td_destinationAccountId details,
        se_counterpartyAccountId := map_option td_counterpartyAccountId details,
        se_description := map_option td_description details\<rparr>"

text \<open>
  \<open>projectMoneyDeposited\<close> and \<open>projectMoneyWithdrawn\<close> differ in the sign with which the amount counts.
\<close>

definition project_movement ::
  "'r account_read_ops \<Rightarrow> (string \<Rightarrow> transfer_summary option result) \<Rightarrow> int \<Rightarrow> domain_event
     \<Rightarrow> string option \<Rightarrow> string \<Rightarrow> string \<Rightarrow> string \<Rightarrow> ('r, unit) prog" where
  "project_movement ops lookup sign event accountId amount currency transactionId r =
     (case getRequiredSummary ops accountId r of
        Inl e \<Rightarrow> (Inl e, r)
      | Inr summary \<Rightarrow>
          if ev_streamVersion event \<le> sm_version summary then (Inr (), r)
          else and_then (of_result
            (bind_result (ensureSequentialVersion (show_opt accountId) (sm_version summary) (ev_streamVersion event)) (\<lambda>_.
             bind_result (parseMoneyToMinorUnits (StringAmount amount)) (\<lambda>amountMinorUnits.
             bind_result (js_BigInt (sm_balanceMinorUnits summary)) (\<lambda>balance.
             bind_result (getTransferStatementDetails lookup event (show_opt accountId)) (\<lambda>details.
               Inr (amountMinorUnits, balance + sign * amountMinorUnits, details)))))))
            (\<lambda>(amountMinorUnits, nextBalanceMinorUnits, details). and_then
              (ar_upsertSummary ops
                (summary\<lparr>sm_balanceMinorUnits := show_int nextBalanceMinorUnits,
                         sm_balance := minorUnitsToNumber nextBalanceMinorUnits,
                         sm_version := ev_streamVersion event, sm_updatedAt := ev_occurredAt event\<rparr>))
              (\<lambda>_. ar_appendStatement ops
                (movement_entry event (show_opt accountId) amountMinorUnits currency transactionId details))) r)"

definition projectMoneyDeposited ::
  "'r account_read_ops \<Rightarrow> (string \<Rightarrow> transfer_summary option result) \<Rightarrow> domain_event
     \<Rightarrow> string option \<Rightarrow> string \<Rightarrow> string \<Rightarrow> string \<Rightarrow> ('r, unit) prog" where
  "projectMoneyDeposited ops lookup = project_movement ops lookup 1"

definition projectMoneyWithdrawn ::
  "'r account_read_ops \<Rightarrow> (string \<Rightarrow> transfer_summary option result) \<Rightarrow> domain_event
     \<Rightarrow> string option \<Rightarrow> string \<Rightarrow> string \<Rightarrow> string \<Rightarrow> ('r, unit) prog" where
  "projectMoneyWithdrawn ops lookup = project_movement ops lookup (- 1)"

definition projectAccountFrozen ::
  "'r account_read_ops \<Rightarrow> domain_event \<Rightarrow> string option \<Rightarrow> string \<Rightarrow> ('r, unit) prog" where
  "projectAccountFrozen ops event accountId reason r =
     (case getRequiredSummary ops accountId r of
        Inl e \<Rightarrow> (Inl e, r)
      | Inr summary \<Rightarrow>
          if ev_streamVersion event \<le> sm_version summary then (Inr (), r)
          else and_then (of_result (ensureSequentialVersion (show_opt accountId) (sm_version summary) (ev_streamVersion event)))
            (\<lambda>_. and_then
              (ar_upsertSummary ops
                (summary\<lparr>sm_status := FROZEN, sm_version := ev_streamVersion event, sm_updatedAt := ev_occurredAt event\<rparr>))
              (\<lambda>_. ar_appendStatement ops ((plain_entry event (show_opt accountId))\<lparr>se_reason := Some reason\<rparr>))) r)"

definition project_account ::
  "'r account_read_ops \<Rightarrow> (string \<Rightarrow> transfer_summary option result) \<Rightarrow> domain_event \<Rightarrow> ('r, bool) prog" where
  "project_account ops lookup event =
     (case ev_data event of
        AccountCreated accountId ownerId currency \<Rightarrow>
          and_then (projectAccountCreated ops event accountId ownerId currency) (\<lambda>_. returns True)
      | MoneyDeposited accountId amount currency transactionId \<Rightarrow>
          and_then (projectMoneyDeposited ops lookup event accountId amount currency transactionId) (\<lambda>_. returns True)
      | MoneyWithdrawn accountId amount currency transactionId \<Rightarrow>
          and_then (projectMoneyWithdrawn ops lookup event accountId amount currency transactionId) (\<lambda>_. returns True)
      | AccountFrozen accountId reason \<Rightarrow>
          and_then (projectAccountFrozen ops event accountId reason) (\<lambda>_. returns True)
      | _ \<Rightarrow> returns False)"

section \<open>What the read models show of a history\<close>

text \<open>The summary of an account with history \<open>es\<close>, and the entry of an event up to its transfer details.\<close>

definition account_view :: "domain_event list \<Rightarrow> account_summary option" where
  "account_view es =
     (if es = [] then None
      else case loadFromHistory account_when es new_account of
        Inl _ \<Rightarrow> None
      | Inr (s, _) \<Rightarrow> Some
          \<lparr>sm_accountId = show_opt (acc_accountId s), sm_ownerId = show_opt (acc_ownerId s),
           sm_currency = show_opt (acc_currency s), sm_status = acc_status s,
           sm_balanceMinorUnits = show_int (acc_balance s), sm_balance = minorUnitsToNumber (acc_balance s),
           sm_version = acc_version s, sm_createdAt = ev_occurredAt (hd es), sm_updatedAt = ev_occurredAt (last es)\<rparr>)"

definition parsed :: "string \<Rightarrow> int" where
  "parsed amount = (case parseMoneyToMinorUnits (StringAmount amount) of Inr m \<Rightarrow> m | Inl _ \<Rightarrow> 0)"

definition event_entry :: "string \<Rightarrow> domain_event \<Rightarrow> statement_entry" where
  "event_entry accountId e =
     (case ev_data e of
        MoneyDeposited _ amount currency t \<Rightarrow> movement_entry e accountId (parsed amount) currency t None
      | MoneyWithdrawn _ amount currency t \<Rightarrow> movement_entry e accountId (parsed amount) currency t None
      | AccountFrozen _ reason \<Rightarrow> (plain_entry e accountId)\<lparr>se_reason := Some reason\<rparr>
      | _ \<Rightarrow> plain_entry e accountId)"

definition without_details :: "statement_entry \<Rightarrow> statement_entry" where
  "without_details x =
     x\<lparr>se_entryKind := None, se_transferId := None, se_transferDirection := None, se_sourceAccountId := None,
       se_destinationAccountId := None, se_counterpartyAccountId := None, se_description := None\<rparr>"

text \<open>
  The histories the read models can follow: the account is created first, every later event names it, the
  amounts are readable and the balance stays between zero and ten trillion units.
\<close>

fun later_event :: "string \<Rightarrow> event_data \<Rightarrow> bool" where
  "later_event a (MoneyDeposited i amount _ _) = (i = Some a \<and> (case parseMoneyToMinorUnits (StringAmount amount) of Inr _ \<Rightarrow> True | Inl _ \<Rightarrow> False))"
| "later_event a (MoneyWithdrawn i amount _ _) = (i = Some a \<and> (case parseMoneyToMinorUnits (StringAmount amount) of Inr _ \<Rightarrow> True | Inl _ \<Rightarrow> False))"
| "later_event a (AccountFrozen i _) = (i = Some a)"
| "later_event a _ = False"

fun opening_event :: "string \<Rightarrow> event_data \<Rightarrow> bool" where
  "opening_event a (AccountCreated i _ _) = (i = a)"
| "opening_event a _ = False"

fun balances_after :: "int \<Rightarrow> event_data list \<Rightarrow> int list" where
  "balances_after b [] = [b]"
| "balances_after b (MoneyDeposited _ amount _ _ # ds) = b # balances_after (b + parsed amount) ds"
| "balances_after b (MoneyWithdrawn _ amount _ _ # ds) = b # balances_after (b - parsed amount) ds"
| "balances_after b (_ # ds) = b # balances_after b ds"

fun account_log :: "string \<Rightarrow> domain_event list \<Rightarrow> bool" where
  "account_log a [] = True"
| "account_log a (e # es) =
     (opening_event a (ev_data e) \<and> numbered 0 (e # es) \<and> list_all (\<lambda>x. later_event a (ev_data x)) es
      \<and> list_all (\<lambda>b. 0 \<le> b \<and> b < 10 ^ 15) (balances_after 0 (map ev_data es)))"

lemma later_event_cases:
  assumes "later_event a d"
  obtains amount c t m where "d = MoneyDeposited (Some a) amount c t" "parseMoneyToMinorUnits (StringAmount amount) = Inr m" "parsed amount = m"
  | amount c t m where "d = MoneyWithdrawn (Some a) amount c t" "parseMoneyToMinorUnits (StringAmount amount) = Inr m" "parsed amount = m"
  | reason where "d = AccountFrozen (Some a) reason"
  using assms by (cases d) (auto simp: parsed_def split: sum.splits)

text \<open>How a later event changes the state of its account.\<close>

definition later_state :: "domain_event \<Rightarrow> account_state \<Rightarrow> account_state" where
  "later_state e s =
     (let s1 = s\<lparr>acc_version := ev_streamVersion e\<rparr>
      in case ev_data e of
           MoneyDeposited _ amount _ _ \<Rightarrow> s1\<lparr>acc_balance := acc_balance s + parsed amount\<rparr>
         | MoneyWithdrawn _ amount _ _ \<Rightarrow> s1\<lparr>acc_balance := acc_balance s - parsed amount\<rparr>
         | AccountFrozen _ _ \<Rightarrow> s1\<lparr>acc_status := FROZEN\<rparr>
         | _ \<Rightarrow> s1)"

lemma later_event_when: "later_event a (ev_data e) \<Longrightarrow> account_when s e = Inr (later_state e s)"
  by (erule later_event_cases) (simp_all add: account_when_def later_state_def Let_def)

lemma later_state_fields [simp]:
  "acc_accountId (later_state e s) = acc_accountId s" "acc_ownerId (later_state e s) = acc_ownerId s"
  "acc_currency (later_state e s) = acc_currency s" "acc_version (later_state e s) = ev_streamVersion e"
  by (simp_all add: later_state_def Let_def split: event_data.split)

definition opened_state :: "domain_event \<Rightarrow> account_state" where
  "opened_state e =
     (case ev_data e of
        AccountCreated i ow c \<Rightarrow>
          \<lparr>acc_accountId = Some i, acc_ownerId = Some ow, acc_currency = Some c, acc_status = ACTIVE, acc_balance = 0,
           acc_version = ev_streamVersion e\<rparr>
      | _ \<Rightarrow> new_account_state)"

lemma opening_event_cases:
  assumes "opening_event a d"
  obtains ow c where "d = AccountCreated a ow c"
  using assms by (cases d) auto

lemma load_later:
  assumes "list_all (\<lambda>x. later_event a (ev_data x)) es"
  shows "loadFromHistory account_when es (s, []) = Inr (fold later_state es s, [])"
  using assms by (induction es arbitrary: s) (simp_all add: apply_event_def later_event_when [of a])

lemma account_log_load:
  assumes "account_log a (e # es)"
  shows "loadFromHistory account_when (e # es) new_account = Inr (fold later_state es (opened_state e), [])"
proof -
  obtain ow c where "ev_data e = AccountCreated a ow c" using assms by (auto elim: opening_event_cases)
  then have "account_when new_account_state e = Inr (opened_state e)"
    by (simp add: account_when_def Let_def opened_state_def new_account_state_def)
  then show ?thesis
    using load_later [of a es "opened_state e"] assms by (simp add: new_account_def apply_event_def)
qed

lemma fold_later_fields [simp]:
  "acc_accountId (fold later_state es s) = acc_accountId s" "acc_ownerId (fold later_state es s) = acc_ownerId s"
  "acc_currency (fold later_state es s) = acc_currency s"
  by (induction es arbitrary: s) simp_all

lemma balances_head: "balances_after b ds \<noteq> []" "hd (balances_after b ds) = b"
  by (cases "(b, ds)" rule: balances_after.cases; simp)+

lemma fold_later_balance:
  assumes "list_all (\<lambda>x. later_event a (ev_data x)) es"
  shows "last (balances_after (acc_balance s) (map ev_data es)) = acc_balance (fold later_state es s)"
  using assms
proof (induction es arbitrary: s)
  case Nil
  then show ?case by simp
next
  case (Cons e es)
  then have "later_event a (ev_data e)" by simp
  then show ?case
    using Cons.IH [of "later_state e s"] Cons.prems
    by (cases rule: later_event_cases) (simp_all add: later_state_def Let_def balances_head)
qed

lemma balances_take:
  "list_all P (balances_after b ds) \<Longrightarrow> list_all P (balances_after b (take k ds))"
  by (induction b ds arbitrary: k rule: balances_after.induct) (simp_all add: take_Cons split: nat.split)

lemma account_log_take: "account_log a es \<Longrightarrow> account_log a (take k es)"
proof (cases es; cases k)
  fix e es' k' assume "account_log a es" "es = e # es'" "k = Suc k'"
  then show ?thesis
    using balances_take [of "\<lambda>b. 0 \<le> b \<and> b < 10 ^ 15" 0 "map ev_data es'" k'] numbered_append [of 1 "take k' es'" "drop k' es'"]
    by (auto simp: take_map list_all_iff dest: in_set_takeD)
qed auto

lemma account_log_balance:
  assumes "account_log a (e # es)"
  shows "0 \<le> acc_balance (fold later_state es (opened_state e)) \<and> acc_balance (fold later_state es (opened_state e)) < 10 ^ 15"
proof -
  have "acc_balance (opened_state e) = 0" using assms by (auto simp: opened_state_def elim: opening_event_cases)
  moreover have "list_all (\<lambda>x. later_event a (ev_data x)) es" using assms by simp
  ultimately have "last (balances_after 0 (map ev_data es)) = acc_balance (fold later_state es (opened_state e))"
    using fold_later_balance [of a es "opened_state e"] by simp
  moreover have "last (balances_after 0 (map ev_data es)) \<in> set (balances_after 0 (map ev_data es))"
    by (intro last_in_set balances_head)
  ultimately show ?thesis using assms by (auto simp: list_all_iff)
qed

text \<open>The view of a history by its first event and the state.\<close>

definition state_summary :: "domain_event \<Rightarrow> account_state \<Rightarrow> int \<Rightarrow> account_summary" where
  "state_summary e s updated =
     \<lparr>sm_accountId = show_opt (acc_accountId s), sm_ownerId = show_opt (acc_ownerId s),
      sm_currency = show_opt (acc_currency s), sm_status = acc_status s,
      sm_balanceMinorUnits = show_int (acc_balance s), sm_balance = minorUnitsToNumber (acc_balance s),
      sm_version = acc_version s, sm_createdAt = ev_occurredAt e, sm_updatedAt = updated\<rparr>"

lemma account_view_Cons:
  assumes "account_log a (e # es)"
  shows "account_view (e # es) = Some (state_summary e (fold later_state es (opened_state e)) (ev_occurredAt (last (e # es))))"
  using account_log_load [OF assms] by (simp add: account_view_def state_summary_def)

lemma state_summary_ok:
  assumes "account_log a (e # es)"
  shows "summary_ok (state_summary e (fold later_state es (opened_state e)) u)"
  using account_log_balance [OF assms] unfolding summary_ok_def state_summary_def account_summary.simps
  by (intro exI [of _ "acc_balance (fold later_state es (opened_state e))"]) simp

lemma opened_state_fields:
  assumes "opening_event a (ev_data e)"
  shows "acc_accountId (opened_state e) = Some a" "acc_version (opened_state e) = ev_streamVersion e"
  using assms by (auto simp: opened_state_def elim: opening_event_cases)

lemma fold_later_version:
  assumes "account_log a (e # es)"
  shows "acc_version (fold later_state es (opened_state e)) = int (length (e # es))"
proof -
  have "numbered 0 (e # es)" using assms by simp
  from acct.load_numbered_version [OF account_log_load [OF assms, unfolded new_account_def]] this
  show ?thesis by (simp add: new_account_state_def)
qed

lemma account_view_version:
  assumes "account_log a es" "account_view es = Some s"
  shows "sm_version s = int (length es) \<and> sm_accountId s = a"
proof (cases es)
  case Nil
  with assms(2) show ?thesis by (simp add: account_view_def)
next
  case (Cons e es')
  note log = assms(1) [unfolded Cons]
  then have "opening_event a (ev_data e)" by simp
  with account_view_Cons [OF log] fold_later_version [OF log] assms(2) show ?thesis
    by (auto simp: Cons state_summary_def show_opt_def opened_state_fields)
qed

lemma account_view_None: "account_log a es \<Longrightarrow> account_view es = None \<longleftrightarrow> es = []"
  by (cases es) (auto simp: account_view_Cons account_view_def [of "[]"] simp del: account_log.simps)

text \<open>An amount of a log is below the bound, as the balance is on either side of it.\<close>

lemma account_log_amount:
  assumes "account_log a (e # es @ [x])" and "ev_data x = MoneyDeposited i amount c t \<or> ev_data x = MoneyWithdrawn i amount c t"
  shows "\<bar>parsed amount\<bar> < 10 ^ 15"
proof -
  have "account_log a (e # es)" using account_log_take [OF assms(1), of "Suc (length es)"] by simp
  from account_log_balance [OF this] account_log_balance [OF assms(1)] assms(2)
  show ?thesis by (auto simp: later_state_def Let_def)
qed

lemma log_entry_ok:
  assumes "account_log a (es @ [x])"
  shows "entry_ok (event_entry a x)"
proof (cases es)
  case Nil
  with assms show ?thesis by (auto simp: event_entry_def entry_ok_def plain_entry_def elim: opening_event_cases)
next
  case (Cons e es')
  with assms have "later_event a (ev_data x)" and log: "account_log a (e # es' @ [x])" by simp_all
  then show ?thesis
    using account_log_amount [OF log]
    by (cases rule: later_event_cases) (auto simp: event_entry_def entry_ok_def plain_entry_def movement_entry_def)
qed

lemma entry_fields [simp]:
  "se_eventId (plain_entry e a) = ev_eventId e" "se_accountId (plain_entry e a) = a"
  "se_streamVersion (plain_entry e a) = ev_streamVersion e"
  "se_eventId (movement_entry e a m c t d) = ev_eventId e" "se_accountId (movement_entry e a m c t d) = a"
  "se_streamVersion (movement_entry e a m c t d) = ev_streamVersion e"
  "se_eventId (event_entry a e) = ev_eventId e" "se_accountId (event_entry a e) = a"
  "se_streamVersion (event_entry a e) = ev_streamVersion e"
  by (simp_all add: plain_entry_def movement_entry_def event_entry_def split: event_data.split)

lemma without_details_fields [simp]:
  "se_eventId (without_details x) = se_eventId x" "se_accountId (without_details x) = se_accountId x"
  "se_streamVersion (without_details x) = se_streamVersion x" "entry_ok (without_details x) = entry_ok x"
  by (simp_all add: without_details_def entry_ok_def)

text \<open>The entry that an event makes, labelled with what the read model of the transfers answers.\<close>

definition entry_details :: "(string \<Rightarrow> transfer_summary option result) \<Rightarrow> string \<Rightarrow> domain_event \<Rightarrow> transfer_details option" where
  "entry_details lookup a e = (case getTransferStatementDetails lookup e a of Inr d \<Rightarrow> d | Inl _ \<Rightarrow> None)"

definition labelled_entry :: "(string \<Rightarrow> transfer_summary option result) \<Rightarrow> string \<Rightarrow> domain_event \<Rightarrow> statement_entry" where
  "labelled_entry lookup a e =
     (case ev_data e of
        MoneyDeposited _ amount currency t \<Rightarrow> movement_entry e a (parsed amount) currency t (entry_details lookup a e)
      | MoneyWithdrawn _ amount currency t \<Rightarrow> movement_entry e a (parsed amount) currency t (entry_details lookup a e)
      | _ \<Rightarrow> event_entry a e)"

lemma labelled_without_details [simp]: "without_details (labelled_entry lookup a e) = without_details (event_entry a e)"
  by (simp add: labelled_entry_def event_entry_def movement_entry_def without_details_def split: event_data.split)

section \<open>Projecting one event\<close>

context account_read_model
begin

lemma write_both:
  assumes "inv r" "summary_ok s" "entry_ok x" "sm_accountId s = a" "se_accountId x = a"
    and "\<And>c. summary r a = Some c \<Longrightarrow> sm_version c < sm_version s"
    and "\<forall>b. se_eventId x \<notin> se_eventId ` set (statement r b)"
    and "\<forall>y \<in> set (statement r a). se_streamVersion y < se_streamVersion x"
  shows "\<exists>r'. and_then (ar_upsertSummary ops s) (\<lambda>_. ar_appendStatement ops x) r = (Inr (), r') \<and> inv r'
    \<and> summary r' = (summary r)(a \<mapsto> s) \<and> statement r' = (statement r)(a := statement r a @ [x])"
proof -
  obtain r1 where r1: "ar_upsertSummary ops s r = (Inr (), r1)" "inv r1" "statement r1 = statement r"
      "summary r1 = (summary r)(a \<mapsto> newer_summary (summary r a) s)"
    using upsert [OF assms(1,2)] assms(4) by blast
  have "newer_summary (summary r a) s = s"
    using assms(6) by (fastforce simp: newer_summary_def split: option.split)
  moreover obtain r2 where "ar_appendStatement ops x r1 = (Inr (), r2)" "inv r2" "summary r2 = summary r1"
      "statement r2 = (statement r1)(a := statement r1 a @ [x])"
    using append_new [OF r1(2) assms(3)] assms(5,7,8) unfolding r1(3) by blast
  ultimately show ?thesis using r1 by (intro exI [of _ r2]) simp
qed

lemma required_summary:
  "inv r \<Longrightarrow> getRequiredSummary ops (Some a) r =
     (case summary r a of None \<Rightarrow> Inl (GenericError (''Projection missing account summary for account '' @ a)) | Some s \<Rightarrow> Inr s)"
  by (simp add: getRequiredSummary_def get_summary show_opt_def split: option.split)

lemma statement_versions:
  assumes "map without_details (statement r a) = map (without_details \<circ> event_entry a) es" "numbered 0 (es @ [e])"
  shows "\<forall>y \<in> set (statement r a). se_streamVersion y < ev_streamVersion e"
proof
  fix y assume "y \<in> set (statement r a)"
  then have "without_details y \<in> set (map (without_details \<circ> event_entry a) es)"
    unfolding assms(1) [symmetric] by simp
  then obtain x where "x \<in> set es" "without_details y = without_details (event_entry a x)" by auto
  then have "x \<in> set es" "se_streamVersion y = ev_streamVersion x"
    by (auto dest: arg_cong [where f = se_streamVersion])
  then show "se_streamVersion y < ev_streamVersion e"
    using assms(2) numbered_greater [of 0 es x] by (auto simp: numbered_append)
qed

text \<open>The state of the repository before the next event \<open>e\<close> of a history \<open>es\<close>.\<close>

definition awaits :: "'r \<Rightarrow> string \<Rightarrow> domain_event list \<Rightarrow> domain_event \<Rightarrow> bool" where
  "awaits r a es e \<longleftrightarrow> inv r \<and> account_log a (es @ [e]) \<and> summary r a = account_view es
     \<and> map without_details (statement r a) = map (without_details \<circ> event_entry a) es
     \<and> (\<forall>b. ev_eventId e \<notin> se_eventId ` set (statement r b))"

lemma awaitsD:
  assumes "awaits r a es e"
  shows "inv r" "account_log a (es @ [e])" "summary r a = account_view es"
    "\<forall>b. ev_eventId e \<notin> se_eventId ` set (statement r b)" "ev_streamVersion e = int (length es) + 1"
    "\<forall>y \<in> set (statement r a). se_streamVersion y < ev_streamVersion e"
proof -
  show log: "account_log a (es @ [e])" "inv r" "summary r a = account_view es"
      "\<forall>b. ev_eventId e \<notin> se_eventId ` set (statement r b)"
    using assms by (simp_all add: awaits_def)
  then have "numbered 0 (es @ [e])" by (cases es) auto
  then show "\<forall>y \<in> set (statement r a). se_streamVersion y < ev_streamVersion e" "ev_streamVersion e = int (length es) + 1"
    using statement_versions [of r a es e] assms by (simp_all add: awaits_def numbered_append)
qed

text \<open>What taking the event over leaves behind.\<close>

definition takes_over :: "'r \<Rightarrow> string \<Rightarrow> domain_event list \<Rightarrow> domain_event \<Rightarrow> statement_entry \<Rightarrow> 'r \<Rightarrow> bool" where
  "takes_over r a es e x r' \<longleftrightarrow> inv r' \<and> summary r' = (summary r)(a := account_view (es @ [e]))
     \<and> statement r' = (statement r)(a := statement r a @ [x])"

lemma put_event:
  assumes aw: "awaits r a es e" and view: "account_view (es @ [e]) = Some s" and ok: "summary_ok s"
    and x: "without_details x = without_details (event_entry a e)"
  shows "\<exists>r'. and_then (ar_upsertSummary ops s) (\<lambda>_. ar_appendStatement ops x) r = (Inr (), r') \<and> takes_over r a es e x r'"
proof -
  note aw' = awaitsD [OF aw]
  have "entry_ok x" using log_entry_ok [OF aw'(2)] x by (metis without_details_fields(4))
  moreover have fields: "se_accountId x = a" "se_eventId x = ev_eventId e" "se_streamVersion x = ev_streamVersion e"
    using x by (metis without_details_fields entry_fields(7-9))+
  moreover have "sm_accountId s = a" "sm_version s = int (length es) + 1"
    using account_view_version [OF aw'(2) view] by simp_all
  moreover have "sm_version c = int (length es)" if "summary r a = Some c" for c
    using account_view_version [of a es c] account_log_take [OF aw'(2), of "length es"] that aw'(3) by simp
  ultimately obtain r' where "and_then (ar_upsertSummary ops s) (\<lambda>_. ar_appendStatement ops x) r = (Inr (), r')" "inv r'"
      "summary r' = (summary r)(a \<mapsto> s)" "statement r' = (statement r)(a := statement r a @ [x])"
    using write_both [OF aw'(1) ok, of x a] aw'(4,6) by auto
  then show ?thesis using view by (auto simp: takes_over_def)
qed

lemma project_created:
  assumes aw: "awaits r a [] e"
  shows "\<exists>r'. project_account ops lookup e r = (Inr True, r') \<and> takes_over r a [] e (labelled_entry lookup a e) r'"
proof -
  note aw' = awaitsD [OF aw]
  obtain ow c where e: "ev_data e = AccountCreated a ow c" using aw'(2) by (auto elim: opening_event_cases)
  let ?s = "\<lparr>sm_accountId = a, sm_ownerId = ow, sm_currency = c, sm_status = ACTIVE, sm_balanceMinorUnits = ''0'',
      sm_balance = JsFin 0, sm_version = ev_streamVersion e, sm_createdAt = ev_occurredAt e, sm_updatedAt = ev_occurredAt e\<rparr>"
  have zero: "show_int 0 = ''0''" "minorUnitsToNumber 0 = JsFin 0"
    using show_int_zero [of 0] by (simp_all add: minorUnitsToNumber_round js_round_def)
  have "account_view ([] @ [e]) = Some ?s"
    using account_view_Cons [of a e "[]"] aw'(2) by (simp add: state_summary_def opened_state_def e show_opt_def zero)
  moreover have "summary_ok ?s" unfolding summary_ok_def by (intro exI [of _ 0]) (simp add: zero)
  moreover have "without_details (plain_entry e a) = without_details (event_entry a e)" by (simp add: event_entry_def e)
  ultimately obtain r' where "and_then (ar_upsertSummary ops ?s) (\<lambda>_. ar_appendStatement ops (plain_entry e a)) r = (Inr (), r')"
      "takes_over r a [] e (plain_entry e a) r'"
    using put_event [OF aw] by blast
  moreover have "labelled_entry lookup a e = plain_entry e a" by (simp add: labelled_entry_def event_entry_def e)
  moreover have "summary r a = None" using aw'(3) by (simp add: account_view_def)
  ultimately show ?thesis
    using aw'(5) by (simp add: project_account_def e projectAccountCreated_def get_summary [OF aw'(1)])
qed

text \<open>The summary before and after a later event.\<close>

lemma awaits_later:
  assumes "awaits r a (d # es) e"
  shows "later_event a (ev_data e)"
    and "getRequiredSummary ops (Some a) r = Inr (state_summary d (fold later_state es (opened_state d)) (ev_occurredAt (last (d # es))))"
    and "account_view ((d # es) @ [e]) = Some (state_summary d (later_state e (fold later_state es (opened_state d))) (ev_occurredAt e))"
    and "summary_ok (state_summary d (later_state e (fold later_state es (opened_state d))) (ev_occurredAt e))"
    and "acc_version (fold later_state es (opened_state d)) = ev_streamVersion e - 1"
proof -
  note aw' = awaitsD [OF assms]
  have log: "account_log a (d # es)" "account_log a (d # es @ [e])"
    using account_log_take [OF aw'(2), of "length (d # es)"] aw'(2) by simp_all
  then show "later_event a (ev_data e)" by simp
  show "getRequiredSummary ops (Some a) r = Inr (state_summary d (fold later_state es (opened_state d)) (ev_occurredAt (last (d # es))))"
    by (simp add: required_summary [OF aw'(1)] aw'(3) account_view_Cons [OF log(1)])
  show "account_view ((d # es) @ [e]) = Some (state_summary d (later_state e (fold later_state es (opened_state d))) (ev_occurredAt e))"
    using account_view_Cons [OF log(2)] by simp
  show "summary_ok (state_summary d (later_state e (fold later_state es (opened_state d))) (ev_occurredAt e))"
    using state_summary_ok [OF log(2)] by simp
  show "acc_version (fold later_state es (opened_state d)) = ev_streamVersion e - 1"
    using fold_later_version [OF log(1)] aw'(5) by simp
qed

lemma movement_step:
  assumes aw: "awaits r a (d # es) e" and total: "\<forall>i. \<exists>t. lookup i = Inr t"
    and m: "parseMoneyToMinorUnits (StringAmount amount) = Inr m"
    and entry: "event_entry a e = movement_entry e a m c t None"
    and st: "later_state e (fold later_state es (opened_state d))
      = (fold later_state es (opened_state d))\<lparr>acc_version := ev_streamVersion e,
           acc_balance := acc_balance (fold later_state es (opened_state d)) + sign * m\<rparr>"
  shows "\<exists>r'. project_movement ops lookup sign e (Some a) amount c t r = (Inr (), r')
    \<and> takes_over r a (d # es) e (movement_entry e a m c t (entry_details lookup a e)) r'"
proof -
  note late = awaits_later [OF aw]
  let ?st = "fold later_state es (opened_state d)"
  define s where "s = state_summary d ?st (ev_occurredAt (last (d # es)))"
  define s' where "s' = state_summary d (later_state e ?st) (ev_occurredAt e)"
  have "\<exists>u. getTransferStatementDetails lookup e a = Inr u"
  proof -
    obtain t where "lookup (md_correlationId (ev_metadata e)) = Inr t" using total by blast
    then show ?thesis by (cases t) (simp_all add: getTransferStatementDetails_def Let_def)
  qed
  then obtain details where details: "getTransferStatementDetails lookup e a = Inr details" by blast
  have "without_details (movement_entry e a m c t details) = without_details (event_entry a e)"
    by (simp add: entry movement_entry_def without_details_def)
  from put_event [OF aw late(3,4) this] obtain r' where
      r': "and_then (ar_upsertSummary ops s') (\<lambda>_. ar_appendStatement ops (movement_entry e a m c t details)) r = (Inr (), r')"
      "takes_over r a (d # es) e (movement_entry e a m c t details) r'"
    unfolding s'_def by blast
  have "s\<lparr>sm_balanceMinorUnits := show_int (acc_balance ?st + sign * m), sm_balance := minorUnitsToNumber (acc_balance ?st + sign * m),
      sm_version := ev_streamVersion e, sm_updatedAt := ev_occurredAt e\<rparr> = s'"
    by (simp add: s_def s'_def state_summary_def st)
  moreover have "js_BigInt (sm_balanceMinorUnits s) = Inr (acc_balance ?st)" "sm_version s = ev_streamVersion e - 1"
    using late(5) by (simp_all add: s_def state_summary_def show_int_BigInt)
  ultimately have "project_movement ops lookup sign e (Some a) amount c t r = (Inr (), r')"
    using r'(1) late(2) [folded s_def] m details by (simp add: project_movement_def ensureSequentialVersion_def show_opt_def)
  with r'(2) details show ?thesis by (auto simp: entry_details_def)
qed

text \<open>The next event of a history is taken over.\<close>

lemma project_next:
  assumes aw: "awaits r a es e" and total: "\<forall>i. \<exists>t. lookup i = Inr t"
  shows "\<exists>r'. project_account ops lookup e r = (Inr True, r') \<and> takes_over r a es e (labelled_entry lookup a e) r'"
proof (cases es)
  case Nil
  with project_created aw show ?thesis by blast
next
  case (Cons d es')
  note aw = aw [unfolded Cons]
  note late = awaits_later [OF aw]
  from late(1) show ?thesis
  proof (cases rule: later_event_cases)
    case (1 amount c t m)
    have "\<exists>r'. project_movement ops lookup 1 e (Some a) amount c t r = (Inr (), r')
        \<and> takes_over r a (d # es') e (movement_entry e a m c t (entry_details lookup a e)) r'"
      by (rule movement_step [OF aw total 1(2)]) (simp_all add: event_entry_def later_state_def 1)
    then show ?thesis by (auto simp: project_account_def 1 projectMoneyDeposited_def Cons labelled_entry_def)
  next
    case (2 amount c t m)
    have "\<exists>r'. project_movement ops lookup (- 1) e (Some a) amount c t r = (Inr (), r')
        \<and> takes_over r a (d # es') e (movement_entry e a m c t (entry_details lookup a e)) r'"
      by (rule movement_step [OF aw total 2(2)]) (simp_all add: event_entry_def later_state_def 2)
    then show ?thesis by (auto simp: project_account_def 2 projectMoneyWithdrawn_def Cons labelled_entry_def)
  next
    case (3 reason)
    let ?st = "fold later_state es' (opened_state d)"
    have "without_details ((plain_entry e a)\<lparr>se_reason := Some reason\<rparr>) = without_details (event_entry a e)"
      by (simp add: event_entry_def 3)
    from put_event [OF aw late(3,4) this] obtain r' where "and_then
        (ar_upsertSummary ops (state_summary d (later_state e ?st) (ev_occurredAt e)))
        (\<lambda>_. ar_appendStatement ops ((plain_entry e a)\<lparr>se_reason := Some reason\<rparr>)) r = (Inr (), r')"
        "takes_over r a (d # es') e ((plain_entry e a)\<lparr>se_reason := Some reason\<rparr>) r'"
      by blast
    then show ?thesis
      using late(2,5)
      by (simp add: project_account_def 3 projectAccountFrozen_def ensureSequentialVersion_def show_opt_def Cons
          state_summary_def later_state_def labelled_entry_def event_entry_def)
  qed
qed

end

section \<open>Projecting deliveries\<close>

text \<open>
  The events reach the projector through a broker that may deliver them again, late or out of order, and
  that delivers again what the projector has thrown at.  A delivery is an event with the answers of the
  read model of the transfers at that moment.
\<close>

type_synonym delivery = "domain_event \<times> (string \<Rightarrow> transfer_summary option result)"

fun deliver :: "'r account_read_ops \<Rightarrow> delivery list \<Rightarrow> 'r \<Rightarrow> 'r" where
  "deliver ops [] r = r"
| "deliver ops ((e, lookup) # ds) r = deliver ops ds (snd (project_account ops lookup e r))"

text \<open>The histories of all accounts, and events of them, each under an id of its own.\<close>

definition ids_apart :: "(string \<Rightarrow> domain_event list) \<Rightarrow> bool" where
  "ids_apart S \<longleftrightarrow> (\<forall>a b i j. i < length (S a) \<longrightarrow> j < length (S b) \<longrightarrow>
     ev_eventId (S a ! i) = ev_eventId (S b ! j) \<longrightarrow> a = b \<and> i = j)"

definition delivers :: "(string \<Rightarrow> domain_event list) \<Rightarrow> delivery list \<Rightarrow> bool" where
  "delivers S ds \<longleftrightarrow> (\<forall>(e, lookup) \<in> set ds. (\<exists>a. e \<in> set (S a)) \<and> (\<forall>i. \<exists>t. lookup i = Inr t))"

text \<open>How far deliveries \<open>es\<close> take a reader of \<open>xs\<close> that has come to place \<open>n\<close> and waits for each next element.\<close>

fun progress :: "'a list \<Rightarrow> 'a list \<Rightarrow> nat \<Rightarrow> nat" where
  "progress xs [] n = n"
| "progress xs (e # es) n = progress xs es (if n < length xs \<and> xs ! n = e then Suc n else n)"

lemma progress_bounds: "n \<le> length xs \<Longrightarrow> n \<le> progress xs es n \<and> progress xs es n \<le> length xs"
proof (induction es arbitrary: n)
  case Nil
  then show ?case by simp
next
  case (Cons e es)
  from Cons.IH [of n] Cons.IH [of "Suc n"] Cons.prems show ?case by auto
qed

text \<open>The entries that deliveries add to the statement of an account with history \<open>xs\<close>.\<close>

fun entries_of :: "string \<Rightarrow> domain_event list \<Rightarrow> delivery list \<Rightarrow> nat \<Rightarrow> statement_entry list" where
  "entries_of a xs [] n = []"
| "entries_of a xs ((e, lookup) # ds) n =
     (if n < length xs \<and> xs ! n = e then labelled_entry lookup a e # entries_of a xs ds (Suc n) else entries_of a xs ds n)"

lemma entries_of_events:
  "n \<le> length xs \<Longrightarrow> map without_details (entries_of a xs ds n)
     = map (without_details \<circ> event_entry a) (drop n (take (progress xs (map fst ds) n) xs))"
proof (induction ds arbitrary: n)
  case Nil
  then show ?case by simp
next
  case (Cons d ds)
  obtain e lookup where d: "d = (e, lookup)" by (cases d)
  show ?case
  proof (cases "n < length xs \<and> xs ! n = e")
    case False
    with Cons d show ?thesis by auto
  next
    case True
    let ?p = "progress xs (map fst ds) (Suc n)"
    have "n < length (take ?p xs)" using True progress_bounds [of "Suc n" xs "map fst ds"] by simp
    then have "drop n (take ?p xs) = xs ! n # drop (Suc n) (take ?p xs)" by (simp add: Cons_nth_drop_Suc [symmetric])
    with True Cons.IH [of "Suc n"] show ?thesis by (simp add: d)
  qed
qed

lemma progress_subseq: "n \<le> length xs \<Longrightarrow> subseq (drop n xs) es \<Longrightarrow> progress xs es n = length xs"
proof (induction es arbitrary: n)
  case Nil
  then show ?case by (cases "drop n xs") auto
next
  case (Cons e es)
  show ?case
  proof (cases "n < length xs")
    case False
    then show ?thesis using Cons.IH [of n] Cons.prems by simp
  next
    case True
    then have "drop n xs = xs ! n # drop (Suc n) xs" by (simp add: Cons_nth_drop_Suc)
    with Cons.prems(2) Cons.IH [of n] Cons.IH [of "Suc n"] True show ?thesis by (cases "xs ! n = e") simp_all
  qed
qed

context account_read_model
begin

definition projected :: "(string \<Rightarrow> domain_event list) \<Rightarrow> (string \<Rightarrow> nat) \<Rightarrow> 'r \<Rightarrow> bool" where
  "projected S k r \<longleftrightarrow> inv r \<and> (\<forall>a. k a \<le> length (S a) \<and> summary r a = account_view (take (k a) (S a))
     \<and> map without_details (statement r a) = map (without_details \<circ> event_entry a) (take (k a) (S a)))"

lemma log_nth:
  assumes "account_log a es" "j < length es"
  shows "ev_streamVersion (es ! j) = int j + 1"
    and "if j = 0 then \<exists>ow c. ev_data (es ! j) = AccountCreated a ow c else later_event a (ev_data (es ! j))"
proof -
  have "numbered 0 (take (Suc j) es)" "take (Suc j) es \<noteq> []"
    using account_log_take [OF assms(1), of "Suc j"] assms(2) by (cases es; auto)+
  from numbered_last [OF this] show "ev_streamVersion (es ! j) = int j + 1"
    using assms(2) by (simp add: take_Suc_conv_app_nth)
  show "if j = 0 then \<exists>ow c. ev_data (es ! j) = AccountCreated a ow c else later_event a (ev_data (es ! j))"
    using assms by (cases es) (auto simp: nth_Cons' list_all_length elim: opening_event_cases)
qed

lemma projected_version:
  assumes "projected S k r" "account_log a (S a)" "0 < k a"
  shows "\<exists>s. summary r a = Some s \<and> sm_version s = int (k a)"
proof -
  have sum: "summary r a = account_view (take (k a) (S a))" and len: "k a \<le> length (S a)"
    using assms(1) by (simp_all add: projected_def)
  note log = account_log_take [OF assms(2), of "k a"]
  have "take (k a) (S a) \<noteq> []" using assms(3) len by (cases "S a") auto
  then obtain s where "account_view (take (k a) (S a)) = Some s" using account_view_None [OF log] by blast
  with account_view_version [OF log this] sum len show ?thesis by simp
qed

lemma project_old:
  assumes "projected S k r" "account_log a (S a)" "j < k a"
  shows "project_account ops lookup (S a ! j) r = (Inr True, r)"
proof -
  have inv: "inv r" and len: "k a \<le> length (S a)" using assms(1) by (simp_all add: projected_def)
  obtain s where s: "summary r a = Some s" "sm_version s = int (k a)"
    using projected_version [OF assms(1,2)] assms(3) by auto
  have required: "getRequiredSummary ops (Some a) r = Inr s" by (simp add: required_summary [OF inv] s)
  note nth = log_nth [OF assms(2), of j]
  show ?thesis
  proof (cases "j = 0")
    case True
    moreover have "j < length (S a)" using assms(3) len by simp
    ultimately obtain ow c where "ev_data (S a ! j) = AccountCreated a ow c" using nth(2) by auto
    then show ?thesis
      using nth(1) s assms(3) len by (simp add: project_account_def projectAccountCreated_def get_summary [OF inv])
  next
    case False
    then have "later_event a (ev_data (S a ! j))" using nth(2) assms(3) len by simp
    then show ?thesis
      using nth(1) s assms(3) len required
      by (cases rule: later_event_cases)
        (simp_all add: project_account_def projectMoneyDeposited_def projectMoneyWithdrawn_def projectAccountFrozen_def
          project_movement_def)
  qed
qed

lemma project_ahead:
  assumes "projected S k r" "account_log a (S a)" "k a < j" "j < length (S a)"
  shows "project_account ops lookup (S a ! j) r
    = (Inl (if k a = 0 then GenericError (''Projection missing account summary for account '' @ a)
            else ProjectionGap a (int (k a) + 1) (int j + 1)), r)"
proof -
  have inv: "inv r" and sum: "summary r a = account_view (take (k a) (S a))"
    using assms(1) by (simp_all add: projected_def)
  note nth = log_nth [OF assms(2,4)]
  have later: "later_event a (ev_data (S a ! j))" using nth(2) assms(3) by simp
  show ?thesis
  proof (cases "k a = 0")
    case True
    then have "getRequiredSummary ops (Some a) r = Inl (GenericError (''Projection missing account summary for account '' @ a))"
      using sum by (simp add: required_summary [OF inv] account_view_def)
    with later True show ?thesis
      by (cases rule: later_event_cases)
        (simp_all add: project_account_def projectMoneyDeposited_def projectMoneyWithdrawn_def projectAccountFrozen_def
          project_movement_def)
  next
    case False
    then obtain s where s: "summary r a = Some s" "sm_version s = int (k a)"
      using projected_version [OF assms(1,2)] by auto
    then have "getRequiredSummary ops (Some a) r = Inr s" by (simp add: required_summary [OF inv])
    with later False s(2) nth(1) assms(3) show ?thesis
      by (cases rule: later_event_cases)
        (simp_all add: project_account_def projectMoneyDeposited_def projectMoneyWithdrawn_def projectAccountFrozen_def
          project_movement_def ensureSequentialVersion_def show_opt_def)
  qed
qed

lemma projected_ids:
  assumes "projected S k r"
  shows "se_eventId ` set (statement r a) = ev_eventId ` set (take (k a) (S a))"
proof -
  have "se_eventId ` set (statement r a) = se_eventId ` set (map without_details (statement r a))"
    by (simp add: image_image)
  also have "\<dots> = ev_eventId ` set (take (k a) (S a))"
    using assms by (simp add: projected_def image_image)
  finally show ?thesis .
qed

lemma project_due:
  assumes p: "projected S k r" and log: "account_log a (S a)" and apart: "ids_apart S" and j: "k a < length (S a)"
    and total: "\<forall>i. \<exists>t. lookup i = Inr t"
  shows "\<exists>r'. project_account ops lookup (S a ! k a) r = (Inr True, r') \<and> projected S (k(a := Suc (k a))) r'
    \<and> statement r' = (statement r)(a := statement r a @ [labelled_entry lookup a (S a ! k a)])"
proof -
  let ?e = "S a ! k a"
  have take: "take (Suc (k a)) (S a) = take (k a) (S a) @ [?e]" using j by (rule take_Suc_conv_app_nth)
  have fresh: "ev_eventId ?e \<notin> se_eventId ` set (statement r b)" for b
  proof
    assume "ev_eventId ?e \<in> se_eventId ` set (statement r b)"
    then obtain x where "x \<in> set (take (k b) (S b))" "ev_eventId ?e = ev_eventId x"
      unfolding projected_ids [OF p] by auto
    then obtain i where "i < k b" "i < length (S b)" "ev_eventId ?e = ev_eventId (S b ! i)"
      by (auto simp: in_set_conv_nth)
    with apart j show False by (auto simp: ids_apart_def)
  qed
  have "awaits r a (take (k a) (S a)) ?e"
    using p fresh account_log_take [OF log, of "Suc (k a)"] by (auto simp: awaits_def projected_def take)
  from project_next [OF this total] obtain r' where r': "project_account ops lookup ?e r = (Inr True, r')"
      "takes_over r a (take (k a) (S a)) ?e (labelled_entry lookup a ?e) r'" by blast
  have "projected S (k(a := Suc (k a))) r'"
    using r'(2) p j by (auto simp: projected_def takes_over_def take)
  with r' show ?thesis by (auto simp: takes_over_def)
qed

lemma deliver_projected:
  assumes "projected S k r" "\<And>a. account_log a (S a)" "ids_apart S" "delivers S ds"
  shows "projected S (\<lambda>a. progress (S a) (map fst ds) (k a)) (deliver ops ds r)
    \<and> statement (deliver ops ds r) = (\<lambda>a. statement r a @ entries_of a (S a) ds (k a))"
  using assms(1,4)
proof (induction ds arbitrary: k r)
  case Nil
  then show ?case by simp
next
  case (Cons d ds)
  obtain e lookup where d: "d = (e, lookup)" by (cases d)
  then obtain a j where j: "j < length (S a)" "e = S a ! j" and total: "\<forall>i. \<exists>t. lookup i = Inr t" and ds: "delivers S ds"
    using Cons.prems(2) by (auto simp: delivers_def in_set_conv_nth)
  let ?k = "\<lambda>b. if k b < length (S b) \<and> S b ! k b = e then Suc (k b) else k b"
  have next_is: "k b < length (S b) \<and> S b ! k b = e \<longleftrightarrow> b = a \<and> k a = j" for b
  proof
    assume "k b < length (S b) \<and> S b ! k b = e"
    with assms(3) [unfolded ids_apart_def, rule_format, of "k b" b j a] j show "b = a \<and> k a = j" by auto
  qed (use j in auto)
  have step: "projected S ?k (snd (project_account ops lookup e r))
    \<and> statement (snd (project_account ops lookup e r)) = (\<lambda>b. statement r b @
        (if k b < length (S b) \<and> S b ! k b = e then [labelled_entry lookup b e] else []))"
  proof (cases "j = k a")
    case False
    then have "snd (project_account ops lookup e r) = r"
      using project_old [OF Cons.prems(1) assms(2), of j a] project_ahead [OF Cons.prems(1) assms(2), of a j] j
      by (cases "j < k a") auto
    with False Cons.prems(1) show ?thesis unfolding next_is by auto
  next
    case True
    moreover have "(\<lambda>b. if b = a \<and> k a = j then Suc (k b) else k b) = k(a := Suc (k a))" using True by auto
    ultimately show ?thesis
      using project_due [OF Cons.prems(1) assms(2,3) _ total, of a] j unfolding next_is by auto
  qed
  from Cons.IH [OF conjunct1 [OF step] ds] conjunct2 [OF step] show ?case by (simp add: d fun_eq_iff)
qed

end

section \<open>Histories of real accounts\<close>

text \<open>The history of an account that was created, whatever commands it was given afterwards, as long as its
  balance stays below the bound.\<close>

fun bounded_run :: "(account_command \<times> command_context \<times> stamp) list \<Rightarrow> account \<Rightarrow> bool" where
  "bounded_run [] a = (acc_balance (fst a) < 10 ^ 15)"
| "bounded_run ((c, ctx, st) # cs) a = (acc_balance (fst a) < 10 ^ 15 \<and>
     bounded_run cs (case account_operation c ctx st a of Inl e \<Rightarrow> a | Inr a' \<Rightarrow> a'))"

lemma balances_snoc:
  "balances_after b (ds @ [d]) = balances_after b ds @
     [last (balances_after (last (balances_after b ds)) [d])]"
proof (induction b ds rule: balances_after.induct)
  case (1 b)
  then show ?case by (cases d) simp_all
qed (simp_all add: balances_head)

lemma account_log_snoc:
  assumes "account_log a (e # es)" "later_event a (ev_data x)" "ev_streamVersion x = int (length es) + 2"
    and "0 \<le> acc_balance (later_state x (fold later_state es (opened_state e)))"
    and "acc_balance (later_state x (fold later_state es (opened_state e))) < 10 ^ 15"
  shows "account_log a (e # es @ [x])"
proof -
  have "opening_event a (ev_data e)" using assms(1) by simp
  then have "acc_balance (opened_state e) = 0" by (auto simp: opened_state_def elim: opening_event_cases)
  then have "last (balances_after 0 (map ev_data es)) = acc_balance (fold later_state es (opened_state e))"
    using fold_later_balance [of a es "opened_state e"] assms(1) by simp
  moreover have "last (balances_after (acc_balance s) [ev_data x]) = acc_balance (later_state x s)" for s
    using fold_later_balance [of a "[x]" s] assms(2) by simp
  ultimately show ?thesis using assms by (simp add: balances_snoc numbered_append)
qed

lemma operation_event:
  assumes "account_operation c ctx st (s, us) = Inr (s', us')" "acc_accountId s = Some a" "a \<noteq> ''''"
  shows "\<exists>x. us' = us @ [x] \<and> later_event a (ev_data x) \<and> ev_streamVersion x = acc_version s + 1 \<and> ev_eventId x = st_uuid st
    \<and> s' = later_state x s"
  using assms
  by (cases c) (auto simp: account_command_defs bind_result_Inr_iff account_simps later_state_def Let_def parsed_def
      split: if_splits)

lemma run_commands_log:
  assumes "account_log a (e # es)" "a \<noteq> ''''" "bounded_run cs (fold later_state es (opened_state e), e # es)"
  shows "\<exists>es'. account_log a (e # es') \<and> run_commands account_operation cs (fold later_state es (opened_state e), e # es)
    = (fold later_state es' (opened_state e), e # es')"
  using assms(1,3)
proof (induction cs arbitrary: es)
  case Nil
  then show ?case by auto
next
  case (Cons x cs)
  obtain c ctx st where x: "x = (c, ctx, st)" by (cases x)
  let ?s = "fold later_state es (opened_state e)"
  show ?case
  proof (cases "account_operation c ctx st (?s, e # es)")
    case (Inl err)
    with Cons x show ?thesis by simp
  next
    case (Inr b)
    then obtain s' us' where b: "account_operation c ctx st (?s, e # es) = Inr (s', us')" by (cases b) auto
    have "opening_event a (ev_data e)" using Cons.prems(1) by simp
    then have id: "acc_accountId ?s = Some a" using opened_state_fields by simp
    from operation_event [OF b id assms(2)] obtain y where
        y: "us' = (e # es) @ [y]" "later_event a (ev_data y)" "ev_streamVersion y = acc_version ?s + 1" "s' = later_state y ?s"
      by blast
    have "0 \<le> acc_balance s'" using account_inv_step [OF _ b] account_log_balance [OF Cons.prems(1)] by simp
    moreover have "acc_balance s' < 10 ^ 15" "bounded_run cs (s', us')"
      using Cons.prems(2) by (cases cs; auto simp: x b)+
    moreover have "ev_streamVersion y = int (length es) + 2" using y(3) fold_later_version [OF Cons.prems(1)] by simp
    ultimately have "account_log a (e # es @ [y])" using account_log_snoc [OF Cons.prems(1) y(2)] y(4) by simp
    from Cons.IH [OF this] \<open>bounded_run cs (s', us')\<close> y(1,4) show ?thesis by (simp add: x b)
  qed
qed

text \<open>The history of an account that is created and then given any commands.\<close>

lemma created_log:
  assumes "a \<noteq> ''''" "bounded_run cs (fst (run_commands account_operation [(CreateAccount a ow c, ctx, st)] new_account),
      snd (run_commands account_operation [(CreateAccount a ow c, ctx, st)] new_account))"
  shows "account_log a (snd (run_commands account_operation ((CreateAccount a ow c, ctx, st) # cs) new_account))"
proof -
  define e where "e = account_makeEvent new_account_state (AccountCreated a ow c) ctx (''account-'' @ a) st"
  have e: "opening_event a (ev_data e)" "ev_streamVersion e = 1"
    by (simp_all add: e_def, simp add: new_account_state_def)
  have first: "run_commands account_operation [(CreateAccount a ow c, ctx, st)] new_account = (opened_state e, [e])"
    by (simp add: new_account_def account_command_defs account_simps e_def opened_state_def)
      (simp add: new_account_state_def)
  have "run_commands account_operation ((CreateAccount a ow c, ctx, st) # cs) new_account
      = run_commands account_operation cs (run_commands account_operation [(CreateAccount a ow c, ctx, st)] new_account)"
    by simp
  moreover have "account_log a [e]" using e by simp
  ultimately show ?thesis
    using run_commands_log [of a e "[]" cs] assms unfolding first by auto
qed

section \<open>Properties\<close>

lemma empty_reads:
  "pa_inv empty_pg_accounts" "pa_summary empty_pg_accounts = Map.empty" "pa_statement empty_pg_accounts = (\<lambda>a. [])"
  "ma_inv empty_memory_accounts" "ma_summaries empty_memory_accounts = Map.empty" "ma_statement empty_memory_accounts = (\<lambda>a. [])"
  by (auto simp: empty_pg_accounts_def empty_memory_accounts_def pa_inv_def pa_summary_def pa_statement_def pa_rows_def ma_inv_def
      ma_statement_def)

lemma empty_projected:
  "postgres_accounts.projected S (\<lambda>a. 0) empty_pg_accounts" "memory_accounts.projected S (\<lambda>a. 0) empty_memory_accounts"
  by (simp_all add: postgres_accounts.projected_def memory_accounts.projected_def empty_reads account_view_def)


definition sample_history :: "domain_event list" where
  "sample_history = snd (run_commands account_operation
     [(CreateAccount ''a'' ''o'' ''USD'', sample_context, \<lparr>st_uuid = ''e1'', st_now = 1\<rparr>),
      (DepositMoney (StringAmount ''7.50'') ''USD'' ''x'', sample_context, \<lparr>st_uuid = ''e2'', st_now = 2\<rparr>),
      (FreezeAccount ''r'', sample_context, \<lparr>st_uuid = ''e3'', st_now = 3\<rparr>)] new_account)"

lemma parse_750: "parseMoneyToMinorUnits (StringAmount ''7.50'') = Inr 750"
  by code_simp

lemma sample_history_log: "account_log ''a'' sample_history"
  unfolding sample_history_def
  by (rule created_log)
    (simp_all add: new_account_def account_command_defs account_simps parse_750, simp_all add: new_account_state_def)

lemma sample_history_ids: "map ev_eventId sample_history = [''e1'', ''e2'', ''e3'']"
  by (simp add: sample_history_def new_account_def account_command_defs account_simps parse_750, simp add: new_account_state_def)

text \<open>The third event comes first, and the second twice.\<close>

definition sample_deliveries :: "delivery list" where
  "sample_deliveries = map (\<lambda>i. (sample_history ! i, \<lambda>_. Inr None)) [2, 0, 1, 1, 2]"

definition sample_histories :: "string \<Rightarrow> domain_event list" where
  "sample_histories a = (if a = ''a'' then sample_history else [])"

lemma sample_histories_ok:
  "account_log x (sample_histories x)" "ids_apart sample_histories" "delivers sample_histories sample_deliveries"
proof -
  have "distinct (map ev_eventId sample_history)" unfolding sample_history_ids by simp
  then show "ids_apart sample_histories" by (auto simp: ids_apart_def sample_histories_def distinct_conv_nth)
  show "account_log x (sample_histories x)" using sample_history_log by (simp add: sample_histories_def)
  have "length sample_history = 3" using arg_cong [OF sample_history_ids, of length] by simp
  then have "sample_history ! i \<in> set sample_history" if "i \<in> {0, 1, 2}" for i using that by (intro nth_mem) auto
  then have "sample_history ! i \<in> set (sample_histories ''a'')" if "i \<in> {0, 1, 2}" for i using that by (simp add: sample_histories_def)
  then show "delivers sample_histories sample_deliveries" unfolding delivers_def sample_deliveries_def by fastforce
qed

lemma sample_deliveries_subseq: "subseq (sample_histories ''a'') (map fst sample_deliveries)"
proof -
  obtain e1 e2 e3 where h: "sample_history = [e1, e2, e3]" using sample_history_ids by (auto simp: map_eq_Cons_conv)
  have "subseq [e1, e2, e3] ([e3] @ [e1, e2] @ [e2] @ [e3])"
    by (intro list_emb_append2 [of _ _ _ "[e3]"]) (simp add: subseq_append')
  then show ?thesis by (simp add: sample_histories_def sample_deliveries_def h)
qed


text \<open>C21: The two repositories are interchangeable: after the same deliveries the in-memory and the Postgres read
  model of the accounts give the same summary and the same pages of the statement of every account, labels
  included.\<close>

theorem account_read_models_agree:
  assumes "\<And>x. account_log x (S x)" and "ids_apart S" and "delivers S ds"
  shows "ar_getSummary memory_account_reads a (deliver memory_account_reads ds empty_memory_accounts)
      = ar_getSummary postgres_account_reads a (deliver postgres_account_reads ds empty_pg_accounts)
    \<and> ar_getStatement memory_account_reads a limit offset (deliver memory_account_reads ds empty_memory_accounts)
      = ar_getStatement postgres_account_reads a limit offset (deliver postgres_account_reads ds empty_pg_accounts)"
proof -
  note p = postgres_accounts.deliver_projected [OF empty_projected(1) assms]
  note m = memory_accounts.deliver_projected [OF empty_projected(2) assms]
  have "pa_inv (deliver postgres_account_reads ds empty_pg_accounts)" "ma_inv (deliver memory_account_reads ds empty_memory_accounts)"
    using p m by (simp_all add: postgres_accounts.projected_def memory_accounts.projected_def)
  then show ?thesis
    using p m by (simp add: postgres_accounts.get_summary postgres_accounts.get_statement memory_accounts.get_summary
        memory_accounts.get_statement postgres_accounts.projected_def memory_accounts.projected_def empty_reads)
qed

theorem account_read_models_agree_witness:
  "ar_getStatement memory_account_reads ''a'' 10 1 (deliver memory_account_reads sample_deliveries empty_memory_accounts)
    = ar_getStatement postgres_account_reads ''a'' 10 1 (deliver postgres_account_reads sample_deliveries empty_pg_accounts)"
  using account_read_models_agree [OF sample_histories_ok] by blast

lemma undefined_freeze_fails:
  "ev_data e = AccountFrozen None reason \<Longrightarrow>
     project_account ops lookup e r = (Inl (GenericError ''Projection missing account summary for account undefined''), r)"
  by (simp add: project_account_def projectAccountFrozen_def getRequiredSummary_def show_opt_def)

lemma run_commands_later:
  assumes "acc_accountId s = Some a" "a \<noteq> ''''"
  shows "\<exists>vs. snd (run_commands account_operation cs (s, us)) = us @ vs \<and> list_all (\<lambda>x. later_event a (ev_data x)) vs"
  using assms(1)
proof (induction cs arbitrary: s us)
  case Nil
  then show ?case by simp
next
  case (Cons x cs)
  obtain c ctx st where x: "x = (c, ctx, st)" by (cases x)
  show ?case
  proof (cases "account_operation c ctx st (s, us)")
    case (Inl err)
    with Cons x show ?thesis by simp
  next
    case (Inr b)
    then obtain s' us' where b: "account_operation c ctx st (s, us) = Inr (s', us')" by (cases b) auto
    from operation_event [OF b Cons.prems assms(2)] obtain y where
        y: "us' = us @ [y]" "later_event a (ev_data y)" "s' = later_state y s" by blast
    with Cons.IH [of s' us'] Cons.prems show ?thesis by (auto simp: x b)
  qed
qed

text \<open>One freeze request for an account that does not exist yet (which the freeze command accepts) makes the
  account invisible for good: whatever commands it is given after its creation, the projector throws at
  every event of its history however the events are delivered, and the read models stay as they were.\<close>

theorem frozen_before_created_is_never_projected:
  assumes "a \<noteq> ''''" and "reason \<noteq> ''''"
    and "set (map fst ds) \<subseteq> set (snd (run_commands account_operation
      ((FreezeAccount reason, c1, st1) # (CreateAccount a ow c, c2, st2) # cs) new_account))"
  shows "deliver postgres_account_reads ds empty_pg_accounts = empty_pg_accounts"
proof -
  let ?s = "\<lparr>acc_accountId = Some a, acc_ownerId = Some ow, acc_currency = Some c, acc_status = ACTIVE, acc_balance = 0, acc_version = 2\<rparr>"
  obtain e1 e2 where first: "run_commands account_operation [(FreezeAccount reason, c1, st1), (CreateAccount a ow c, c2, st2)] new_account
      = (?s, [e1, e2])" "ev_data e1 = AccountFrozen None reason" "ev_data e2 = AccountCreated a ow c" "ev_streamVersion e2 = 2"
    using assms(1,2) by (simp add: new_account_def new_account_state_def account_command_defs account_simps)
  have "run_commands account_operation ((FreezeAccount reason, c1, st1) # (CreateAccount a ow c, c2, st2) # cs) new_account
      = run_commands account_operation cs
          (run_commands account_operation [(FreezeAccount reason, c1, st1), (CreateAccount a ow c, c2, st2)] new_account)"
    by simp
  then obtain vs where vs: "snd (run_commands account_operation
      ((FreezeAccount reason, c1, st1) # (CreateAccount a ow c, c2, st2) # cs) new_account) = [e1, e2] @ vs"
      "list_all (\<lambda>x. later_event a (ev_data x)) vs"
    using run_commands_later [of ?s a cs "[e1, e2]"] assms(1) unfolding first(1) by auto
  have none: "pa_getSummary a empty_pg_accounts = Inr None"
    by (simp add: pa_getSummary_def empty_pg_accounts_def)
  have "snd (project_account postgres_account_reads lookup e empty_pg_accounts) = empty_pg_accounts" if e: "e \<in> set ([e1, e2] @ vs)" for e lookup
  proof -
    consider "e = e1" | "e = e2" | "later_event a (ev_data e)" using e vs(2) by (auto simp: list_all_iff)
    then show ?thesis
    proof cases
      case 1
      then show ?thesis by (simp add: undefined_freeze_fails [OF first(2)])
    next
      case 2
      then show ?thesis
        using first(3,4) none by (simp add: project_account_def projectAccountCreated_def postgres_account_reads_def)
    next
      case 3
      have "getRequiredSummary postgres_account_reads (Some a) empty_pg_accounts
          = Inl (GenericError (''Projection missing account summary for account '' @ a))"
        using none by (simp add: getRequiredSummary_def postgres_account_reads_def show_opt_def)
      with 3 show ?thesis
        by (cases rule: later_event_cases)
          (simp_all add: project_account_def projectMoneyDeposited_def projectMoneyWithdrawn_def projectAccountFrozen_def
            project_movement_def)
    qed
  qed
  then have "deliver postgres_account_reads ds empty_pg_accounts = empty_pg_accounts"
    if "set (map fst ds) \<subseteq> set ([e1, e2] @ vs)" for ds
    using that by (induction ds) (auto simp del: set_append)
  with assms(3) vs(1) show ?thesis by simp
qed

theorem frozen_before_created_is_never_projected_witness:
  "\<exists>e. ev_data e = AccountCreated ''a'' ''o'' ''USD''
     \<and> deliver postgres_account_reads [(e, \<lambda>_. Inr None)] empty_pg_accounts = empty_pg_accounts"
proof -
  let ?cs = "[(FreezeAccount ''r'', sample_context, \<lparr>st_uuid = ''e1'', st_now = 1\<rparr>),
      (CreateAccount ''a'' ''o'' ''USD'', sample_context, \<lparr>st_uuid = ''e2'', st_now = 2\<rparr>)]"
  have "map ev_data (snd (run_commands account_operation ?cs new_account)) = [AccountFrozen None ''r'', AccountCreated ''a'' ''o'' ''USD'']"
    by (simp add: new_account_def new_account_state_def account_command_defs account_simps)
  then have "AccountCreated ''a'' ''o'' ''USD'' \<in> ev_data ` set (snd (run_commands account_operation ?cs new_account))"
    unfolding set_map [symmetric] by (simp only: list.set insert_iff simp_thms)
  then obtain e where "e \<in> set (snd (run_commands account_operation ?cs new_account))" "ev_data e = AccountCreated ''a'' ''o'' ''USD''"
    by (elim imageE) (rule that, assumption, erule sym)
  moreover from this have "deliver postgres_account_reads [(e, \<lambda>_. Inr None)] empty_pg_accounts = empty_pg_accounts"
    by (intro frozen_before_created_is_never_projected
        [of "''a''" "''r''" "[(e, \<lambda>_. Inr None)]" sample_context "\<lparr>st_uuid = ''e1'', st_now = 1\<rparr>" "''o''" "''USD''" sample_context
          "\<lparr>st_uuid = ''e2'', st_now = 2\<rparr>" "[]"]) simp_all
  ultimately show ?thesis by blast
qed

end
