(* ===== verification/TransferProjector.thy ===== *)
theory TransferProjector
  imports AccountProjector
begin

text \<open>
  \<open>src/modules/transfers/query/transfer-projector.service.ts\<close>: the projector of the transfers.  It has no
  versions to go by: the repository keeps whatever event says it happened last.
\<close>

section \<open>The projector\<close>

definition initiated_summary :: "domain_event \<Rightarrow> string \<Rightarrow> string \<Rightarrow> string \<Rightarrow> int \<Rightarrow> string \<Rightarrow> transfer_summary" where
  "initiated_summary event transferId source destination amountMinorUnits currency =
     \<lparr>ts_transferId = transferId, ts_sourceAccountId = source, ts_destinationAccountId = destination,
      ts_amountMinorUnits = show_int amountMinorUnits, ts_amount = minorUnitsToNumber amountMinorUnits,
      ts_currency = currency, ts_status = T_INITIATED, ts_failureReason = None, ts_failureStage = None,
      ts_sourceDebitTransactionId = None, ts_destinationCreditTransactionId = None, ts_compensationTransactionId = None,
      ts_debitAttempts = 0, ts_creditAttempts = 0, ts_compensationAttempts = 0,
      ts_createdAt = ev_occurredAt event, ts_updatedAt = ev_occurredAt event\<rparr>"

definition applied_summary :: "transfer_summary \<Rightarrow> domain_event \<Rightarrow> transfer_summary" where
  "applied_summary existing event =
     (let s = existing\<lparr>ts_updatedAt := ev_occurredAt event\<rparr>
      in case ev_data event of
           TransferDebitStarted _ transactionId attempts \<Rightarrow>
             s\<lparr>ts_status := T_DEBIT_IN_PROGRESS, ts_sourceDebitTransactionId := Some transactionId,
               ts_debitAttempts := attempts, ts_failureReason := None, ts_failureStage := None\<rparr>
         | TransferDebited _ _ \<Rightarrow> s\<lparr>ts_status := T_DEBITED\<rparr>
         | TransferCreditStarted _ transactionId attempts \<Rightarrow>
             s\<lparr>ts_status := T_CREDIT_IN_PROGRESS, ts_destinationCreditTransactionId := Some transactionId,
               ts_creditAttempts := attempts, ts_failureReason := None, ts_failureStage := None\<rparr>
         | TransferCompleted _ \<Rightarrow> s\<lparr>ts_status := T_COMPLETED\<rparr>
         | TransferFailed _ reason stage \<Rightarrow>
             s\<lparr>ts_status := T_FAILED, ts_failureReason := Some reason, ts_failureStage := Some stage\<rparr>
         | TransferCompensationStarted _ transactionId attempts \<Rightarrow>
             s\<lparr>ts_status := T_COMPENSATION_IN_PROGRESS, ts_compensationTransactionId := Some transactionId,
               ts_compensationAttempts := attempts\<rparr>
         | TransferCompensated _ _ \<Rightarrow> s\<lparr>ts_status := T_COMPENSATED\<rparr>
         | _ \<Rightarrow> existing)"

text \<open>An event of a transfer without an id (\<open>undefined\<close>) finds no summary in either repository.\<close>

definition projectTransferEvent :: "'p transfer_read_ops \<Rightarrow> domain_event \<Rightarrow> ('p, unit) prog" where
  "projectTransferEvent ops event p =
     (let transferId = data_transferId (ev_data event)
      in case (case transferId of None \<Rightarrow> Inr None | Some t \<Rightarrow> tp_getSummary ops t p) of
           Inl e \<Rightarrow> (Inl e, p)
         | Inr existing \<Rightarrow>
             (case ev_data event of
                TransferInitiated t source destination amount currency \<Rightarrow>
                  (case parseMoneyToMinorUnits (StringAmount amount) of
                     Inl e \<Rightarrow> (Inl e, p)
                   | Inr m \<Rightarrow> tp_upsertSummary ops (initiated_summary event t source destination m currency) p)
              | _ \<Rightarrow>
                  (case existing of
                     None \<Rightarrow> (Inl (GenericError (''Projection missing transfer summary for transfer '' @ show_opt transferId)), p)
                   | Some s \<Rightarrow> tp_upsertSummary ops (applied_summary s event) p)))"

fun transfer_event :: "event_data \<Rightarrow> bool" where
  "transfer_event (AccountCreated _ _ _) = False"
| "transfer_event (MoneyDeposited _ _ _ _) = False"
| "transfer_event (MoneyWithdrawn _ _ _ _) = False"
| "transfer_event (AccountFrozen _ _) = False"
| "transfer_event (UnknownEvent _) = False"
| "transfer_event _ = True"

definition project_transfer :: "'p transfer_read_ops \<Rightarrow> domain_event \<Rightarrow> ('p, bool) prog" where
  "project_transfer ops event =
     (if transfer_event (ev_data event) then and_then (projectTransferEvent ops event) (\<lambda>_. returns True) else returns False)"

section \<open>What the read model shows of a history\<close>

definition transfer_state_summary :: "transfer_state \<Rightarrow> transfer_summary" where
  "transfer_state_summary s =
     \<lparr>ts_transferId = show_opt (tr_transferId s), ts_sourceAccountId = show_opt (tr_sourceAccountId s),
      ts_destinationAccountId = show_opt (tr_destinationAccountId s), ts_amountMinorUnits = show_int (tr_amountMinorUnits s),
      ts_amount = minorUnitsToNumber (tr_amountMinorUnits s), ts_currency = show_opt (tr_currency s),
      ts_status = (case tr_status s of None \<Rightarrow> T_INITIATED | Some x \<Rightarrow> x), ts_failureReason = tr_failureReason s,
      ts_failureStage = tr_failureStage s, ts_sourceDebitTransactionId = tr_sourceDebitTransactionId s,
      ts_destinationCreditTransactionId = tr_destinationCreditTransactionId s,
      ts_compensationTransactionId = tr_compensationTransactionId s, ts_debitAttempts = tr_debitAttempts s,
      ts_creditAttempts = tr_creditAttempts s, ts_compensationAttempts = tr_compensationAttempts s,
      ts_createdAt = (case tr_createdAt s of None \<Rightarrow> 0 | Some x \<Rightarrow> x), ts_updatedAt = (case tr_updatedAt s of None \<Rightarrow> 0 | Some x \<Rightarrow> x)\<rparr>"

definition transfer_view :: "domain_event list \<Rightarrow> transfer_summary option" where
  "transfer_view es =
     (if es = [] then None
      else case loadFromHistory transfer_when es new_transfer of Inl _ \<Rightarrow> None | Inr (s, _) \<Rightarrow> Some (transfer_state_summary s))"

fun later_transfer :: "string \<Rightarrow> event_data \<Rightarrow> bool" where
  "later_transfer t (TransferInitiated _ _ _ _ _) = False"
| "later_transfer t d = (transfer_event d \<and> data_transferId d = Some t)"

fun opening_transfer :: "string \<Rightarrow> event_data \<Rightarrow> bool" where
  "opening_transfer t (TransferInitiated i _ _ amount _) =
     (i = t \<and> (case parseMoneyToMinorUnits (StringAmount amount) of Inl _ \<Rightarrow> False | Inr m \<Rightarrow> \<bar>m\<bar> < 10 ^ 15))"
| "opening_transfer t _ = False"

text \<open>The histories the read model can follow: the events of one transfer, each later than the one before.\<close>

fun transfer_log :: "string \<Rightarrow> domain_event list \<Rightarrow> bool" where
  "transfer_log t [] = True"
| "transfer_log t (e # es) =
     (opening_transfer t (ev_data e) \<and> list_all (\<lambda>x. later_transfer t (ev_data x)) es
      \<and> sorted_wrt (<) (map ev_occurredAt (e # es)))"

lemma opening_transfer_cases:
  assumes "opening_transfer t d"
  obtains src dst amount c m where "d = TransferInitiated t src dst amount c"
    "parseMoneyToMinorUnits (StringAmount amount) = Inr m" "\<bar>m\<bar> < 10 ^ 15"
  using assms by (cases d) (auto split: sum.splits)

lemma later_applied:
  assumes "later_transfer t (ev_data e)"
  shows "\<exists>s'. transfer_when s e = Inr s' \<and> transfer_state_summary s' = applied_summary (transfer_state_summary s) e"
  using assms
  by (cases "ev_data e") (simp_all add: transfer_when_def Let_def applied_summary_def transfer_state_summary_def)

lemma opening_applied:
  assumes "ev_data e = TransferInitiated t src dst amount c" "parseMoneyToMinorUnits (StringAmount amount) = Inr m"
  shows "\<exists>s'. transfer_when new_transfer_state e = Inr s' \<and> transfer_state_summary s' = initiated_summary e t src dst m c"
  using assms by (simp add: transfer_when_def new_transfer_state_def transfer_state_summary_def initiated_summary_def show_opt_def)

lemma load_applied:
  assumes "list_all (\<lambda>x. later_transfer t (ev_data x)) es"
  shows "\<exists>s'. loadFromHistory transfer_when es (s, []) = Inr (s', [])
    \<and> transfer_state_summary s' = foldl applied_summary (transfer_state_summary s) es"
  using assms
proof (induction es arbitrary: s)
  case Nil
  then show ?case by simp
next
  case (Cons e es)
  then obtain s1 where "transfer_when s e = Inr s1" "transfer_state_summary s1 = applied_summary (transfer_state_summary s) e"
    using later_applied [of t e s] by auto
  with Cons.IH [of s1] Cons.prems show ?case by (simp add: apply_event_def)
qed

lemma transfer_view_Cons:
  assumes "transfer_log t (e # es)" "ev_data e = TransferInitiated t src dst amount c"
    "parseMoneyToMinorUnits (StringAmount amount) = Inr m"
  shows "transfer_view (e # es) = Some (foldl applied_summary (initiated_summary e t src dst m c) es)"
proof -
  obtain s1 where "transfer_when new_transfer_state e = Inr s1" "transfer_state_summary s1 = initiated_summary e t src dst m c"
    using opening_applied [OF assms(2,3)] by blast
  with load_applied [of t es s1] assms(1) show ?thesis
    by (auto simp: transfer_view_def new_transfer_def apply_event_def)
qed

lemma applied_fields [simp]:
  "ts_transferId (applied_summary s e) = ts_transferId s" "transfer_summary_ok (applied_summary s e) = transfer_summary_ok s"
  by (simp_all add: applied_summary_def Let_def transfer_summary_ok_def split: event_data.split)

lemma applied_time: "later_transfer t (ev_data e) \<Longrightarrow> ts_updatedAt (applied_summary s e) = ev_occurredAt e"
  by (cases "ev_data e") (simp_all add: applied_summary_def Let_def)

text \<open>Applying the same event twice is applying it once.\<close>

lemma applied_twice: "applied_summary (applied_summary s e) e = applied_summary s e"
  by (simp add: applied_summary_def Let_def split: event_data.split)

lemma foldl_applied:
  "ts_transferId (foldl applied_summary s es) = ts_transferId s" "transfer_summary_ok (foldl applied_summary s es) = transfer_summary_ok s"
  by (induction es arbitrary: s) simp_all

lemma foldl_applied_time:
  "list_all (\<lambda>x. later_transfer t (ev_data x)) es \<Longrightarrow>
     ts_updatedAt (foldl applied_summary s es) = (if es = [] then ts_updatedAt s else ev_occurredAt (last es))"
  by (induction es arbitrary: s) (auto simp: applied_time)

lemma transfer_log_take:
  assumes "transfer_log t es"
  shows "transfer_log t (take k es)"
proof (cases es)
  case (Cons e es')
  then have "sorted_wrt (<) (map ev_occurredAt es)" using assms by simp
  from sorted_wrt_take [OF this, of k] have "sorted_wrt (<) (map ev_occurredAt (take k es))" by (simp only: take_map)
  then show ?thesis
    using assms by (cases k) (auto simp: Cons list_all_iff simp del: sorted_wrt.simps dest: in_set_takeD)
qed simp

lemma transfer_view_facts:
  assumes "transfer_log t es" "es \<noteq> []"
  shows "\<exists>s. transfer_view es = Some s \<and> ts_transferId s = t \<and> transfer_summary_ok s \<and> ts_updatedAt s = ev_occurredAt (last es)"
proof -
  obtain e es' where es: "es = e # es'" using assms(2) by (cases es) auto
  obtain src dst amount c m where e: "ev_data e = TransferInitiated t src dst amount c"
      "parseMoneyToMinorUnits (StringAmount amount) = Inr m" "\<bar>m\<bar> < 10 ^ 15"
    using assms(1) by (auto simp: es elim: opening_transfer_cases)
  have "transfer_summary_ok (initiated_summary e t src dst m c)"
    using e(3) by (auto simp: transfer_summary_ok_def initiated_summary_def)
  moreover have "list_all (\<lambda>x. later_transfer t (ev_data x)) es'" using assms(1) by (simp add: es)
  ultimately show ?thesis
    using transfer_view_Cons [OF assms(1) [unfolded es] e(1,2)] foldl_applied_time [of t es']
    by (simp add: es foldl_applied) (simp add: initiated_summary_def)
qed

lemma transfer_view_snoc:
  assumes "transfer_log t (es @ [e])" "transfer_view es = Some s"
  shows "transfer_view (es @ [e]) = Some (applied_summary s e)"
proof -
  obtain d es' where es: "es = d # es'" using assms(2) by (cases es) (auto simp: transfer_view_def)
  obtain src dst amount c m where d: "ev_data d = TransferInitiated t src dst amount c"
      "parseMoneyToMinorUnits (StringAmount amount) = Inr m"
    using assms(1) by (auto simp: es elim: opening_transfer_cases)
  have "transfer_log t (d # es')" using transfer_log_take [OF assms(1), of "length es"] by (simp add: es)
  with transfer_view_Cons [OF this d] transfer_view_Cons [OF _ d, of "es' @ [e]"] assms show ?thesis by (simp add: es)
qed

lemma transfer_log_times:
  assumes "transfer_log t es" "i < j" "j < length es"
  shows "ev_occurredAt (es ! i) < ev_occurredAt (es ! j)"
proof -
  have "sorted_wrt (<) (map ev_occurredAt es)" using assms(1,3) by (cases es) auto
  from sorted_wrt_nth_less [OF this assms(2)] assms(2,3) show ?thesis by simp
qed

lemma transfer_log_later: "transfer_log t es \<Longrightarrow> 0 < j \<Longrightarrow> j < length es \<Longrightarrow> later_transfer t (ev_data (es ! j))"
  by (cases es) (auto simp: list_all_length nth_Cons')

lemma transfer_log_key:
  assumes "transfer_log t es" "e \<in> set es"
  shows "data_transferId (ev_data e) = Some t"
proof -
  obtain j where "j < length es" "e = es ! j" using assms(2) by (auto simp: in_set_conv_nth)
  moreover have "data_transferId d = Some t" if "later_transfer t d" for d using that by (cases d) simp_all
  moreover have "data_transferId d = Some t" if "opening_transfer t d" for d using that by (cases d) simp_all
  moreover have "opening_transfer t (ev_data (es ! 0))" using assms by (cases es) simp_all
  ultimately show ?thesis using transfer_log_later [OF assms(1)] by (cases "j = 0") auto
qed

section \<open>Projecting deliveries\<close>

fun deliver_transfers :: "'p transfer_read_ops \<Rightarrow> domain_event list \<Rightarrow> 'p \<Rightarrow> 'p" where
  "deliver_transfers ops [] p = p"
| "deliver_transfers ops (e # es) p = deliver_transfers ops es (snd (project_transfer ops e p))"

text \<open>
  The broker keeps the order of the events of one transfer, which have the same key, and may deliver again
  what it delivered before: each event of \<open>xs\<close> among the deliveries is at most one step ahead.
\<close>

fun in_order :: "'a list \<Rightarrow> 'a list \<Rightarrow> nat \<Rightarrow> bool" where
  "in_order xs [] n = True"
| "in_order xs (e # es) n =
     ((e \<in> set xs \<longrightarrow> e \<in> set (take (Suc n) xs)) \<and> in_order xs es (if n < length xs \<and> xs ! n = e then Suc n else n))"

context transfer_read_model
begin

definition tracked :: "(string \<Rightarrow> domain_event list) \<Rightarrow> (string \<Rightarrow> nat) \<Rightarrow> 'p \<Rightarrow> bool" where
  "tracked T n p \<longleftrightarrow> inv p \<and> (\<forall>t. n t \<le> length (T t) \<and> summary p t = transfer_view (take (n t) (T t)))"

lemma tracked_summary:
  assumes "tracked T n p" "transfer_log t (T t)" "0 < n t"
  shows "\<exists>s. summary p t = Some s \<and> ts_transferId s = t \<and> transfer_summary_ok s
    \<and> ts_updatedAt s = ev_occurredAt (T t ! (n t - 1)) \<and> transfer_view (take (n t) (T t)) = Some s"
proof -
  have n: "n t \<le> length (T t)" "summary p t = transfer_view (take (n t) (T t))" using assms(1) by (simp_all add: tracked_def)
  then have ne: "take (n t) (T t) \<noteq> []" using assms(3) by auto
  then have "last (take (n t) (T t)) = T t ! (n t - 1)" using n(1) assms(3) by (simp add: last_conv_nth)
  with transfer_view_facts [OF transfer_log_take [OF assms(2)] ne] n show ?thesis by auto
qed

text \<open>An upsert that leaves the read model on track.\<close>

lemma tracked_upsert:
  assumes tr: "tracked T n p" and ok: "transfer_summary_ok s" "ts_transferId s = t" and m: "m \<le> length (T t)"
    and new: "transfer_view (take m (T t)) = Some (latest_summary (summary p t) s)"
  shows "\<exists>p'. tp_upsertSummary ops s p = (Inr (), p') \<and> tracked T (n(t := m)) p'"
proof -
  obtain p' where "tp_upsertSummary ops s p = (Inr (), p')" "inv p'" "summary p' = (summary p)(t \<mapsto> latest_summary (summary p t) s)"
    using upsert [of p s] tr ok by (auto simp: tracked_def)
  moreover from this tr m new have "tracked T (n(t := m)) p'" by (auto simp: tracked_def)
  ultimately show ?thesis by blast
qed

lemma track_first:
  assumes tr: "tracked T n p" and log: "transfer_log t (T t)" and j: "0 < length (T t)"
  shows "\<exists>p'. project_transfer ops (T t ! 0) p = (Inr True, p') \<and> tracked T (n(t := max 1 (n t))) p'"
proof -
  obtain e es where T: "T t = e # es" using j by (cases "T t") auto
  note log0 = log and log = log [unfolded T]
  obtain src dst amount c m where e: "ev_data e = TransferInitiated t src dst amount c"
      "parseMoneyToMinorUnits (StringAmount amount) = Inr m" "\<bar>m\<bar> < 10 ^ 15"
    using log by (auto elim: opening_transfer_cases)
  let ?s = "initiated_summary e t src dst m c"
  have ok: "transfer_summary_ok ?s" "ts_transferId ?s = t" "ts_updatedAt ?s = ev_occurredAt e"
    using e(3) by (auto simp: transfer_summary_ok_def initiated_summary_def)
  have first: "transfer_view [e] = Some ?s"
    using transfer_view_Cons [of t e "[]", OF _ e(1,2)] log by simp
  have view: "transfer_view (take (max 1 (n t)) (T t)) = Some (latest_summary (summary p t) ?s)"
  proof (cases "n t")
    case 0
    then have "summary p t = None" using tr by (auto simp: tracked_def transfer_view_def)
    then show ?thesis using first 0 by (simp add: latest_summary_def T)
  next
    case (Suc k)
    obtain s where s: "summary p t = Some s" "ts_updatedAt s = ev_occurredAt (T t ! k)" "transfer_view (take (n t) (T t)) = Some s"
      using tracked_summary [of T n p t, OF tr log0] Suc by auto
    have "k < length (T t)" using tr Suc by (auto simp: tracked_def Suc_le_eq dest: spec [of _ t])
    then have "k = 0 \<and> s = ?s \<or> ev_occurredAt e < ts_updatedAt s"
      using s first Suc transfer_log_times [OF log, of 0 k] by (cases "k = 0") (auto simp: T)
    then show ?thesis using s Suc ok(3) by (auto simp: latest_summary_def)
  qed
  have "max 1 (n t) \<le> length (T t)" using tr by (auto simp: tracked_def T dest: spec [of _ t])
  from tracked_upsert [OF tr ok(1,2) this view] obtain p' where
      "tp_upsertSummary ops ?s p = (Inr (), p')" "tracked T (n(t := max 1 (n t))) p'" by blast
  then show ?thesis
    using tr e(1,2) by (simp add: T project_transfer_def projectTransferEvent_def get_summary tracked_def)
qed

lemma track_later:
  assumes tr: "tracked T n p" and log: "transfer_log t (T t)" and j: "0 < j" "j < length (T t)" "j \<le> n t"
  shows "\<exists>p'. project_transfer ops (T t ! j) p = (Inr True, p') \<and> tracked T (n(t := max (Suc j) (n t))) p'"
proof -
  let ?e = "T t ! j"
  have later: "later_transfer t (ev_data ?e)" using transfer_log_later [OF log j(1,2)] .
  obtain s where s: "summary p t = Some s" "ts_transferId s = t" "transfer_summary_ok s"
      "ts_updatedAt s = ev_occurredAt (T t ! (n t - 1))" "transfer_view (take (n t) (T t)) = Some s"
    using tracked_summary [OF tr log] j by auto
  have view: "transfer_view (take (max (Suc j) (n t)) (T t)) = Some (latest_summary (summary p t) (applied_summary s ?e))"
  proof -
    have next_view: "transfer_view (take (Suc j) (T t)) = Some (applied_summary u ?e)" if "transfer_view (take j (T t)) = Some u" for u
      using transfer_view_snoc [of t "take j (T t)" ?e u] that transfer_log_take [OF log, of "Suc j"] j(2)
      by (simp add: take_Suc_conv_app_nth)
    have time: "ts_updatedAt (applied_summary s ?e) = ev_occurredAt ?e" using applied_time [OF later] .
    consider "j = n t" | "n t = Suc j" | "Suc j < n t" using j(3) by linarith
    then show ?thesis
    proof cases
      case 1
      have "ts_updatedAt s < ev_occurredAt ?e" using s(4) transfer_log_times [OF log, of "n t - 1" j] j 1 by simp
      with next_view [of s] s(1,5) 1 time show ?thesis by (simp add: latest_summary_def)
    next
      case 2
      obtain u where "transfer_view (take j (T t)) = Some u"
        using transfer_view_facts [OF transfer_log_take [OF log], of j] j by fastforce
      from next_view [OF this] s(5) 2 have "s = applied_summary u ?e" by simp
      then have "applied_summary s ?e = s" by (simp add: applied_twice)
      with s(1,5) 2 show ?thesis by (simp add: latest_summary_def)
    next
      case 3
      have "n t \<le> length (T t)" using tr by (simp add: tracked_def)
      then have "ev_occurredAt ?e < ts_updatedAt s" using s(4) transfer_log_times [OF log, of j "n t - 1"] 3 by simp
      with s(1,5) 3 time show ?thesis by (simp add: latest_summary_def max_def)
    qed
  qed
  have "max (Suc j) (n t) \<le> length (T t)" using tr j(2) by (simp add: tracked_def)
  from tracked_upsert [OF tr _ _ this view] s(2,3) obtain p' where
      p': "tp_upsertSummary ops (applied_summary s ?e) p = (Inr (), p')" "tracked T (n(t := max (Suc j) (n t))) p'" by auto
  have "tp_getSummary ops t p = Inr (Some s)" using tr s(1) by (simp add: get_summary tracked_def)
  with later p' show ?thesis
    by (cases "ev_data ?e") (simp_all add: project_transfer_def projectTransferEvent_def)
qed

lemma track:
  assumes tr: "tracked T n p" and log: "transfer_log t (T t)" and j: "j < length (T t)" "j \<le> n t"
  shows "\<exists>p'. project_transfer ops (T t ! j) p = (Inr True, p') \<and> tracked T (n(t := max (Suc j) (n t))) p'"
proof (cases "j = 0")
  case True
  with track_first [where T = T, OF tr log] j(1) show ?thesis by simp
next
  case False
  with track_later [where T = T, OF tr log] j show ?thesis by simp
qed

lemma deliver_tracked:
  assumes "tracked T n p" "\<And>t. transfer_log t (T t)" "\<And>e. e \<in> set es \<Longrightarrow> \<exists>t. e \<in> set (T t)" "\<And>t. in_order (T t) es (n t)"
  shows "tracked T (\<lambda>t. progress (T t) es (n t)) (deliver_transfers ops es p)"
  using assms(1,3,4)
proof (induction es arbitrary: n p)
  case Nil
  then show ?case by simp
next
  case (Cons e es)
  note log = assms(2)
  obtain t where t: "e \<in> set (T t)" using Cons.prems(2) by auto
  then have "e \<in> set (take (Suc (n t)) (T t))" using Cons.prems(3) [of t] by simp
  then obtain j where j: "j < length (T t)" "j \<le> n t" "e = T t ! j" by (auto simp: in_set_conv_nth)
  obtain p' where p': "project_transfer ops e p = (Inr True, p')" "tracked T (n(t := max (Suc j) (n t))) p'"
    using track [where T = T, OF Cons.prems(1) log j(1,2)] j(3) by auto
  have next_place: "(if n b < length (T b) \<and> T b ! n b = e then Suc (n b) else n b) = (n(t := max (Suc j) (n t))) b" for b
  proof (cases "b = t")
    case True
    have "T t ! n t = e \<longleftrightarrow> n t = j" if "n t < length (T t)"
      using that transfer_log_times [OF log, of j "n t" t] j by (cases "n t = j") auto
    moreover have "n t < length (T t)" if "n t = j" using that j(1) by simp
    ultimately show ?thesis using True j(1,2) by (auto simp: max_def)
  next
    case False
    then have "e \<notin> set (T b)" using transfer_log_key [OF log t] transfer_log_key [OF log, of e b] by auto
    then show ?thesis using False by (auto simp: in_set_conv_nth)
  qed
  have "in_order (T b) es ((n(t := max (Suc j) (n t))) b)" for b
    using Cons.prems(3) [of b] next_place [of b] by (simp only: in_order.simps)
  from Cons.IH [OF p'(2) _ this] Cons.prems(2) have
    "tracked T (\<lambda>b. progress (T b) es ((n(t := max (Suc j) (n t))) b)) (deliver_transfers ops es p')" by simp
  then show ?case using p'(1) by (simp only: progress.simps next_place deliver_transfers.simps snd_conv)
qed

end

section \<open>Properties\<close>

lemma empty_tracked:
  "postgres_transfers.tracked T (\<lambda>t. 0) []" "memory_transfers.tracked T (\<lambda>t. 0) []"
  by (simp_all add: postgres_transfers.tracked_def memory_transfers.tracked_def transfer_view_def pp_inv_def mp_inv_def
      pp_summary_def row_of_transfer_def)


definition sample_event :: "event_data \<Rightarrow> int \<Rightarrow> domain_event" where
  "sample_event d now =
     \<lparr>ev_eventId = ''e'', ev_streamId = ''transfer-t'', ev_streamVersion = 1, ev_data = d, ev_occurredAt = now,
      ev_metadata = metadata_of sample_context\<rparr>"

definition sample_transfer :: "domain_event list" where
  "sample_transfer = [sample_event (TransferInitiated ''t'' ''a'' ''b'' ''7.50'' ''USD'') 1,
     sample_event (TransferDebitStarted (Some ''t'') ''t:debit'' 1) 2,
     sample_event (TransferDebited (Some ''t'') (Some ''t:debit'')) 3]"

definition sample_transfers :: "string \<Rightarrow> domain_event list" where
  "sample_transfers x = (if x = ''t'' then sample_transfer else [])"

lemma sample_transfer_log: "transfer_log ''t'' sample_transfer"
  by (simp add: sample_transfer_def sample_event_def parse_750)

text \<open>The whole history with its first two events delivered once more in between.\<close>

definition sample_redelivery :: "domain_event list" where
  "sample_redelivery = take 2 sample_transfer @ sample_transfer"

lemma sample_transfer_order: "in_order sample_transfer sample_redelivery 0"
  by code_simp

lemma in_order_Nil: "in_order [] es n"
  by (induction es) simp_all


text \<open>C19: The projector of the transfers believes the clock and nothing else.  For a transfer with a summary it takes
  over whatever event does not carry an earlier instant, an event it has processed long ago included (so that
  a second delivery within the millisecond of a later event takes the status back), and it passes over an
  event with an earlier instant, a new one included (so that a step back of the clock loses it); it reports
  both as processed.\<close>

theorem transfer_projection_believes_the_clock:
  assumes "pp_inv p" and "pp_summary p t = Some s" and "later_transfer t (ev_data e)"
  shows "\<exists>p'. project_transfer (postgres_transfer_reads place) e p = (Inr True, p')
    \<and> pp_getSummary t p' = Inr (Some (if ev_occurredAt e < ts_updatedAt s then s else applied_summary s e))"
proof -
  have s: "ts_transferId s = t" "transfer_summary_ok s"
    using postgres_transfers.summary_transfer [OF assms(1,2)] by simp_all
  have "ts_updatedAt (applied_summary s e) = ev_occurredAt e" by (rule applied_time [OF assms(3)])
  moreover obtain p' where p': "tp_upsertSummary (postgres_transfer_reads place) (applied_summary s e) p = (Inr (), p')" "pp_inv p'"
      "pp_summary p' = (pp_summary p)(t \<mapsto> latest_summary (pp_summary p t) (applied_summary s e))"
    using postgres_transfers.upsert [OF assms(1), of "applied_summary s e" place] s by auto
  moreover have "tp_getSummary (postgres_transfer_reads place) t p = Inr (Some s)"
    using assms(1,2) by (simp add: postgres_transfers.get_summary)
  ultimately have "project_transfer (postgres_transfer_reads place) e p = (Inr True, p')"
    using assms(3) by (cases "ev_data e") (simp_all add: project_transfer_def projectTransferEvent_def)
  with p' assms(2) show ?thesis
    by (auto simp: pp_getSummary_eq latest_summary_def applied_time [OF assms(3)])
qed

definition sample_summary :: "string \<Rightarrow> transfer_status \<Rightarrow> stage option \<Rightarrow> int \<Rightarrow> transfer_summary" where
  "sample_summary t status stage now =
     (initiated_summary (sample_event (TransferCompleted None) now) t ''a'' ''b'' 750 ''USD'')
       \<lparr>ts_status := status, ts_failureStage := stage, ts_sourceDebitTransactionId := Some (t @ '':debit''), ts_debitAttempts := 1\<rparr>"

lemma sample_summary_fields [simp]:
  "ts_transferId (sample_summary t status stage now) = t" "ts_status (sample_summary t status stage now) = status"
  "ts_failureStage (sample_summary t status stage now) = stage" "ts_updatedAt (sample_summary t status stage now) = now"
  by (simp_all add: sample_summary_def initiated_summary_def sample_event_def)

lemma sample_summary_rows:
  "transfer_row (sample_summary t status stage now)" "read_transfer (sample_summary t status stage now) = sample_summary t status stage now"
  by (auto simp: transfer_row_def read_transfer_def sample_summary_def initiated_summary_def show_int_BigInt
      intro!: exI [of _ "750 :: int"])

theorem transfer_projection_believes_the_clock_witness:
  "\<exists>p'. project_transfer (postgres_transfer_reads (\<lambda>_. 0)) (sample_event (TransferDebitStarted (Some ''t'') ''t:debit'' 1) 9)
      [sample_summary ''t'' T_COMPLETED None 9] = (Inr True, p')
    \<and> pp_getSummary ''t'' p' = Inr (Some (sample_summary ''t'' T_DEBIT_IN_PROGRESS None 9))"
proof -
  let ?s = "sample_summary ''t'' T_COMPLETED None 9" and ?e = "sample_event (TransferDebitStarted (Some ''t'') ''t:debit'' 1) 9"
  have "pp_inv [?s]" "pp_summary [?s] ''t'' = Some ?s"
    by (simp_all add: pp_inv_def pp_summary_def row_of_transfer_def sample_summary_rows)
  from transfer_projection_believes_the_clock [OF this, of ?e "\<lambda>_. 0"]
  show ?thesis by (simp add: sample_event_def sample_summary_def applied_summary_def initiated_summary_def)
qed

lemma sorted_take_excludes:
  assumes "sorted (map f xs)" "A \<subseteq> set xs" "n \<le> card A" "\<And>a. a \<in> A \<Longrightarrow> f a < f s"
  shows "s \<notin> set (take n xs)"
proof
  assume "s \<in> set (take n xs)"
  then obtain k where k: "k < n" "k < length xs" "s = xs ! k" by (auto simp: in_set_conv_nth)
  have "a \<in> set (take k xs)" if "a \<in> A" for a
  proof -
    have "a \<in> set xs" using that assms(2) by blast
    then obtain i where i: "i < length xs" "a = xs ! i" by (auto simp: in_set_conv_nth)
    have "\<not> k \<le> i" using sorted_nth_mono [OF assms(1), of k i] i k assms(4) [OF that] by auto
    then show ?thesis using i by (auto simp: in_set_conv_nth intro: exI [of _ i])
  qed
  then have "card A \<le> card (set (take k xs))" by (intro card_mono) auto
  also have "\<dots> \<le> k" using card_length [of "take k xs"] by simp
  finally show False using assms(3) k(1) by simp
qed

text \<open>C20: The list of pending transfers that the recovery of the transfers works through can fill up for good with
  transfers for which there is nothing left to do: those that failed at their debit stay in it, and once
  there are as many as the limit, no transfer touched after them is ever listed.\<close>

theorem failed_debits_crowd_out_pending_transfers:
  assumes "pp_inv p" and "distinct ids" and "limit \<le> length ids"
    and "\<And>i. i \<in> set ids \<Longrightarrow> \<exists>x. pp_summary p i = Some x \<and> ts_status x = T_FAILED \<and> ts_failureStage x = Some DEBIT
      \<and> ts_updatedAt x < ts_updatedAt s"
  shows "\<exists>xs. pp_listPending place limit p = Inr xs \<and> s \<notin> set xs"
proof -
  obtain xs where xs: "pp_listPending place limit p = Inr (take limit xs)" "sorted (map ts_updatedAt xs)"
      "set xs = {s. pp_summary p (ts_transferId s) = Some s \<and> postgres_pending s}"
    using postgres_transfers.list_pending [OF assms(1), of place limit] by (auto simp: postgres_transfer_reads_def)
  let ?A = "(\<lambda>i. the (pp_summary p i)) ` set ids"
  have id: "ts_transferId (the (pp_summary p i)) = i" if "i \<in> set ids" for i
    using assms(4) [OF that] postgres_transfers.summary_transfer [OF assms(1)] by auto
  then have "inj_on (\<lambda>i. the (pp_summary p i)) (set ids)" by (rule inj_on_inverseI)
  then have "limit \<le> card ?A" using assms(2,3) by (simp add: card_image distinct_card)
  moreover have failed: "\<exists>x. pp_summary p (ts_transferId x) = Some x \<and> a = x \<and> postgres_pending x \<and> ts_updatedAt x < ts_updatedAt s"
    if member: "a \<in> ?A" for a
  proof -
    from member obtain i where i: "i \<in> set ids" "a = the (pp_summary p i)" by blast
    from assms(4) [OF i(1)] i(2) id [OF i(1)] show ?thesis by (auto simp: postgres_pending_def)
  qed
  moreover have "?A \<subseteq> set xs" using failed xs(3) by blast
  moreover have "ts_updatedAt a < ts_updatedAt s" if "a \<in> ?A" for a using failed [OF that] by blast
  ultimately have "s \<notin> set (take limit xs)" by (intro sorted_take_excludes [OF xs(2)])
  then show ?thesis using xs(1) by blast
qed

theorem failed_debits_crowd_out_pending_transfers_witness:
  "\<exists>xs. pp_listPending (\<lambda>_. 0) 2 [sample_summary ''t1'' T_FAILED (Some DEBIT) 1, sample_summary ''t2'' T_FAILED (Some DEBIT) 2,
        sample_summary ''t3'' T_CREDIT_IN_PROGRESS None 3] = Inr xs
    \<and> sample_summary ''t3'' T_CREDIT_IN_PROGRESS None 3 \<notin> set xs"
  by (rule failed_debits_crowd_out_pending_transfers [where ids = "[''t1'', ''t2'']"])
    (auto simp: pp_inv_def pp_summary_def row_of_transfer_def sample_summary_rows)

end
