(* ===== verification/ProjectionRunner.thy ===== *)
theory ProjectionRunner
  imports TransferProjector Repositories
begin

text \<open>
  \<open>src/infrastructure/projections\<close>: the runner that feeds the events of the store to both projectors (by
  polling, or to rebuild the read models).  The work of one rebuild is modelled here without other projection
  work in between; how \<open>ProjectionCoordinationService\<close> interleaves it is the subject of \<open>Coordination\<close>.  The
  consumers are in \<open>Consumers\<close>, the endpoints and the script that run rebuilds in \<open>Service\<close>.
\<close>

section \<open>The runner\<close>

text \<open>The two read models, and what the runner is injected with.\<close>

record ('r, 'p) views =
  vw_accounts :: 'r
  vw_transfers :: 'p

record ('es, 'r, 'p) projections =
  pr_events :: "'es event_store_ops"
  pr_accounts :: "'r account_read_ops"
  pr_transfers :: "'p transfer_read_ops"

text \<open>The account projector looks transfers up in the read model of the transfers.\<close>

definition run_account_projector :: "('es, 'r, 'p) projections \<Rightarrow> domain_event \<Rightarrow> (('r, 'p) views, bool) prog" where
  "run_account_projector d event v =
     on_field vw_accounts (\<lambda>r v. v\<lparr>vw_accounts := r\<rparr>)
       (project_account (pr_accounts d) (\<lambda>i. tp_getSummary (pr_transfers d) i (vw_transfers v)) event) v"

definition run_transfer_projector :: "('es, 'r, 'p) projections \<Rightarrow> domain_event \<Rightarrow> (('r, 'p) views, bool) prog" where
  "run_transfer_projector d event =
     on_field vw_transfers (\<lambda>p v. v\<lparr>vw_transfers := p\<rparr>) (project_transfer (pr_transfers d) event)"

definition discard :: "('s, 'a) prog \<Rightarrow> ('s, unit) prog" where
  "discard m = and_then m (\<lambda>_. returns ())"

lemma discard_Inr: "m s = (Inr x, s') \<Longrightarrow> discard m s = (Inr (), s')"
  by (simp add: discard_def)

definition project_both :: "('es, 'r, 'p) projections \<Rightarrow> domain_event \<Rightarrow> (('r, 'p) views, unit) prog" where
  "project_both d event =
     and_then (run_account_projector d event) (\<lambda>_. discard (run_transfer_projector d event))"

text \<open>
  \<open>replayFrom\<close>: other instances may append between two reads, so the \<open>k\<close>-th read meets the store \<open>source k\<close>.
  The loop ends when a read finds nothing more; a projector that throws ends it too.
\<close>

partial_function (option) replay ::
  "('es, 'r, 'p) projections \<Rightarrow> (nat \<Rightarrow> 'es) \<Rightarrow> nat \<Rightarrow> int \<Rightarrow> ('r, 'p) views \<Rightarrow> (int result \<times> ('r, 'p) views) option" where
  "replay d source k checkpoint v =
     (let events = es_readAll (pr_events d) checkpoint 1000 (source k)
      in if events = [] then Some (Inr checkpoint, v)
         else case for_each (project_both d) (map fst events) v of
                (Inl e, v') \<Rightarrow> Some (Inl e, v')
              | (Inr _, v') \<Rightarrow> replay d source (Suc k) (snd (last events)) v')"

definition replayFrom ::
  "('es, 'r, 'p) projections \<Rightarrow> (nat \<Rightarrow> 'es) \<Rightarrow> int \<Rightarrow> ('r, 'p) views \<Rightarrow> (int result \<times> ('r, 'p) views) option" where
  "replayFrom d source position v = replay d source 0 position v"

definition rebuildAll ::
  "('es, 'r, 'p) projections \<Rightarrow> (nat \<Rightarrow> 'es) \<Rightarrow> ('r, 'p) views \<Rightarrow> (int result \<times> ('r, 'p) views) option" where
  "rebuildAll d source v =
     replayFrom d source 0
       (v\<lparr>vw_accounts := ar_resetAll (pr_accounts d) (vw_accounts v),
          vw_transfers := tp_resetAll (pr_transfers d) (vw_transfers v)\<rparr>)"

definition rebuildAccount :: "('es, 'r, 'p) projections \<Rightarrow> 'es \<Rightarrow> string \<Rightarrow> (('r, 'p) views, unit) prog" where
  "rebuildAccount d s accountId =
     and_then (modifies (\<lambda>v. v\<lparr>vw_accounts := ar_resetAccount (pr_accounts d) accountId (vw_accounts v)\<rparr>)) (\<lambda>_.
       for_each (\<lambda>event. discard (run_account_projector d event))
         (es_readStream (pr_events d) (account_stream accountId) 0 s))"

definition rebuildTransfer :: "('es, 'r, 'p) projections \<Rightarrow> 'es \<Rightarrow> string \<Rightarrow> (('r, 'p) views, unit) prog" where
  "rebuildTransfer d s transferId =
     and_then (modifies (\<lambda>v. v\<lparr>vw_transfers := tp_resetTransfer (pr_transfers d) transferId (vw_transfers v)\<rparr>)) (\<lambda>_.
       for_each (\<lambda>event. discard (run_transfer_projector d event))
         (es_readStream (pr_events d) (transfer_stream transferId) 0 s))"

text \<open>The polling loop of the in-memory mode: one turn per store that a read meets while \<open>isRunning\<close>.\<close>

record ('r, 'p) runner =
  rn_checkpoint :: int
  rn_views :: "('r, 'p) views"

definition poll_event :: "('es, 'r, 'p) projections \<Rightarrow> domain_event \<times> int \<Rightarrow> (('r, 'p) runner, unit) prog" where
  "poll_event d x =
     and_then (on_field rn_views (\<lambda>v rn. rn\<lparr>rn_views := v\<rparr>) (project_both d (fst x)))
       (\<lambda>_. modifies (\<lambda>rn. rn\<lparr>rn_checkpoint := snd x\<rparr>))"

definition poll_turn :: "('es, 'r, 'p) projections \<Rightarrow> 'es \<Rightarrow> (('r, 'p) runner, unit) prog" where
  "poll_turn d s rn = for_each (poll_event d) (es_readAll (pr_events d) (rn_checkpoint rn) 1000 s) rn"

definition runLoop :: "('es, 'r, 'p) projections \<Rightarrow> 'es list \<Rightarrow> (('r, 'p) runner, unit) prog" where
  "runLoop d = for_each (poll_turn d)"

section \<open>A replay ends\<close>

definition replayed :: "(domain_event \<times> int) list \<Rightarrow> int \<Rightarrow> unit result \<times> 'v \<Rightarrow> int result \<times> 'v" where
  "replayed xs position x =
     (case x of (Inl e, v) \<Rightarrow> (Inl e, v) | (Inr _, v) \<Rightarrow> (Inr (if xs = [] then position else snd (last xs)), v))"

lemma for_each_stops: "for_each f xs s = (Inl e, s') \<Longrightarrow> for_each f (xs @ ys) s = (Inl e, s')"
  by (simp add: for_each_append and_then_def)

lemma for_each_goes_on: "for_each f xs s = (Inr u, s') \<Longrightarrow> for_each f (xs @ ys) s = for_each f ys s'"
  by (simp add: for_each_append and_then_def)

context event_store
begin

text \<open>
  A replay that has come to the end of \<open>xs\<close> ends after finitely many reads, if what is appended meanwhile is
  bounded: it has then projected every event that the store held at its last read.
\<close>

lemma replay_ends:
  assumes "\<And>n. inv (source n)" "\<And>n. prefix (journal (source n)) (journal (source (Suc n)))" "\<And>n. prefix (journal (source n)) whole"
    and "pr_events d = ops" "journal (source k) = xs @ ys" "position = (if xs = [] then 0 else snd (last xs))"
  shows "\<exists>n zs. k \<le> n \<and> n \<le> k + (length whole - length xs) \<and> journal (source n) = xs @ zs
    \<and> replay d source k position v = Some (replayed zs position (for_each (project_both d) (map fst zs) v))"
  using assms(5,6)
proof (induction "length whole - length xs" arbitrary: k xs ys position v rule: less_induct)
  case less
  let ?page = "take 1000 ys"
  have page: "es_readAll (pr_events d) position 1000 (source k) = ?page"
    using less.prems assms(1,4) read_all_from_last [of "source k" xs ys 1000] read_all_first [of "source k" 1000]
    by (cases "xs = []") simp_all
  show ?case
  proof (cases "ys = []")
    case True
    then have "replay d source k position v = Some (Inr position, v)" by (simp add: replay.simps page)
    then show ?thesis using less.prems(1) True by (intro exI [of _ k] exI [of _ "[]"]) (simp add: replayed_def)
  next
    case False
    then have ne: "?page \<noteq> []" by simp
    have ys: "map fst ys = map fst ?page @ map fst (drop 1000 ys)" by (simp flip: map_append)
    show ?thesis
    proof (cases "for_each (project_both d) (map fst ?page) v")
      case (Pair r v')
      show ?thesis
      proof (cases r)
        case (Inl e)
        then have "replay d source k position v = Some (Inl e, v')"
          using Pair ne by (simp add: replay.simps page Let_def)
        moreover have "for_each (project_both d) (map fst ys) v = (Inl e, v')"
          unfolding ys by (rule for_each_stops) (simp add: Pair Inl)
        ultimately show ?thesis using less.prems(1) by (intro exI [of _ k] exI [of _ ys]) (simp add: replayed_def)
      next
        case (Inr u)
        let ?xs = "xs @ ?page"
        obtain more where more: "journal (source (Suc k)) = (xs @ ys) @ more"
          using assms(2) [of k] less.prems(1) by (auto simp: prefix_def)
        then have next_journal: "journal (source (Suc k)) = ?xs @ (drop 1000 ys @ more)" by simp
        have "length (journal (source k)) \<le> length whole" using assms(3) prefix_length_le by blast
        then have "length xs + length ys \<le> length whole" using less.prems(1) by simp
        moreover have "0 < length ?page" "length ?page \<le> length ys" using ne by (blast, simp)
        ultimately have shorter: "length whole - length ?xs < length whole - length xs"
          unfolding length_append by linarith
        obtain n zs where n: "Suc k \<le> n" "n \<le> Suc k + (length whole - length ?xs)" "journal (source n) = ?xs @ zs"
            "replay d source (Suc k) (snd (last ?page)) v'
              = Some (replayed zs (snd (last ?page)) (for_each (project_both d) (map fst zs) v'))"
          using less.hyps [OF shorter next_journal, of "snd (last ?page)" v'] ne by auto
        have "replay d source k position v = replay d source (Suc k) (snd (last ?page)) v'"
          using Pair Inr ne by (subst replay.simps) (simp add: page Let_def)
        moreover have "for_each (project_both d) (map fst (?page @ zs)) v = for_each (project_both d) (map fst zs) v'"
          unfolding map_append by (rule for_each_goes_on) (simp add: Pair Inr)
        moreover have "n \<le> k + (length whole - length xs)" "k \<le> n" using n(1,2) shorter by linarith+
        ultimately show ?thesis
          using n(3,4) ne by (intro exI [of _ n] exI [of _ "?page @ zs"]) (auto simp: replayed_def split: prod.split sum.split)
      qed
    qed
  qed
qed

end

section \<open>The read models of the two modes\<close>

definition postgres_projections :: "(transfer_summary \<Rightarrow> nat) \<Rightarrow> (pg_events, pg_accounts, pg_transfers) projections" where
  "postgres_projections place =
     \<lparr>pr_events = postgres_event_store, pr_accounts = postgres_account_reads, pr_transfers = postgres_transfer_reads place\<rparr>"

definition memory_projections :: "(memory_events, memory_accounts, memory_transfers) projections" where
  "memory_projections =
     \<lparr>pr_events = memory_event_store, pr_accounts = memory_account_reads, pr_transfers = memory_transfer_reads\<rparr>"

lemma reset_views:
  "v\<lparr>vw_accounts := ar_resetAll (pr_accounts (postgres_projections place)) (vw_accounts v),
     vw_transfers := tp_resetAll (pr_transfers (postgres_projections place)) (vw_transfers v)\<rparr>
   = \<lparr>vw_accounts = empty_pg_accounts, vw_transfers = []\<rparr>"
  "w\<lparr>vw_accounts := ar_resetAll (pr_accounts memory_projections) (vw_accounts w),
     vw_transfers := tp_resetAll (pr_transfers memory_projections) (vw_transfers w)\<rparr>
   = \<lparr>vw_accounts = empty_memory_accounts, vw_transfers = []\<rparr>"
  by (simp_all add: postgres_projections_def memory_projections_def postgres_account_reads_def postgres_transfer_reads_def
      memory_account_reads_def memory_transfer_reads_def pa_resetAll_def ma_resetAll_def empty_pg_accounts_def
      empty_memory_accounts_def)

section \<open>Polling\<close>

lemma poll_events:
  "for_each (poll_event d) xs rn = (Inr (), rn') \<Longrightarrow>
     for_each (project_both d) (map fst xs) (rn_views rn) = (Inr (), rn_views rn')
     \<and> rn_checkpoint rn' = (if xs = [] then rn_checkpoint rn else snd (last xs))"
proof (induction xs arbitrary: rn)
  case Nil
  then show ?case by simp
next
  case (Cons x xs)
  obtain rn1 where rn1: "poll_event d x rn = (Inr (), rn1)" "for_each (poll_event d) xs rn1 = (Inr (), rn')"
    using Cons.prems by (auto elim!: and_then_InrE)
  obtain v1 where v1: "project_both d (fst x) (rn_views rn) = (Inr (), v1)" "rn1 = rn\<lparr>rn_views := v1, rn_checkpoint := snd x\<rparr>"
    using rn1(1) by (auto simp: poll_event_def on_field_def elim!: and_then_InrE split: prod.splits)
  from Cons.IH [OF rn1(2)] v1 show ?case by simp
qed

context event_store
begin

text \<open>The runner has taken in the events of the store up to some place.\<close>

definition polled :: "('es, 'r, 'q) projections \<Rightarrow> ('r, 'q) views \<Rightarrow> (domain_event \<times> int) list \<Rightarrow> ('r, 'q) runner \<Rightarrow> bool" where
  "polled d v xs rn \<longleftrightarrow> for_each (project_both d) (map fst xs) v = (Inr (), rn_views rn)
     \<and> rn_checkpoint rn = (if xs = [] then 0 else snd (last xs))"

lemma poll_turn_polled:
  assumes "inv s" "pr_events d = ops" "polled d v xs rn" "journal s = xs @ ys" "poll_turn d s rn = (Inr (), rn')"
  shows "polled d v (xs @ take 1000 ys) rn'"
proof -
  have "es_readAll (pr_events d) (rn_checkpoint rn) 1000 s = take 1000 ys"
    using assms(1-4) read_all_from_last [of s xs ys 1000] read_all_first [of s 1000] by (cases "xs = []") (simp_all add: polled_def)
  then have "for_each (poll_event d) (take 1000 ys) rn = (Inr (), rn')" using assms(5) by (simp add: poll_turn_def)
  from poll_events [OF this] assms(3) show ?thesis
    using for_each_goes_on [of "project_both d" "map fst xs" v "()" "rn_views rn" "map fst (take 1000 ys)"]
    by (auto simp: polled_def)
qed

lemma runLoop_polled:
  assumes "\<forall>s \<in> set stores. inv s" "sorted_wrt (\<lambda>s t. prefix (journal s) (journal t)) stores" "pr_events d = ops"
    and "polled d v xs rn" "\<forall>s \<in> set stores. prefix xs (journal s)" "runLoop d stores rn = (Inr (), rn')"
  shows "\<exists>xs'. polled d v xs' rn' \<and> (if stores = [] then xs' = xs else prefix xs' (journal (last stores)))"
  using assms(1,2,4-6)
proof (induction stores arbitrary: xs rn)
  case Nil
  then show ?case by (auto simp: runLoop_def)
next
  case (Cons s stores)
  obtain rn1 where rn1: "poll_turn d s rn = (Inr (), rn1)" "runLoop d stores rn1 = (Inr (), rn')"
    using Cons.prems(5) by (auto simp: runLoop_def elim!: and_then_InrE)
  obtain ys where ys: "journal s = xs @ ys" using Cons.prems(4) by (auto simp: prefix_def)
  have polled: "polled d v (xs @ take 1000 ys) rn1"
    using poll_turn_polled [OF _ assms(3) Cons.prems(3) ys rn1(1)] Cons.prems(1) by simp
  have here: "prefix (xs @ take 1000 ys) (journal s)" by (simp add: ys take_is_prefix)
  then have "\<forall>t \<in> set stores. prefix (xs @ take 1000 ys) (journal t)"
    using Cons.prems(2) prefix_order.trans by (simp, blast)
  from Cons.IH [OF _ _ polled this rn1(2)] Cons.prems(1,2) show ?case
    using here by (cases "stores = []") auto
qed

text \<open>Turns on the same store catch up.\<close>

lemma runLoop_catches_up:
  assumes "inv s" "pr_events d = ops" "polled d v xs rn" "journal s = xs @ ys" "length ys \<le> 1000 * n"
    and "runLoop d (replicate n s) rn = (Inr (), rn')"
  shows "polled d v (journal s) rn'"
  using assms(3-6)
proof (induction n arbitrary: xs ys rn)
  case 0
  then show ?case by (simp add: runLoop_def)
next
  case (Suc n)
  obtain rn1 where rn1: "poll_turn d s rn = (Inr (), rn1)" "runLoop d (replicate n s) rn1 = (Inr (), rn')"
    using Suc.prems(4) by (auto simp: runLoop_def elim!: and_then_InrE)
  have "polled d v (xs @ take 1000 ys) rn1" using poll_turn_polled [OF assms(1,2) Suc.prems(1,2) rn1(1)] .
  moreover have "journal s = (xs @ take 1000 ys) @ drop 1000 ys" by (simp add: Suc.prems(2))
  moreover have "length (drop 1000 ys) \<le> 1000 * n" using Suc.prems(3) by simp
  ultimately show ?case using rn1(2) by (rule Suc.IH)
qed

end

section \<open>Properties\<close>


definition sample_store :: pg_events where
  "sample_store = snd (pg_append ''account-a'' sample_history 0 empty_pg_events)"

lemma sample_store_facts:
  "pg_inv sample_store" "pg_stream sample_store ''account-a'' = number_from (pg_restamp ''account-a'') 0 sample_history"
  "pg_stream sample_store ''account-b'' = []"
proof -
  have "pg_fresh empty_pg_events sample_history"
    using sample_history_ids by (simp add: pg_fresh_def pg_ids_def empty_pg_events_def)
  moreover have "int (length (pg_stream empty_pg_events x)) = 0" for x
    by (simp add: pg_stream_def empty_pg_events_def)
  ultimately obtain s' where "es_append postgres_event_store ''account-a'' sample_history 0 empty_pg_events = (Inr (), s')" "pg_inv s'"
      "pg_stream s' = (pg_stream empty_pg_events)(''account-a'' := pg_stream empty_pg_events ''account-a''
         @ number_from (pg_restamp ''account-a'') 0 sample_history)"
    using postgres_events.append_ok [OF empty_pg_inv, of 0 "''account-a''" sample_history] by auto
  then show "pg_inv sample_store" "pg_stream sample_store ''account-a'' = number_from (pg_restamp ''account-a'') 0 sample_history"
      "pg_stream sample_store ''account-b'' = []"
    by (simp_all add: sample_store_def postgres_event_store_def pg_stream_def empty_pg_events_def)
qed


text \<open>C32: Rebuilding changes nothing that polling has built up: a runner that starts with empty read models, polls
  the growing log and then polls often enough to catch up has the read models that a full rebuild from
  whatever state yields.\<close>

theorem rebuild_equals_polling:
  assumes "\<forall>t \<in> set stores. me_inv t" and "me_inv s"
    and "sorted_wrt (\<lambda>t u. prefix (me_allEvents t) (me_allEvents u)) (stores @ [s])"
    and "length (me_allEvents s) \<le> 1000 * n"
    and "runLoop memory_projections (stores @ replicate n s)
      \<lparr>rn_checkpoint = 0, rn_views = \<lparr>vw_accounts = empty_memory_accounts, vw_transfers = []\<rparr>\<rparr> = (Inr (), rn)"
  shows "rebuildAll memory_projections (\<lambda>_. s) v = Some (Inr (rn_checkpoint rn), rn_views rn)"
proof -
  let ?v = "\<lparr>vw_accounts = empty_memory_accounts, vw_transfers = []\<rparr>"
  have d: "pr_events memory_projections = memory_event_store" by (simp add: memory_projections_def)
  obtain rn1 where rn1: "runLoop memory_projections stores \<lparr>rn_checkpoint = 0, rn_views = ?v\<rparr> = (Inr (), rn1)"
      "runLoop memory_projections (replicate n s) rn1 = (Inr (), rn)"
    using assms(5) by (auto simp: runLoop_def for_each_append elim!: and_then_InrE)
  obtain xs where xs: "memory_events.polled memory_projections ?v xs rn1"
      "if stores = [] then xs = [] else prefix xs (me_allEvents (last stores))"
    using memory_events.runLoop_polled [OF assms(1) _ d _ _ rn1(1), of ?v "[]"] assms(3)
    by (auto simp: sorted_wrt_append memory_events.polled_def)
  moreover have "prefix (me_allEvents (last stores)) (me_allEvents s)" if "stores \<noteq> []"
    using assms(3) that by (simp add: sorted_wrt_append)
  ultimately have "prefix xs (me_allEvents s)" using prefix_order.trans by (auto split: if_splits)
  then obtain ys where ys: "me_allEvents s = xs @ ys" by (auto simp: prefix_def)
  with assms(4) have "length ys \<le> 1000 * n" by simp
  from memory_events.runLoop_catches_up [OF assms(2) d xs(1) ys this rn1(2)]
  have run: "for_each (project_both memory_projections) (map fst (me_allEvents s)) ?v = (Inr (), rn_views rn)"
    "rn_checkpoint rn = (if me_allEvents s = [] then 0 else snd (last (me_allEvents s)))"
    by (simp_all add: memory_events.polled_def)
  have "replay memory_projections (\<lambda>_. s) 0 0 ?v
      = Some (replayed (me_allEvents s) 0 (for_each (project_both memory_projections) (map fst (me_allEvents s)) ?v))"
    using memory_events.replay_ends [where source = "\<lambda>_. s" and whole = "me_allEvents s" and xs = "[]" and ys = "me_allEvents s"
        and k = 0 and position = 0 and v = ?v and d = memory_projections] assms(2) d by auto
  then show ?thesis by (auto simp: rebuildAll_def replayFrom_def reset_views replayed_def run)
qed

definition sample_created :: domain_event where
  "sample_created = sample_event (AccountCreated ''a'' ''o'' ''USD'') 1"

definition sample_memory :: memory_events where
  "sample_memory = snd (me_append ''account-a'' [sample_created] 0 empty_memory_events)"

lemma sample_memory_inv: "me_inv sample_memory"
  using memory_events.append_ok [OF empty_me_inv, of 0 "''account-a''" "[sample_created]"]
  by (auto simp: sample_memory_def memory_event_store_def me_stream_def empty_memory_events_def)

lemma sample_memory_journal: "me_allEvents sample_memory = [(sample_created, 1)]"
  by (simp add: sample_memory_def me_append_def me_stream_def empty_memory_events_def sample_created_def sample_event_def)

lemma sample_poll:
  "fst (runLoop memory_projections [empty_memory_events, sample_memory]
     \<lparr>rn_checkpoint = 0, rn_views = \<lparr>vw_accounts = empty_memory_accounts, vw_transfers = []\<rparr>\<rparr>) = Inr ()"
proof -
  have "fst (project_both memory_projections sample_created \<lparr>vw_accounts = empty_memory_accounts, vw_transfers = []\<rparr>) = Inr ()"
    by (simp add: project_both_def run_account_projector_def run_transfer_projector_def on_field_def project_account_def
        project_transfer_def projectAccountCreated_def discard_def sample_created_def sample_event_def memory_projections_def
        memory_account_reads_def empty_memory_accounts_def ma_appendStatement_def and_then_def)
  then obtain v where "project_both memory_projections sample_created
      \<lparr>vw_accounts = empty_memory_accounts, vw_transfers = []\<rparr> = (Inr (), v)" by (metis prod.collapse)
  moreover have "es_readAll (pr_events memory_projections) 0 1000 empty_memory_events = []"
    "es_readAll (pr_events memory_projections) 0 1000 sample_memory = [(sample_created, 1)]"
    by (simp_all add: memory_projections_def memory_event_store_def me_readAll_def sample_memory_journal,
        simp add: empty_memory_events_def)
  ultimately show ?thesis by (simp add: runLoop_def poll_turn_def poll_event_def on_field_def and_then_def)
qed

theorem rebuild_equals_polling_witness:
  "let rn = snd (runLoop memory_projections [empty_memory_events, sample_memory]
         \<lparr>rn_checkpoint = 0, rn_views = \<lparr>vw_accounts = empty_memory_accounts, vw_transfers = []\<rparr>\<rparr>)
   in rebuildAll memory_projections (\<lambda>_. sample_memory) \<lparr>vw_accounts = empty_memory_accounts, vw_transfers = []\<rparr>
        = Some (Inr (rn_checkpoint rn), rn_views rn)"
proof -
  obtain rn where run: "runLoop memory_projections ([empty_memory_events] @ replicate 1 sample_memory)
      \<lparr>rn_checkpoint = 0, rn_views = \<lparr>vw_accounts = empty_memory_accounts, vw_transfers = []\<rparr>\<rparr> = (Inr (), rn)"
    using sample_poll by (simp add: prod_eq_iff)
  have "me_allEvents empty_memory_events = []" by (simp add: empty_memory_events_def)
  then have "rebuildAll memory_projections (\<lambda>_. sample_memory) \<lparr>vw_accounts = empty_memory_accounts, vw_transfers = []\<rparr>
      = Some (Inr (rn_checkpoint rn), rn_views rn)"
    using run by (intro rebuild_equals_polling [where stores = "[empty_memory_events]" and n = 1])
      (simp_all add: sample_memory_inv empty_me_inv sample_memory_journal)
  then show ?thesis using run by (simp add: Let_def)
qed

lemma undefined_freeze_stops:
  assumes "ev_data e = AccountFrozen None reason"
  shows "project_both d e v = (Inl (GenericError ''Projection missing account summary for account undefined''), v)"
  by (simp add: project_both_def run_account_projector_def on_field_def undefined_freeze_fails [OF assms] and_then_def)

text \<open>One freeze request for an account that does not exist (which the freeze command accepts) makes every later
  full rebuild fail, after it has emptied the read models: what it leaves behind is what the events before
  that request give, and all accounts and transfers have lost what happened after it.\<close>

theorem freeze_of_missing_account_stops_every_rebuild:
  assumes "pg_inv s" and "pg_journal s = xs @ (e, p) # ys" and "ev_data e = AccountFrozen None reason"
  shows "\<exists>err. rebuildAll (postgres_projections place) (\<lambda>_. s) v = Some (Inl err,
    snd (for_each (project_both (postgres_projections place)) (map fst xs) \<lparr>vw_accounts = empty_pg_accounts, vw_transfers = []\<rparr>))"
proof -
  let ?v = "\<lparr>vw_accounts = empty_pg_accounts, vw_transfers = []\<rparr>" and ?d = "postgres_projections place"
  have replay: "replay ?d (\<lambda>_. s) 0 0 ?v = Some (replayed (pg_journal s) 0 (for_each (project_both ?d) (map fst (pg_journal s)) ?v))"
    using postgres_events.replay_ends [where source = "\<lambda>_. s" and whole = "pg_journal s" and xs = "[]" and ys = "pg_journal s"
        and k = 0 and position = 0 and v = ?v and d = ?d] assms(1) by (auto simp: postgres_projections_def)
  have "\<exists>err. for_each (project_both ?d) (map fst (pg_journal s)) ?v = (Inl err, snd (for_each (project_both ?d) (map fst xs) ?v))"
  proof (cases "for_each (project_both ?d) (map fst xs) ?v")
    case (Pair r v')
    then show ?thesis
      by (cases r) (simp_all add: assms(2) for_each_append and_then_def undefined_freeze_stops [OF assms(3)])
  qed
  then show ?thesis using replay by (auto simp: rebuildAll_def replayFrom_def reset_views replayed_def)
qed

definition stray_freeze :: domain_event where
  "stray_freeze = (sample_event (AccountFrozen None ''r'') 1)\<lparr>ev_eventId := ''f''\<rparr>"

definition stray_store :: pg_events where
  "stray_store = snd (pg_append ''account-a'' [sample_created] 0 (snd (pg_append ''account-b'' [stray_freeze] 0 empty_pg_events)))"

lemma pg_append_kept: "pg_inv s \<Longrightarrow> pg_fresh s es \<Longrightarrow> n = int (length (pg_stream s sid)) \<Longrightarrow> pg_inv (snd (pg_append sid es n s))"
  using postgres_events.append_ok [of s n sid es] by (auto simp: postgres_event_store_def)

lemma stray_store_facts:
  "pg_inv stray_store" "\<exists>e x. pg_journal stray_store = [] @ (e, 1) # [x] \<and> ev_data e = AccountFrozen None ''r''"
proof -
  have fresh: "pg_fresh empty_pg_events [stray_freeze]" "int (length (pg_stream empty_pg_events x)) = 0" for x
    by (simp_all add: pg_fresh_def pg_ids_def pg_stream_def empty_pg_events_def)
  let ?s = "snd (pg_append ''account-b'' [stray_freeze] 0 empty_pg_events)"
  have s: "pg_rows ?s = [\<lparr>er_id = 1, er_event = stray_freeze\<lparr>ev_streamId := ''account-b'', ev_streamVersion := 1\<rparr>\<rparr>]" "pg_sequence ?s = 1"
    by (simp_all add: pg_append_def max_version_def empty_pg_events_def Let_def insert_event_def violates_unique_def)
  then have "pg_fresh ?s [sample_created]" "int (length (pg_stream ?s ''account-a'')) = 0"
    by (simp_all add: pg_fresh_def pg_ids_def pg_stream_def sample_created_def sample_event_def stray_freeze_def)
  moreover have "pg_inv ?s" using pg_append_kept [OF empty_pg_inv fresh(1)] fresh(2) by simp
  ultimately show "pg_inv stray_store" unfolding stray_store_def by (simp add: pg_append_kept)
  show "\<exists>e x. pg_journal stray_store = [] @ (e, 1) # [x] \<and> ev_data e = AccountFrozen None ''r''"
    using s unfolding stray_store_def
    by (simp add: pg_append_def max_version_def Let_def insert_event_def violates_unique_def pg_journal_def
        sample_created_def sample_event_def stray_freeze_def)
qed

theorem freeze_of_missing_account_stops_every_rebuild_witness:
  "\<exists>err. rebuildAll (postgres_projections (\<lambda>_. 0)) (\<lambda>_. stray_store) \<lparr>vw_accounts = empty_pg_accounts, vw_transfers = []\<rparr>
     = Some (Inl err, \<lparr>vw_accounts = empty_pg_accounts, vw_transfers = []\<rparr>)"
proof -
  obtain e x where "pg_journal stray_store = [] @ (e, 1) # [x]" "ev_data e = AccountFrozen None ''r''"
    using stray_store_facts(2) by blast
  from freeze_of_missing_account_stops_every_rebuild [OF stray_store_facts(1) this] show ?thesis by simp
qed

section \<open>Rebuilding one account\<close>

context account_read_model
begin

text \<open>The rest of the history of an account, projected in one go.\<close>

lemma project_rest:
  assumes "projected S k r" "account_log a (S a)" "ids_apart S" "\<forall>i. \<exists>t. lookup i = Inr t" "pr_accounts d = ops"
    and "lookup = (\<lambda>i. tp_getSummary (pr_transfers d) i p)" "es = drop (k a) (S a)"
  shows "\<exists>r'. for_each (\<lambda>event. discard (run_account_projector d event)) es \<lparr>vw_accounts = r, vw_transfers = p\<rparr>
      = (Inr (), \<lparr>vw_accounts = r', vw_transfers = p\<rparr>) \<and> projected S (k(a := length (S a))) r'
    \<and> statement r' = (statement r)(a := statement r a @ map (labelled_entry lookup a) es)"
  using assms(1,7)
proof (induction es arbitrary: k r)
  case Nil
  then have "k a = length (S a)" by (simp add: projected_def le_antisym)
  then have "k(a := length (S a)) = k" by auto
  with Nil show ?case by simp
next
  case (Cons e es)
  then have k: "k a < length (S a)" by (metis drop_all list.distinct(1) not_le)
  then have e: "e = S a ! k a" "es = drop (Suc (k a)) (S a)" using Cons.prems(2) by (simp_all add: Cons_nth_drop_Suc [symmetric])
  obtain r1 where r1: "project_account ops lookup e r = (Inr True, r1)" "projected S (k(a := Suc (k a))) r1"
      "statement r1 = (statement r)(a := statement r a @ [labelled_entry lookup a e])"
    using project_due [OF Cons.prems(1) assms(2,3) k assms(4)] e by auto
  have "discard (run_account_projector d e) \<lparr>vw_accounts = r, vw_transfers = p\<rparr> = (Inr (), \<lparr>vw_accounts = r1, vw_transfers = p\<rparr>)"
    using r1(1) by (intro discard_Inr) (simp add: run_account_projector_def on_field_def assms(5) assms(6) [symmetric])
  moreover obtain r' where "for_each (\<lambda>event. discard (run_account_projector d event)) es \<lparr>vw_accounts = r1, vw_transfers = p\<rparr>
      = (Inr (), \<lparr>vw_accounts = r', vw_transfers = p\<rparr>)" "projected S ((k(a := Suc (k a)))(a := length (S a))) r'"
      "statement r' = (statement r1)(a := statement r1 a @ map (labelled_entry lookup a) es)"
    using Cons.IH [OF r1(2)] e(2) by (simp only: fun_upd_same) blast
  ultimately show ?case by (intro exI [of _ r']) (simp add: r1(3) fun_upd_def cong: if_cong)
qed

lemma reset_projected:
  assumes "projected S k r"
  shows "projected S (k(a := 0)) (ar_resetAccount ops a r)"
  using assms reset_account [of r a] by (auto simp: projected_def account_view_def)

lemma rebuildAccount_projected:
  assumes "projected S k r" "account_log a (S a)" "ids_apart S" "\<forall>i. \<exists>t. lookup i = Inr t" "pr_accounts d = ops"
    and "lookup = (\<lambda>i. tp_getSummary (pr_transfers d) i p)" "es_readStream (pr_events d) (account_stream a) 0 s = S a"
  shows "\<exists>r'. rebuildAccount d s a \<lparr>vw_accounts = r, vw_transfers = p\<rparr> = (Inr (), \<lparr>vw_accounts = r', vw_transfers = p\<rparr>)
    \<and> projected S (k(a := length (S a))) r' \<and> statement r' = (statement r)(a := map (labelled_entry lookup a) (S a))"
proof -
  have "statement (ar_resetAccount ops a r) = (statement r)(a := [])" using assms(1) reset_account [of r a] by (simp add: projected_def)
  moreover have "S a = drop ((k(a := 0)) a) (S a)" by simp
  note project_rest [OF reset_projected [OF assms(1)] assms(2-6) this]
  ultimately show ?thesis using assms(5,7) by (simp add: rebuildAccount_def fun_upd_def cong: if_cong)
qed

end


text \<open>
  The labels of a rebuilt statement: money that was sent with a transfer that has been compensated since reads
  as a reversal, like the entry that brought it back; the live projection had labelled it as outgoing.
\<close>

lemma rebuild_relabels_sent_money:
  assumes "md_correlationId (ev_metadata e) = t" "t \<noteq> ''''" "pp_getSummary t p = Inr (Some s)" "ts_sourceAccountId s = a"
    and "ts_sourceDebitTransactionId s = Some i" "ts_compensationTransactionId s = Some j" "i \<noteq> j"
    and "ev_data e = MoneyWithdrawn (Some a) amount currency i"
  shows "se_transferDirection (labelled_entry (\<lambda>i. pp_getSummary i p) a e) = Some REVERSAL"
  using assms by (simp add: labelled_entry_def entry_details_def getTransferStatementDetails_def mapTransferStatementDetails_def
      movement_entry_def Let_def)

lemma sample_store_stream: "pg_stream sample_store (account_stream ''a'') = sample_histories ''a''"
proof -
  have "number_from (pg_restamp ''account-a'') 0 sample_history = sample_history"
    by (simp add: sample_history_def new_account_def account_command_defs account_simps parse_750 pg_restamp_def,
        simp add: new_account_state_def show_opt_def)
  then show ?thesis using sample_store_facts(2) by (simp add: account_stream_def sample_histories_def)
qed


section \<open>Rebuilding one transfer\<close>

context transfer_read_model
begin

lemma track_rest:
  assumes "tracked T n p" "transfer_log t (T t)" "pr_transfers d = ops" "es = drop (n t) (T t)"
  shows "\<exists>p'. for_each (\<lambda>event. discard (run_transfer_projector d event)) es \<lparr>vw_accounts = r, vw_transfers = p\<rparr>
      = (Inr (), \<lparr>vw_accounts = r, vw_transfers = p'\<rparr>) \<and> tracked T (n(t := length (T t))) p'"
  using assms(1,4)
proof (induction es arbitrary: n p)
  case Nil
  then have "n t = length (T t)" by (simp add: tracked_def le_antisym)
  then have "n(t := length (T t)) = n" by auto
  with Nil show ?case by simp
next
  case (Cons e es)
  then have n: "n t < length (T t)" by (metis drop_all list.distinct(1) not_le)
  then have e: "e = T t ! n t" "es = drop (Suc (n t)) (T t)" using Cons.prems(2) by (simp_all add: Cons_nth_drop_Suc [symmetric])
  obtain p1 where p1: "project_transfer ops e p = (Inr True, p1)" "tracked T (n(t := Suc (n t))) p1"
    using track [where T = T, OF Cons.prems(1) assms(2) n] e by auto
  have "discard (run_transfer_projector d e) \<lparr>vw_accounts = r, vw_transfers = p\<rparr> = (Inr (), \<lparr>vw_accounts = r, vw_transfers = p1\<rparr>)"
    using p1(1) by (intro discard_Inr) (simp add: run_transfer_projector_def on_field_def assms(3))
  moreover obtain p' where "for_each (\<lambda>event. discard (run_transfer_projector d event)) es \<lparr>vw_accounts = r, vw_transfers = p1\<rparr>
      = (Inr (), \<lparr>vw_accounts = r, vw_transfers = p'\<rparr>)" "tracked T ((n(t := Suc (n t)))(t := length (T t))) p'"
    using Cons.IH [OF p1(2)] e(2) by (simp only: fun_upd_same) blast
  ultimately show ?case by (intro exI [of _ p']) (simp add: fun_upd_def cong: if_cong)
qed

text \<open>Rebuilding a transfer shows its whole history and leaves the other transfers alone.\<close>

lemma rebuildTransfer_tracked:
  assumes "tracked T n p" "transfer_log t (T t)" "pr_transfers d = ops"
    and "es_readStream (pr_events d) (transfer_stream t) 0 s = T t"
  shows "\<exists>p'. rebuildTransfer d s t \<lparr>vw_accounts = r, vw_transfers = p\<rparr> = (Inr (), \<lparr>vw_accounts = r, vw_transfers = p'\<rparr>)
    \<and> tracked T (n(t := length (T t))) p'"
proof -
  have "tracked T (n(t := 0)) (tp_resetTransfer ops t p)"
    using assms(1) reset_transfer [of p t] transfer_view_def [of "[]"] by (auto simp: tracked_def)
  moreover have "T t = drop ((n(t := 0)) t) (T t)" by simp
  ultimately obtain p' where "for_each (\<lambda>event. discard (run_transfer_projector d event)) (T t)
        \<lparr>vw_accounts = r, vw_transfers = tp_resetTransfer ops t p\<rparr> = (Inr (), \<lparr>vw_accounts = r, vw_transfers = p'\<rparr>)"
      "tracked T ((n(t := 0))(t := length (T t))) p'"
    using track_rest [where T = T, OF _ assms(2,3)] by blast
  then show ?thesis using assms(3,4) by (simp add: rebuildTransfer_def fun_upd_def cong: if_cong)
qed

end

end
