(* ===== verification/Coordination.thy ===== *)
theory Coordination
  imports Prelude "HOL-Library.Multiset"
begin

text \<open>
  \<open>src/infrastructure/projections/projection-coordination.service.ts\<close>: the lock between live projections
  (shared) and rebuilds (exclusive), on the event loop it runs on.  Calls are numbered by the caller.
\<close>

section \<open>The state\<close>

text \<open>
  What a call may still have to do on the event loop: \<open>Turn\<close> is the rest of \<open>runExclusive\<close> after
  \<open>await previousExclusive\<close>, \<open>Recheck\<close> the loop of \<open>waitUntil\<close> after its promise was resolved, \<open>Enter\<close> the
  rest of the call after \<open>await this.waitUntil(...)\<close>, \<open>Finish\<close> its \<open>finally\<close> block after \<open>await work()\<close>.
\<close>

datatype operation = Shared nat | Exclusive nat

datatype microtask = Turn nat | Recheck operation | Enter operation | Finish operation

text \<open>
  Besides the fields of the service: the queue of microtasks, the calls whose \<open>work\<close> is in progress, and
  the calls of \<open>runExclusive\<close> whose promise in \<open>exclusiveQueue\<close> is not resolved, in their order, each
  awaiting the promise of the one before it.
\<close>

record coordination =
  co_activeSharedOperations :: int
  co_exclusiveOperationInProgress :: bool
  co_exclusiveOperationRequested :: bool
  co_exclusiveQueue :: "nat list"
  co_waitingResolvers :: "operation list"
  co_microtasks :: "microtask list"
  co_working :: "operation list"

definition idle :: coordination where
  "idle = \<lparr>co_activeSharedOperations = 0, co_exclusiveOperationInProgress = False, co_exclusiveOperationRequested = False,
     co_exclusiveQueue = [], co_waitingResolvers = [], co_microtasks = [], co_working = []\<rparr>"

section \<open>The operations\<close>

definition enqueue :: "microtask list \<Rightarrow> coordination \<Rightarrow> coordination" where
  "enqueue ts s = s\<lparr>co_microtasks := co_microtasks s @ ts\<rparr>"

text \<open>The predicates that a shared and an exclusive call wait for.\<close>

definition may_enter :: "operation \<Rightarrow> coordination \<Rightarrow> bool" where
  "may_enter op s =
     (case op of
        Shared _ \<Rightarrow> \<not> co_exclusiveOperationRequested s \<and> \<not> co_exclusiveOperationInProgress s
      | Exclusive _ \<Rightarrow> co_activeSharedOperations s = 0 \<and> \<not> co_exclusiveOperationInProgress s)"

text \<open>\<open>waitUntil\<close>, up to its next \<open>await\<close>: if the predicate holds it resolves its promise, which queues the caller.\<close>

definition waitUntil :: "operation \<Rightarrow> coordination \<Rightarrow> coordination" where
  "waitUntil op s =
     (if may_enter op s then enqueue [Enter op] s
      else s\<lparr>co_waitingResolvers := co_waitingResolvers s @ [op]\<rparr>)"

definition notifyWaiters :: "coordination \<Rightarrow> coordination" where
  "notifyWaiters s = enqueue (map Recheck (co_waitingResolvers s)) (s\<lparr>co_waitingResolvers := []\<rparr>)"

definition runShared :: "nat \<Rightarrow> coordination \<Rightarrow> coordination" where
  "runShared i = waitUntil (Shared i)"

definition runExclusive :: "nat \<Rightarrow> coordination \<Rightarrow> coordination" where
  "runExclusive i s =
     (let s1 = s\<lparr>co_exclusiveQueue := co_exclusiveQueue s @ [i]\<rparr>
      in if co_exclusiveQueue s = [] then enqueue [Turn i] s1 else s1)"

text \<open>\<open>releaseExclusiveQueue\<close>: resolving the promise queues the call that awaits it.\<close>

definition releaseExclusiveQueue :: "coordination \<Rightarrow> coordination" where
  "releaseExclusiveQueue s =
     (let waiting = tl (co_exclusiveQueue s)
      in enqueue (map Turn (take 1 waiting)) (s\<lparr>co_exclusiveQueue := waiting\<rparr>))"

fun run_microtask :: "microtask \<Rightarrow> coordination \<Rightarrow> coordination" where
  "run_microtask (Turn i) s = waitUntil (Exclusive i) (notifyWaiters (s\<lparr>co_exclusiveOperationRequested := True\<rparr>))"
| "run_microtask (Recheck op) s = waitUntil op s"
| "run_microtask (Enter (Shared i)) s =
     s\<lparr>co_activeSharedOperations := co_activeSharedOperations s + 1, co_working := co_working s @ [Shared i]\<rparr>"
| "run_microtask (Enter (Exclusive i)) s =
     s\<lparr>co_exclusiveOperationInProgress := True, co_working := co_working s @ [Exclusive i]\<rparr>"
| "run_microtask (Finish (Shared i)) s =
     notifyWaiters (s\<lparr>co_activeSharedOperations := co_activeSharedOperations s - 1\<rparr>)"
| "run_microtask (Finish (Exclusive i)) s =
     releaseExclusiveQueue (notifyWaiters
       (s\<lparr>co_exclusiveOperationInProgress := False, co_exclusiveOperationRequested := False\<rparr>))"

section \<open>The event loop\<close>

text \<open>
  What happens on the loop: a call, the next microtask, or the promise of some \<open>work\<close> settles (it may have
  succeeded or failed: both go to the \<open>finally\<close> block).
\<close>

datatype happening = Call operation | Tick | Settled operation

inductive loop_step :: "coordination \<Rightarrow> happening \<Rightarrow> coordination \<Rightarrow> bool" where
  call_shared: "loop_step s (Call (Shared i)) (runShared i s)"
| call_exclusive: "loop_step s (Call (Exclusive i)) (runExclusive i s)"
| tick: "co_microtasks s = t # ts \<Longrightarrow> loop_step s Tick (run_microtask t (s\<lparr>co_microtasks := ts\<rparr>))"
| settled: "op \<in> set (co_working s) \<Longrightarrow>
    loop_step s (Settled op) (enqueue [Finish op] (s\<lparr>co_working := remove1 op (co_working s)\<rparr>))"

inductive_simps loop_step_simps [simp]:
  "loop_step s (Call op) s'" "loop_step s Tick s'" "loop_step s (Settled op) s'"

text \<open>The microtasks run until the queue is empty before anything else happens.\<close>

function drain :: "coordination \<Rightarrow> coordination" where
  "drain s = (case co_microtasks s of [] \<Rightarrow> s | t # ts \<Rightarrow> drain (run_microtask t (s\<lparr>co_microtasks := ts\<rparr>)))"
  by auto

lemma co_fields [simp]:
  "co_microtasks (enqueue ts s) = co_microtasks s @ ts" "co_waitingResolvers (enqueue ts s) = co_waitingResolvers s"
  "co_exclusiveQueue (enqueue ts s) = co_exclusiveQueue s" "co_working (enqueue ts s) = co_working s"
  "co_activeSharedOperations (enqueue ts s) = co_activeSharedOperations s"
  "co_exclusiveOperationInProgress (enqueue ts s) = co_exclusiveOperationInProgress s"
  "co_exclusiveOperationRequested (enqueue ts s) = co_exclusiveOperationRequested s"
  by (simp_all add: enqueue_def)

lemmas coordination_defs = waitUntil_def notifyWaiters_def runShared_def runExclusive_def releaseExclusiveQueue_def Let_def

text \<open>
  A finished call wakes the waiting ones and at most one more exclusive call, and an exclusive call that gets
  its turn wakes them; nothing else on the queue queues more than it takes away.
\<close>

fun turns_left :: "microtask \<Rightarrow> nat" where
  "turns_left (Turn i) = 1" | "turns_left (Finish op) = 2" | "turns_left _ = 0"

fun checks_left :: "microtask \<Rightarrow> nat" where
  "checks_left (Recheck op) = 2" | "checks_left (Enter op) = 1" | "checks_left _ = 0"

definition turns_of :: "coordination \<Rightarrow> nat" where
  "turns_of s = sum_list (map turns_left (co_microtasks s))"

definition checks_of :: "coordination \<Rightarrow> nat" where
  "checks_of s = sum_list (map checks_left (co_microtasks s))"

lemma turns_of_rechecks [simp]: "sum_list (map (turns_left \<circ> Recheck) ops) = 0"
  by (induction ops) simp_all

lemma turns_of_next: "sum_list (map (turns_left \<circ> Turn) (take 1 is)) \<le> 1"
  by (cases "is") simp_all

lemma microtask_work:
  "turns_of (run_microtask t s) < turns_left t + turns_of s
   \<or> turns_of (run_microtask t s) = turns_left t + turns_of s \<and> checks_of (run_microtask t s) < checks_left t + checks_of s"
  using turns_of_next [of "tl (co_exclusiveQueue s)"]
  by (cases "(t, s)" rule: run_microtask.cases) (auto simp: coordination_defs turns_of_def checks_of_def split: operation.split)

termination drain
proof (relation "measures [turns_of, checks_of]")
  fix s :: coordination and t ts
  assume "co_microtasks s = t # ts"
  then have "turns_of s = turns_left t + turns_of (s\<lparr>co_microtasks := ts\<rparr>)" "checks_of s = checks_left t + checks_of (s\<lparr>co_microtasks := ts\<rparr>)"
    by (simp_all add: turns_of_def checks_of_def)
  with microtask_work [of t "s\<lparr>co_microtasks := ts\<rparr>"]
  show "(run_microtask t (s\<lparr>co_microtasks := ts\<rparr>), s) \<in> measures [turns_of, checks_of]" by auto
qed simp

declare drain.simps [simp del]

lemma drain_rec [simp]:
  "co_microtasks s = [] \<Longrightarrow> drain s = s"
  "co_microtasks s = t # ts \<Longrightarrow> drain s = drain (run_microtask t (s\<lparr>co_microtasks := ts\<rparr>))"
  by (simp_all add: drain.simps [of s])

section \<open>The calls in progress\<close>

fun exclusive_of :: "operation \<Rightarrow> nat list" where
  "exclusive_of (Shared i) = []" | "exclusive_of (Exclusive i) = [i]"

fun shared_of :: "operation \<Rightarrow> nat list" where
  "shared_of (Shared i) = [i]" | "shared_of (Exclusive i) = []"

fun exclusive_task :: "microtask \<Rightarrow> nat list" where
  "exclusive_task (Turn i) = [i]" | "exclusive_task (Recheck op) = exclusive_of op"
| "exclusive_task (Enter op) = exclusive_of op" | "exclusive_task (Finish op) = exclusive_of op"

fun shared_finish :: "microtask \<Rightarrow> nat list" where
  "shared_finish (Finish op) = shared_of op" | "shared_finish _ = []"

text \<open>Where an exclusive call can be once it has its turn: on the queue, waiting or at work.\<close>

definition tokens :: "coordination \<Rightarrow> nat multiset" where
  "tokens s = mset (concat (map exclusive_task (co_microtasks s))) + mset (concat (map exclusive_of (co_waitingResolvers s)))
     + mset (concat (map exclusive_of (co_working s)))"

definition sharing :: "coordination \<Rightarrow> int" where
  "sharing s = int (length (concat (map shared_of (co_working s)))) + int (length (concat (map shared_finish (co_microtasks s))))"

text \<open>Only the first of the unresolved exclusive calls has had its turn, and it is in one place.\<close>

definition one_turn :: "coordination \<Rightarrow> bool" where
  "one_turn s \<longleftrightarrow> tokens s = mset (take 1 (co_exclusiveQueue s))"

lemma rechecks_keep [simp]:
  "exclusive_task \<circ> Recheck = exclusive_of" "shared_finish \<circ> Recheck = (\<lambda>_. [])"
  "exclusive_task \<circ> Turn = (\<lambda>i. [i])" "shared_finish \<circ> Turn = (\<lambda>_. [])"
  by auto

lemma concat_singletons [simp]: "concat (map (\<lambda>i. [i]) xs) = xs"
  by (induction xs) simp_all

lemma concat_empties [simp]: "concat (map (\<lambda>_. []) xs) = []"
  by (induction xs) simp_all

lemma tokens_waitUntil [simp]: "tokens (waitUntil op s) = tokens s + mset (exclusive_of op)"
  by (simp add: waitUntil_def tokens_def)

lemma tokens_notify [simp]: "tokens (notifyWaiters s) = tokens s"
  by (simp add: notifyWaiters_def tokens_def)

lemma tokens_updates [simp]:
  "tokens (s\<lparr>co_activeSharedOperations := n\<rparr>) = tokens s" "tokens (s\<lparr>co_exclusiveOperationInProgress := b\<rparr>) = tokens s"
  "tokens (s\<lparr>co_exclusiveOperationRequested := b\<rparr>) = tokens s"
  by (simp_all add: tokens_def)

lemma queue_keep [simp]:
  "co_exclusiveQueue (waitUntil op s) = co_exclusiveQueue s" "co_exclusiveQueue (notifyWaiters s) = co_exclusiveQueue s"
  by (simp_all add: waitUntil_def notifyWaiters_def)

lemma mset_concat_remove1:
  "x \<in> set xs \<Longrightarrow> mset (concat (map f xs)) = mset (f x) + mset (concat (map f (remove1 x xs)))"
  by (induction xs) auto

lemma microtask_cases:
  obtains (turn) i where "t = Turn i" | (recheck) op where "t = Recheck op" | (enter_shared) i where "t = Enter (Shared i)"
    | (enter_exclusive) i where "t = Enter (Exclusive i)" | (finish_shared) i where "t = Finish (Shared i)"
    | (finish_exclusive) i where "t = Finish (Exclusive i)"
proof (cases t)
  case (Enter op)
  with that show thesis by (cases op) auto
next
  case (Finish op)
  with that show thesis by (cases op) auto
qed (use that in auto)

lemma one_turn_step:
  assumes "one_turn s" "loop_step s h s'"
  shows "one_turn s'"
  using assms(2)
proof (cases rule: loop_step.cases)
  case (call_shared i)
  then show ?thesis using assms(1) by (simp add: runShared_def one_turn_def)
next
  case (call_exclusive i)
  then show ?thesis
    using assms(1) by (cases "co_exclusiveQueue s") (simp_all add: runExclusive_def Let_def one_turn_def tokens_def)
next
  case (settled op)
  then show ?thesis
    using assms(1) mset_concat_remove1 [of op "co_working s" exclusive_of] by (simp add: one_turn_def tokens_def ac_simps)
next
  case (tick t ts)
  let ?s = "s\<lparr>co_microtasks := ts\<rparr>"
  have s: "tokens ?s + mset (exclusive_task t) = mset (take 1 (co_exclusiveQueue ?s))"
    using assms(1) tick(3) by (simp add: one_turn_def tokens_def ac_simps)
  show ?thesis
    unfolding tick(2)
  proof (cases t rule: microtask_cases)
    case (finish_exclusive i)
    from finish_exclusive s have "tokens ?s + {#i#} = mset (take 1 (co_exclusiveQueue ?s))" by simp
    then obtain rest where "co_exclusiveQueue ?s = i # rest" "tokens ?s = {#}"
      by (cases "co_exclusiveQueue ?s") (auto simp: union_is_single)
    with finish_exclusive show "one_turn (run_microtask t ?s)"
      by (simp add: one_turn_def releaseExclusiveQueue_def Let_def) (simp add: tokens_def notifyWaiters_def)
  next
    case (enter_shared i)
    with s show "one_turn (run_microtask t ?s)" by (simp add: one_turn_def tokens_def)
  next
    case (enter_exclusive i)
    with s show "one_turn (run_microtask t ?s)" by (simp add: one_turn_def tokens_def)
  qed (use s in \<open>simp_all add: one_turn_def\<close>)
qed

section \<open>Who will wake the waiting calls\<close>

definition exclusive_at_work :: "coordination \<Rightarrow> bool" where
  "exclusive_at_work s \<longleftrightarrow> (\<exists>i. Exclusive i \<in> set (co_working s) \<or> Finish (Exclusive i) \<in> set (co_microtasks s))"

text \<open>The fields say what is in progress, and every waiting call is waiting for something that is.\<close>

definition accounted :: "coordination \<Rightarrow> bool" where
  "accounted s \<longleftrightarrow> co_activeSharedOperations s = sharing s
     \<and> (co_exclusiveOperationInProgress s \<longrightarrow> exclusive_at_work s)
     \<and> (co_exclusiveOperationRequested s \<longrightarrow> co_exclusiveQueue s \<noteq> [])
     \<and> (\<forall>op \<in> set (co_waitingResolvers s). \<not> may_enter op s)"

lemma sharing_simps [simp]:
  "sharing (waitUntil op s) = sharing s" "sharing (notifyWaiters s) = sharing s" "0 \<le> sharing s"
  by (simp_all add: sharing_def waitUntil_def notifyWaiters_def)

lemma length_concat_remove1:
  "x \<in> set xs \<Longrightarrow> length (concat (map f xs)) = length (f x) + length (concat (map f (remove1 x xs)))"
  by (induction xs) auto

lemma may_enter_updates [simp]:
  "may_enter op (s\<lparr>co_microtasks := ts\<rparr>) = may_enter op s" "may_enter op (s\<lparr>co_waitingResolvers := ops\<rparr>) = may_enter op s"
  "may_enter op (s\<lparr>co_exclusiveQueue := is\<rparr>) = may_enter op s" "may_enter op (s\<lparr>co_working := ops\<rparr>) = may_enter op s"
  "may_enter op (enqueue ts s) = may_enter op s"
  by (simp_all add: may_enter_def enqueue_def split: operation.split)

lemma accounted_waitUntil: "accounted s \<Longrightarrow> accounted (waitUntil op s)"
  by (auto simp: accounted_def waitUntil_def exclusive_at_work_def sharing_def)

lemma accounted_notify:
  assumes "co_activeSharedOperations s = sharing s" "co_exclusiveOperationInProgress s \<longrightarrow> exclusive_at_work s"
    "co_exclusiveOperationRequested s \<longrightarrow> co_exclusiveQueue s \<noteq> []"
  shows "accounted (notifyWaiters s)"
  using assms by (auto simp: accounted_def notifyWaiters_def exclusive_at_work_def sharing_def)

lemma accounted_step:
  assumes "one_turn s" "accounted s" "loop_step s h s'"
  shows "accounted s'"
  using assms(3)
proof (cases rule: loop_step.cases)
  case (call_shared i)
  then show ?thesis using assms(2) by (simp add: runShared_def accounted_waitUntil)
next
  case (call_exclusive i)
  then show ?thesis
    using assms(2) by (auto simp: runExclusive_def Let_def accounted_def exclusive_at_work_def sharing_def)
next
  case (settled op)
  have "x = op \<or> x \<in> set (remove1 op xs)" if "x \<in> set xs" for x and xs :: "operation list"
    using that by (induction xs) auto
  then have "exclusive_at_work s \<Longrightarrow> exclusive_at_work s'"
    using settled by (auto simp: exclusive_at_work_def)
  moreover have "sharing s' = sharing s"
    using settled length_concat_remove1 [of op "co_working s" shared_of] by (simp add: sharing_def)
  ultimately show ?thesis
    using assms(2) settled(2) by (auto simp: accounted_def)
next
  case (tick t ts)
  let ?s = "s\<lparr>co_microtasks := ts\<rparr>"
  have place: "tokens ?s + mset (exclusive_task t) = mset (take 1 (co_exclusiveQueue ?s))"
    using assms(1) tick(3) by (simp add: one_turn_def tokens_def ac_simps)
  have s: "co_activeSharedOperations ?s = sharing ?s + int (length (shared_finish t))"
    "co_exclusiveOperationInProgress ?s \<longrightarrow> exclusive_at_work ?s \<or> (\<exists>i. t = Finish (Exclusive i))"
    "co_exclusiveOperationRequested ?s \<longrightarrow> co_exclusiveQueue ?s \<noteq> []" "\<forall>op \<in> set (co_waitingResolvers ?s). \<not> may_enter op ?s"
    using assms(2) tick(3) by (auto simp: accounted_def sharing_def exclusive_at_work_def)
  show ?thesis
    unfolding tick(2)
  proof (cases t rule: microtask_cases)
    case (turn i)
    then have "co_exclusiveQueue ?s \<noteq> []" using place by auto
    with turn s show "accounted (run_microtask t ?s)"
      by (auto intro!: accounted_waitUntil accounted_notify simp: sharing_def exclusive_at_work_def)
  next
    case (recheck op)
    with s have "accounted ?s" by (auto simp: accounted_def)
    with recheck show "accounted (run_microtask t ?s)" by (simp add: accounted_waitUntil)
  next
    case (enter_shared i)
    have pos: "sharing ?s + 1 \<noteq> 0" using sharing_simps(3) [of ?s] by linarith
    have "\<not> may_enter op (run_microtask t ?s)" if "op \<in> set (co_waitingResolvers ?s)" for op
      using s(1,4) that enter_shared pos by (auto simp: may_enter_def split: operation.splits)
    with enter_shared s show "accounted (run_microtask t ?s)"
      by (auto simp: accounted_def sharing_def exclusive_at_work_def)
  next
    case (enter_exclusive i)
    have "\<not> may_enter op (run_microtask t ?s)" for op using enter_exclusive by (simp add: may_enter_def split: operation.split)
    moreover have "co_exclusiveQueue ?s \<noteq> []" using enter_exclusive place by auto
    ultimately show "accounted (run_microtask t ?s)"
      using enter_exclusive s by (auto simp: accounted_def sharing_def exclusive_at_work_def)
  next
    case (finish_shared i)
    with s show "accounted (run_microtask t ?s)"
      by (auto intro!: accounted_notify simp: sharing_def exclusive_at_work_def)
  next
    case (finish_exclusive i)
    with s show "accounted (run_microtask t ?s)"
      by (auto simp: coordination_defs accounted_def sharing_def)
  qed
qed

lemma reachable_coordination:
  assumes "path loop_step idle hs s"
  shows "one_turn s \<and> accounted s"
  using assms
  by (rule path_invariant [where I = "\<lambda>s. one_turn s \<and> accounted s"])
    (auto simp: one_turn_step intro: accounted_step,
     auto simp: idle_def one_turn_def tokens_def accounted_def sharing_def)

text \<open>Turns of the event loop, each with the microtasks it leads to.\<close>

fun happen :: "happening \<Rightarrow> coordination \<Rightarrow> coordination" where
  "happen (Call (Shared i)) s = runShared i s"
| "happen (Call (Exclusive i)) s = runExclusive i s"
| "happen (Settled op) s = (if op \<in> set (co_working s) then enqueue [Finish op] (s\<lparr>co_working := remove1 op (co_working s)\<rparr>) else s)"
| "happen Tick s = s"

definition loop_turns :: "happening list \<Rightarrow> coordination \<Rightarrow> coordination" where
  "loop_turns hs s = fold (\<lambda>h s. drain (happen h s)) hs s"

lemma drain_path: "path loop_step p hs s \<Longrightarrow> \<exists>hs. path loop_step p hs (drain s)"
proof (induction s arbitrary: hs rule: drain.induct)
  case (1 s)
  show ?case
  proof (cases "co_microtasks s")
    case Nil
    then show ?thesis using 1 by auto
  next
    case (Cons t ts)
    then have "loop_step s Tick (run_microtask t (s\<lparr>co_microtasks := ts\<rparr>))" by simp
    from 1(1) [OF Cons path_snoc [OF 1(2) this]] Cons show ?thesis by simp
  qed
qed

lemma drained: "co_microtasks (drain s) = []"
proof (induction s rule: drain.induct)
  case (1 s)
  then show ?case by (cases "co_microtasks s") simp_all
qed

lemma loop_turns_path:
  assumes "path loop_step p hs s"
  shows "\<exists>hs. path loop_step p hs (loop_turns h s)"
  using assms
proof (induction h arbitrary: hs s)
  case Nil
  then show ?case by (auto simp: loop_turns_def)
next
  case (Cons x h)
  have "\<exists>hs. path loop_step p hs (happen x s)"
  proof (cases "(x, s)" rule: happen.cases)
    case (1 i s)
    then show ?thesis using path_snoc [OF Cons.prems, of "Call (Shared i)"] by auto
  next
    case (2 i s)
    then show ?thesis using path_snoc [OF Cons.prems, of "Call (Exclusive i)"] by auto
  next
    case (3 op s)
    then show ?thesis using path_snoc [OF Cons.prems, of "Settled op"] Cons.prems by (cases "op \<in> set (co_working s)") auto
  next
    case (4 s)
    then show ?thesis using Cons.prems by auto
  qed
  then obtain hs' where "path loop_step p hs' (drain (happen x s))" using drain_path by blast
  from Cons.IH [OF this] show ?case by (simp add: loop_turns_def)
qed

section \<open>Properties\<close>

text \<open>C36: No rebuild runs while another one does: whatever is called in whatever order, and however long the work
  takes, at most one exclusive call is at work at a time, namely the one that has waited longest.\<close>

theorem rebuilds_run_one_at_a_time:
  assumes "path loop_step idle hs s"
  shows "concat (map exclusive_of (co_working s)) = [] \<or>
    (\<exists>i rest. concat (map exclusive_of (co_working s)) = [i] \<and> co_exclusiveQueue s = i # rest)"
proof -
  have "mset (concat (map exclusive_of (co_working s))) \<subseteq># mset (take 1 (co_exclusiveQueue s))"
    using reachable_coordination [OF assms] unfolding one_turn_def tokens_def by (metis mset_subset_eq_add_right)
  moreover have "xs = [] \<or> (\<exists>i rest. xs = [i] \<and> q = i # rest)" if "mset xs \<subseteq># mset (take 1 q)" for xs q :: "nat list"
    using that size_mset_mono [OF that] mset_subset_eqD [OF that, of "hd xs"]
    by (cases q; cases xs) auto
  ultimately show ?thesis by blast
qed

text \<open>C37: No wake-up is lost and no call is left behind: whenever the event loop has run dry and no work is in
  progress, nobody waits, neither a projection nor a rebuild.\<close>

theorem no_call_waits_forever:
  assumes "path loop_step idle hs s" and "co_microtasks s = []" and "co_working s = []"
  shows "co_waitingResolvers s = [] \<and> co_exclusiveQueue s = []"
proof -
  have s: "one_turn s" "accounted s" using reachable_coordination [OF assms(1)] by simp_all
  have idle: "co_activeSharedOperations s = 0" "\<not> co_exclusiveOperationInProgress s"
    using s(2) assms(2,3) by (auto simp: accounted_def sharing_def exclusive_at_work_def)
  then have waiting: "\<exists>i. op = Shared i \<and> co_exclusiveOperationRequested s" if "op \<in> set (co_waitingResolvers s)" for op
    using s(2) that by (cases op) (auto simp: accounted_def may_enter_def)
  then have "concat (map exclusive_of (co_waitingResolvers s)) = []" by fastforce
  then have "co_exclusiveQueue s = []"
    using s(1) assms(2,3) by (cases "co_exclusiveQueue s") (simp_all add: one_turn_def tokens_def del: concat_eq_Nil_conv)
  then have "\<not> co_exclusiveOperationRequested s" using s(2) by (simp add: accounted_def)
  then show ?thesis using waiting \<open>co_exclusiveQueue s = []\<close> by (cases "co_waitingResolvers s") auto
qed

text \<open>C38: But rebuilds and live projections are not kept apart: the checks of \<open>waitUntil\<close> and the assignments that
  depend on them are one microtask apart.  A projection that arrives during a rebuild while another rebuild
  is queued runs together with that other rebuild once the first one ends.\<close>

theorem projection_runs_during_rebuild:
  "co_working (loop_turns [Call (Exclusive i), Call (Shared k), Call (Exclusive j), Settled (Exclusive i)] idle)
     = [Shared k, Exclusive j]"
  by (simp add: loop_turns_def idle_def coordination_defs may_enter_def enqueue_def)

text \<open>The same happens when a projection arrives in the turn of the event loop that starts a rebuild.\<close>

lemma projection_in_the_turn_of_a_rebuild:
  "co_working (drain (runShared k (runExclusive i idle))) = [Shared k, Exclusive i]"
  by (simp add: idle_def coordination_defs may_enter_def enqueue_def)

theorem rebuilds_run_one_at_a_time_witness:
  "concat (map exclusive_of (co_working (loop_turns [Call (Exclusive 1), Call (Exclusive 2)] idle))) = [1]
   \<and> co_exclusiveQueue (loop_turns [Call (Exclusive 1), Call (Exclusive 2)] idle) = [1, 2]"
proof -
  let ?s = "loop_turns [Call (Exclusive 1), Call (Exclusive 2)] idle"
  obtain hs where "path loop_step idle hs ?s" using loop_turns_path [OF path_Nil] by blast
  from rebuilds_run_one_at_a_time [OF this] show ?thesis
    by (simp add: loop_turns_def idle_def coordination_defs may_enter_def enqueue_def)
qed

theorem no_call_waits_forever_witness:
  "let s = loop_turns [Call (Exclusive 1), Call (Shared 2), Settled (Exclusive 1), Settled (Shared 2)] idle
   in co_waitingResolvers s = [] \<and> co_exclusiveQueue s = []"
proof -
  let ?s = "loop_turns [Call (Exclusive 1), Call (Shared 2), Settled (Exclusive 1), Settled (Shared 2)] idle"
  obtain hs where path: "path loop_step idle hs ?s" using loop_turns_path [OF path_Nil] by blast
  have "co_microtasks ?s = []" "co_working ?s = []"
    by (simp_all add: loop_turns_def idle_def coordination_defs may_enter_def enqueue_def)
  from no_call_waits_forever [OF path this] show ?thesis by (simp add: Let_def)
qed

end
