(* ===== verification/Locks.thy ===== *)
theory Locks
  imports Prelude
begin

text \<open>
  \<open>withAccountLock\<close> of \<open>account.repository.ts\<close> and \<open>withTransferLock\<close> of \<open>transfer.repository.ts\<close>: a lock per id
  made of chained promises, and the queue per id that it implements.
\<close>

section \<open>The chained promises\<close>

text \<open>
  Every call makes a promise of its own, the \<open>lock\<close>, which is numbered here; \<open>lk_map\<close> is \<open>accountLocks\<close>.  A
  waiting call has its lock, its id and the promise it awaits (\<open>None\<close> is \<open>Promise.resolve()\<close>); a running call is
  inside \<open>fn\<close>.
\<close>

record locks =
  lk_map :: "string \<rightharpoonup> nat"
  lk_next :: nat
  lk_released :: "nat list"
  lk_waiting :: "(nat \<times> string \<times> nat option) list"
  lk_running :: "(nat \<times> string) list"

definition no_locks :: locks where
  "no_locks = \<lparr>lk_map = Map.empty, lk_next = 0, lk_released = [], lk_waiting = [], lk_running = []\<rparr>"

text \<open>Up to \<open>await prev\<close>; after it; and the \<open>finally\<close> block, which runs whether \<open>fn\<close> returned or threw.\<close>

definition lock_call :: "string \<Rightarrow> locks \<Rightarrow> locks" where
  "lock_call a s =
     s\<lparr>lk_map := (lk_map s)(a \<mapsto> lk_next s), lk_next := lk_next s + 1,
       lk_waiting := lk_waiting s @ [(lk_next s, a, lk_map s a)]\<rparr>"

definition settled_promise :: "nat list \<Rightarrow> nat option \<Rightarrow> bool" where
  "settled_promise released p = (case p of None \<Rightarrow> True | Some j \<Rightarrow> j \<in> set released)"

definition lock_enter :: "nat \<times> string \<times> nat option \<Rightarrow> locks \<Rightarrow> locks" where
  "lock_enter x s = s\<lparr>lk_waiting := remove1 x (lk_waiting s), lk_running := lk_running s @ [(fst x, fst (snd x))]\<rparr>"

definition lock_finally :: "nat \<Rightarrow> string \<Rightarrow> locks \<Rightarrow> locks" where
  "lock_finally i a s =
     s\<lparr>lk_running := remove1 (i, a) (lk_running s), lk_released := lk_released s @ [i],
       lk_map := (if lk_map s a = Some i then (lk_map s)(a := None) else lk_map s)\<rparr>"

datatype lock_act = Arrive string nat | Begin string nat | End string nat

inductive lock_step :: "locks \<Rightarrow> lock_act \<Rightarrow> locks \<Rightarrow> bool" where
  arrives: "lock_step s (Arrive a (lk_next s)) (lock_call a s)"
| begins: "(i, a, p) \<in> set (lk_waiting s) \<Longrightarrow> settled_promise (lk_released s) p \<Longrightarrow>
    lock_step s (Begin a i) (lock_enter (i, a, p) s)"
| ends: "(i, a) \<in> set (lk_running s) \<Longrightarrow> lock_step s (End a i) (lock_finally i a s)"

inductive_simps lock_step_simps:
  "lock_step s (Arrive a i) s'" "lock_step s (Begin a i) s'" "lock_step s (End a i) s'"

section \<open>A queue per id\<close>

text \<open>What callers rely on: the calls for an id run one at a time, in the order in which they came.\<close>

type_synonym queues = "string \<Rightarrow> nat list \<times> bool"

inductive queue_step :: "queues \<Rightarrow> lock_act \<Rightarrow> queues \<Rightarrow> bool" where
  joins: "queue_step f (Arrive a i) (f(a := (fst (f a) @ [i], snd (f a))))"
| starts: "f a = (i # q, False) \<Longrightarrow> queue_step f (Begin a i) (f(a := (i # q, True)))"
| leaves: "f a = (i # q, True) \<Longrightarrow> queue_step f (End a i) (f(a := (q, False)))"

definition waiting_for :: "string \<Rightarrow> locks \<Rightarrow> (nat \<times> string \<times> nat option) list" where
  "waiting_for a s = filter (\<lambda>x. fst (snd x) = a) (lk_waiting s)"

definition running_for :: "string \<Rightarrow> locks \<Rightarrow> (nat \<times> string) list" where
  "running_for a s = filter (\<lambda>x. snd x = a) (lk_running s)"

definition queue_of :: "string \<Rightarrow> locks \<Rightarrow> nat list" where
  "queue_of a s = map fst (running_for a s) @ map fst (waiting_for a s)"

definition queues_of :: "locks \<Rightarrow> queues" where
  "queues_of s = (\<lambda>a. (queue_of a s, running_for a s \<noteq> []))"

section \<open>The chain\<close>

text \<open>The first in the queue awaits nothing that is not settled, every other call awaits the one before it.\<close>

fun chained :: "nat list \<Rightarrow> nat option \<Rightarrow> (nat \<times> string \<times> nat option) list \<Rightarrow> bool" where
  "chained released before [] = True"
| "chained released before ((i, a, p) # xs) =
     ((case before of None \<Rightarrow> settled_promise released p | Some j \<Rightarrow> p = Some j) \<and> chained released (Some i) xs)"

definition front :: "(nat \<times> string) list \<Rightarrow> nat option" where
  "front xs = (if xs = [] then None else Some (fst (last xs)))"

definition lock_ok :: "locks \<Rightarrow> bool" where
  "lock_ok s \<longleftrightarrow>
     (\<forall>a. length (running_for a s) \<le> 1
       \<and> chained (lk_released s) (front (running_for a s)) (waiting_for a s)
       \<and> lk_map s a = (if queue_of a s = [] then None else Some (last (queue_of a s)))
       \<and> distinct (queue_of a s) \<and> (\<forall>i \<in> set (queue_of a s). i < lk_next s \<and> i \<notin> set (lk_released s)))
     \<and> (\<forall>i \<in> set (lk_released s). i < lk_next s)
     \<and> (\<forall>a b i. i \<in> set (queue_of a s) \<longrightarrow> i \<in> set (queue_of b s) \<longrightarrow> a = b)"

lemma lock_okD:
  assumes "lock_ok s"
  shows "length (running_for a s) \<le> 1"
    and "chained (lk_released s) (front (running_for a s)) (waiting_for a s)"
    and "lk_map s a = (if queue_of a s = [] then None else Some (last (queue_of a s)))"
    and "distinct (queue_of a s)" and "i \<in> set (queue_of a s) \<Longrightarrow> i < lk_next s" and "i \<in> set (queue_of a s) \<Longrightarrow> i \<notin> set (lk_released s)"
    and "i \<in> set (queue_of a s) \<Longrightarrow> i \<in> set (queue_of b s) \<Longrightarrow> a = b" and "i \<in> set (lk_released s) \<Longrightarrow> i < lk_next s"
  using assms unfolding lock_ok_def by blast+

lemma front_simps [simp]: "front [] = None" "front (xs @ [x]) = Some (fst x)" "front [x] = Some (fst x)"
  by (simp_all add: front_def)

lemma no_locks_ok: "lock_ok no_locks" "queues_of no_locks = (\<lambda>a. ([], False))"
  by (simp_all add: lock_ok_def no_locks_def queue_of_def queues_of_def waiting_for_def running_for_def)

lemma chained_append:
  "chained r b (xs @ [(i, a, p)]) \<longleftrightarrow> chained r b xs
     \<and> (case (if xs = [] then b else Some (fst (last xs))) of None \<Rightarrow> settled_promise r p | Some j \<Rightarrow> p = Some j)"
  by (induction r b xs rule: chained.induct) auto

lemma call_views [simp]:
  "waiting_for b (lock_call a s) = waiting_for b s @ (if a = b then [(lk_next s, a, lk_map s a)] else [])"
  "running_for b (lock_call a s) = running_for b s"
  "lk_released (lock_call a s) = lk_released s" "lk_next (lock_call a s) = lk_next s + 1"
  "lk_map (lock_call a s) = (lk_map s)(a \<mapsto> lk_next s)"
  by (simp_all add: waiting_for_def running_for_def lock_call_def)

lemma enter_views [simp]:
  "waiting_for b (lock_enter (i, a, p) s) = (if a = b then remove1 (i, a, p) (waiting_for b s) else waiting_for b s)"
  "running_for b (lock_enter (i, a, p) s) = running_for b s @ (if a = b then [(i, a)] else [])"
  "lk_released (lock_enter x s) = lk_released s" "lk_next (lock_enter x s) = lk_next s" "lk_map (lock_enter x s) = lk_map s"
  by (simp_all add: waiting_for_def running_for_def lock_enter_def filter_remove1 remove1_idem)

lemma finally_views [simp]:
  "waiting_for b (lock_finally i a s) = waiting_for b s"
  "running_for b (lock_finally i a s) = (if a = b then remove1 (i, a) (running_for b s) else running_for b s)"
  "lk_released (lock_finally i a s) = lk_released s @ [i]" "lk_next (lock_finally i a s) = lk_next s"
  "lk_map (lock_finally i a s) = (if lk_map s a = Some i then (lk_map s)(a := None) else lk_map s)"
  by (simp_all add: waiting_for_def running_for_def lock_finally_def filter_remove1 remove1_idem)

lemma queue_views [simp]:
  "queue_of b (lock_call a s) = queue_of b s @ (if a = b then [lk_next s] else [])"
  by (simp add: queue_of_def)

lemma chained_mono: "chained r b xs \<Longrightarrow> set r \<subseteq> set r' \<Longrightarrow> chained r' b xs"
  by (induction r b xs rule: chained.induct) (auto simp: settled_promise_def split: option.splits)

text \<open>Only the first in the chain may go on.\<close>

lemma chained_first:
  assumes "chained r b xs" "x \<in> set xs" "settled_promise r (snd (snd x))" "\<And>j. b = Some j \<Longrightarrow> j \<notin> set r"
    and "\<forall>y \<in> set xs. fst y \<notin> set r"
  shows "b = None \<and> x = hd xs"
  using assms
proof (induction r b xs rule: chained.induct)
  case (2 r b i a p xs)
  show ?case
  proof (cases "x \<in> set xs")
    case True
    with 2 have "Some i = None" by auto
    then show ?thesis by simp
  next
    case False
    then show ?thesis using 2 by (auto simp: settled_promise_def split: option.splits)
  qed
qed simp

lemma call_ok:
  assumes "lock_ok s"
  shows "lock_ok (lock_call a s)"
    and "queues_of (lock_call a s) = (queues_of s)(a := (fst (queues_of s a) @ [lk_next s], snd (queues_of s a)))"
proof -
  have fresh: "lk_next s \<notin> set (queue_of b s)" for b using assms by (auto simp: lock_ok_def)
  have "chained (lk_released s) (front (running_for a s))
      (waiting_for a s @ [(lk_next s, a, lk_map s a)])"
    using lock_okD(2,3) [OF assms, of a] by (auto simp: chained_append queue_of_def last_map settled_promise_def front_def)
  then have "chained (lk_released s) (front (running_for b s))
      (waiting_for b (lock_call a s))" for b
    using lock_okD(2) [OF assms, of b] unfolding call_views(1) by (cases "a = b") simp_all
  then show "lock_ok (lock_call a s)"
    using assms fresh unfolding lock_ok_def by (auto simp: less_Suc_eq)
  show "queues_of (lock_call a s) = (queues_of s)(a := (fst (queues_of s a) @ [lk_next s], snd (queues_of s a)))"
    by (rule ext) (simp add: queues_of_def)
qed

lemma enter_ok:
  assumes "lock_ok s" "(i, a, p) \<in> set (lk_waiting s)" "settled_promise (lk_released s) p"
  shows "lock_ok (lock_enter (i, a, p) s)" and "\<exists>q. queues_of s a = (i # q, False)
    \<and> queues_of (lock_enter (i, a, p) s) = (queues_of s)(a := (i # q, True))"
proof -
  let ?b = "front (running_for a s)"
  have member: "(i, a, p) \<in> set (waiting_for a s)" using assms(2) by (simp add: waiting_for_def)
  have "j \<notin> set (lk_released s)" if "?b = Some j" for j
    using lock_okD(6) [OF assms(1), of j a] that by (auto simp: queue_of_def front_def split: if_splits)
  moreover have "\<forall>y \<in> set (waiting_for a s). fst y \<notin> set (lk_released s)"
    using lock_okD(6) [OF assms(1), of _ a] by (auto simp: queue_of_def)
  ultimately have "?b = None \<and> (i, a, p) = hd (waiting_for a s)"
    using assms(1,3) member by (intro chained_first) (auto simp: lock_ok_def)
  then obtain w where w: "running_for a s = []" "waiting_for a s = (i, a, p) # w"
    using member by (cases "waiting_for a s") (auto simp: front_def split: if_splits)
  have queue: "queue_of b (lock_enter (i, a, p) s) = queue_of b s" for b
    using w by (auto simp: queue_of_def)
  have "chained (lk_released s) (Some i) w" using lock_okD(2) [OF assms(1), of a] w by simp
  then show "lock_ok (lock_enter (i, a, p) s)"
    using assms(1) w unfolding lock_ok_def queue by auto
  show "\<exists>q. queues_of s a = (i # q, False) \<and> queues_of (lock_enter (i, a, p) s) = (queues_of s)(a := (i # q, True))"
    using w queue by (intro exI [of _ "map fst w"]) (auto simp: queues_of_def queue_of_def fun_eq_iff)
qed

lemma finally_ok:
  assumes "lock_ok s" "(i, a) \<in> set (lk_running s)"
  shows "lock_ok (lock_finally i a s)" and "\<exists>q. queues_of s a = (i # q, True)
    \<and> queues_of (lock_finally i a s) = (queues_of s)(a := (q, False))"
proof -
  have "(i, a) \<in> set (running_for a s)" "length (running_for a s) \<le> 1"
    using assms by (auto simp: running_for_def lock_ok_def)
  then have r: "running_for a s = [(i, a)]" by (cases "running_for a s") auto
  have queue: "queue_of b (lock_finally i a s) = (if a = b then map fst (waiting_for a s) else queue_of b s)"
    "queue_of a s = i # map fst (waiting_for a s)" for b
    using r by (auto simp: queue_of_def)
  have elsewhere: "i \<notin> set (queue_of b s)" if "a \<noteq> b" for b
    using assms(1) that queue(2) unfolding lock_ok_def by (metis list.set_intros(1))
  have own: "i \<notin> fst ` set (waiting_for a s)" using assms(1) queue(2) unfolding lock_ok_def by (metis distinct.simps(2) list.set_map)
  have "chained (lk_released s) (Some i) (waiting_for a s)"
    using assms(1) r unfolding lock_ok_def by (metis front_simps(3) fst_conv)
  then have chain: "chained (lk_released s @ [i]) None (waiting_for a s)"
    by (cases "waiting_for a s") (auto simp: settled_promise_def elim!: chained_mono)
  have map_a: "lk_map s a = Some (last (i # map fst (waiting_for a s)))"
    using assms(1) queue(2) unfolding lock_ok_def by (metis list.distinct(1))
  have mine: "lk_map s a = Some i \<longleftrightarrow> waiting_for a s = []"
    using own map_a by (cases "waiting_for a s" rule: rev_cases) auto
  show "lock_ok (lock_finally i a s)"
  proof -
    have "length (running_for b (lock_finally i a s)) \<le> 1
        \<and> chained (lk_released (lock_finally i a s)) (front (running_for b (lock_finally i a s))) (waiting_for b (lock_finally i a s))
        \<and> lk_map (lock_finally i a s) b = (if queue_of b (lock_finally i a s) = [] then None else Some (last (queue_of b (lock_finally i a s))))
        \<and> distinct (queue_of b (lock_finally i a s))
        \<and> (\<forall>j \<in> set (queue_of b (lock_finally i a s)). j < lk_next s \<and> j \<notin> set (lk_released (lock_finally i a s)))" for b
    proof (cases "a = b")
      case True
      have "distinct (queue_of a s)" "\<forall>j \<in> set (queue_of a s). j < lk_next s \<and> j \<notin> set (lk_released s)"
        using assms(1) by (auto simp: lock_ok_def)
      then show ?thesis using True r chain mine map_a own unfolding queue by (auto split: if_splits)
    next
      case False
      then show ?thesis using assms(1) elsewhere [OF False] unfolding queue lock_ok_def by (auto intro: chained_mono)
    qed
    moreover have "j < lk_next (lock_finally i a s)" if "j \<in> set (lk_released (lock_finally i a s))" for j
      using that lock_okD(5) [OF assms(1), of i a] lock_okD(8) [OF assms(1), of j] queue(2) by auto
    moreover have sub: "set (queue_of b (lock_finally i a s)) \<subseteq> set (queue_of b s)" for b
      unfolding queue(1) by (cases "a = b") (simp_all add: queue_of_def)
    have "c = b" if "j \<in> set (queue_of c (lock_finally i a s))" "j \<in> set (queue_of b (lock_finally i a s))" for b c j
      using that sub lock_okD(7) [OF assms(1), of j c b] by blast
    ultimately show ?thesis unfolding lock_ok_def finally_views(4) by blast
  qed
  show "\<exists>q. queues_of s a = (i # q, True) \<and> queues_of (lock_finally i a s) = (queues_of s)(a := (q, False))"
    using queue r by (intro exI [of _ "map fst (waiting_for a s)"]) (auto simp: queues_of_def fun_eq_iff)
qed

lemma lock_step_queue:
  assumes "lock_ok s" "lock_step s l s'"
  shows "lock_ok s' \<and> queue_step (queues_of s) l (queues_of s')"
  using assms(2)
proof cases
  case (arrives a)
  then show ?thesis using call_ok [OF assms(1), of a] by (simp add: joins)
next
  case (begins i a p)
  then show ?thesis using enter_ok [OF assms(1) begins(3,4)] by (auto intro: starts)
next
  case (ends i a)
  then show ?thesis using finally_ok [OF assms(1) ends(3)] by (auto intro: leaves)
qed

lemma lock_path_ok:
  assumes "path lock_step no_locks ls s"
  shows "lock_ok s \<and> path queue_step (\<lambda>a. ([], False)) ls (queues_of s)"
  using assms
proof (induction no_locks ls s rule: path.induct)
  case path_Nil
  show ?case by (simp add: no_locks_ok path.path_Nil)
next
  case (path_snoc ls s l s')
  then show ?case using lock_step_queue by (blast intro: path.path_snoc)
qed

section \<open>Properties\<close>

text \<open>C12: The chained promises are a queue per account: whatever calls arrive and whenever they finish or throw, they
  enter and leave their account's critical section as in a queue, one at a time and in the order of their
  arrival; calls for different accounts never wait for each other; and the map has an entry for exactly the
  accounts with calls in flight.\<close>

theorem locks_are_queues:
  assumes "path lock_step no_locks ls s"
  shows "path queue_step (\<lambda>a. ([], False)) ls (queues_of s) \<and> dom (lk_map s) = {a. fst (queues_of s a) \<noteq> []}"
  using lock_path_ok [OF assms] lock_okD(3) [of s] by (auto simp: queues_of_def split: if_splits)

text \<open>No call is forgotten: whenever calls for an account are in flight and none of them runs, the one that came
  first can go on.\<close>

theorem first_waiter_can_go_on:
  assumes "path lock_step no_locks ls s" and "queues_of s a = (i # q, False)"
  shows "\<exists>s'. lock_step s (Begin a i) s'"
proof -
  have ok: "lock_ok s" using lock_path_ok [OF assms(1)] by blast
  from assms(2) obtain b p w where w: "waiting_for a s = (i, b, p) # w" "running_for a s = []"
    by (auto simp: queues_of_def queue_of_def map_eq_Cons_conv)
  then have "(i, b, p) \<in> set (waiting_for a s)" by simp
  then have "(i, a, p) \<in> set (lk_waiting s)" by (auto simp: waiting_for_def)
  moreover have "settled_promise (lk_released s) p" using lock_okD(2) [OF ok, of a] w by simp
  ultimately show ?thesis by (blast intro: begins)
qed

definition sample_locks :: locks where
  "sample_locks = lock_finally 0 ''a'' (lock_call ''b'' (lock_enter (0, ''a'', None) (lock_call ''a'' (lock_call ''a'' no_locks))))"

lemma sample_locks_path:
  "path lock_step no_locks [Arrive ''a'' 0, Arrive ''a'' 1, Begin ''a'' 0, Arrive ''b'' 2, End ''a'' 0] sample_locks"
proof -
  define s1 where "s1 = lock_call ''a'' no_locks"
  define s2 where "s2 = lock_call ''a'' s1"
  define s3 where "s3 = lock_enter (0, ''a'', None) s2"
  define s4 where "s4 = lock_call ''b'' s3"
  note defs = s1_def s2_def s3_def s4_def no_locks_def lock_call_def lock_enter_def
  have "lock_step no_locks (Arrive ''a'' 0) s1" "lock_step s1 (Arrive ''a'' 1) s2"
    unfolding lock_step_simps by (simp_all add: defs)
  moreover have "lock_step s2 (Begin ''a'' 0) s3" unfolding s3_def by (rule begins) (simp_all add: defs settled_promise_def)
  moreover have "lock_step s3 (Arrive ''b'' 2) s4" unfolding lock_step_simps by (simp add: defs)
  moreover have "lock_step s4 (End ''a'' 0) sample_locks"
    unfolding sample_locks_def s1_def [symmetric] s2_def [symmetric] s3_def [symmetric] s4_def [symmetric]
    by (rule ends) (simp add: defs)
  ultimately have "path lock_step no_locks ((((([] @ [Arrive ''a'' 0]) @ [Arrive ''a'' 1]) @ [Begin ''a'' 0]) @ [Arrive ''b'' 2]) @ [End ''a'' 0]) sample_locks"
    by (rule path_snoc [OF path_snoc [OF path_snoc [OF path_snoc [OF path_snoc [OF path_Nil]]]]])
  then show ?thesis by simp
qed

theorem locks_are_queues_witness: "dom (lk_map sample_locks) = {a. fst (queues_of sample_locks a) \<noteq> []}"
  using locks_are_queues [OF sample_locks_path] by blast

theorem first_waiter_can_go_on_witness: "\<exists>s'. lock_step sample_locks (Begin ''a'' 1) s'"
proof (rule first_waiter_can_go_on [OF sample_locks_path])
  show "queues_of sample_locks ''a'' = ([1], False)"
    by (simp add: queues_of_def queue_of_def waiting_for_def running_for_def sample_locks_def no_locks_def lock_call_def lock_enter_def
        lock_finally_def)
qed

end
