(* ===== verification/Observability.thy ===== *)
theory Observability
  imports JsNumber "HOL-Library.AList"
begin

text \<open>
  \<open>src/infrastructure/observability\<close>: the metrics registry, the service that owns the metrics of the process,
  the HTTP interceptor, the poller of the outbox backlog and the text they render for Prometheus.
  A \<open>Map\<close> or an object literal is a list of its entries in the order in which their keys came in.
\<close>

section \<open>Numbers and labels\<close>

fun js_add :: "js_number \<Rightarrow> js_number \<Rightarrow> js_number" where
  "js_add (JsFin a) (JsFin b) = js_round (a + b)"
| "js_add JsNaN _ = JsNaN"
| "js_add _ JsNaN = JsNaN"
| "js_add (JsInf a) (JsInf b) = (if a = b then JsInf a else JsNaN)"
| "js_add (JsInf a) _ = JsInf a"
| "js_add _ (JsInf b) = JsInf b"

fun js_le :: "js_number \<Rightarrow> js_number \<Rightarrow> bool" where
  "js_le (JsFin a) (JsFin b) = (a \<le> b)"
| "js_le JsNaN _ = False"
| "js_le _ JsNaN = False"
| "js_le (JsInf a) (JsInf b) = (a \<or> \<not> b)"
| "js_le (JsInf a) (JsFin _) = a"
| "js_le (JsFin _) (JsInf b) = (\<not> b)"

fun js_negate :: "js_number \<Rightarrow> js_number" where
  "js_negate (JsFin a) = JsFin (- a)"
| "js_negate (JsInf a) = JsInf (\<not> a)"
| "js_negate JsNaN = JsNaN"

definition sanitizeValue :: "js_number \<Rightarrow> js_number" where
  "sanitizeValue value = (case value of JsFin _ \<Rightarrow> value | _ \<Rightarrow> JsFin 0)"

type_synonym label_values = "(string \<times> string) list"

definition label_value :: "label_values \<Rightarrow> string \<Rightarrow> string" where
  "label_value labels name = (case map_of labels name of None \<Rightarrow> '''' | Some v \<Rightarrow> v)"

fun str_join :: "string \<Rightarrow> string list \<Rightarrow> string" where
  "str_join sep [] = ''''"
| "str_join sep [x] = x"
| "str_join sep (x # xs) = x @ sep @ str_join sep xs"

definition makeLabelKey :: "string list \<Rightarrow> label_values \<Rightarrow> string" where
  "makeLabelKey labelNames labels = str_join ''|'' (map (\<lambda>name. name @ ''='' @ label_value labels name) labelNames)"

definition normalizeLabels :: "string list \<Rightarrow> label_values \<Rightarrow> label_values" where
  "normalizeLabels labelNames labels = fold (\<lambda>name. AList.update name (label_value labels name)) labelNames []"

text \<open>\<open>replace\<close> with a regular expression that matches one character, everywhere.\<close>

definition replace_char :: "char \<Rightarrow> string \<Rightarrow> string \<Rightarrow> string" where
  "replace_char c new s = concat (map (\<lambda>x. if x = c then new else [x]) s)"

definition newline :: char where
  "newline = char_of (10 :: nat)"

definition backslash :: char where
  "backslash = char_of (92 :: nat)"

definition quote :: char where
  "quote = char_of (34 :: nat)"

definition escapeLabelValue :: "string \<Rightarrow> string" where
  "escapeLabelValue value =
     replace_char quote [backslash, quote] (replace_char newline (backslash # ''n'')
       (replace_char backslash [backslash, backslash] value))"

definition toLabelString :: "label_values \<Rightarrow> string" where
  "toLabelString labels =
     (if labels = [] then ''''
      else ''{'' @ str_join '','' (map (\<lambda>(key, value). key @ ''='' @ [quote] @ escapeLabelValue value @ [quote]) labels) @ ''}'')"

section \<open>The metrics\<close>

record sample =
  sp_value :: js_number
  sp_labels :: label_values

record histogram_sample =
  hs_bucketCounts :: "js_number list"
  hs_count :: js_number
  hs_sum :: js_number
  hs_labels :: label_values

text \<open>Counters and gauges have the same fields; a histogram has its buckets besides.\<close>

record metric =
  mt_name :: string
  mt_help :: string
  mt_labelNames :: "string list"
  mt_samples :: "(string \<times> sample) list"

record histogram =
  hg_name :: string
  hg_help :: string
  hg_labelNames :: "string list"
  hg_buckets :: "js_number list"
  hg_samples :: "(string \<times> histogram_sample) list"

definition metric_set :: "label_values \<Rightarrow> js_number \<Rightarrow> metric \<Rightarrow> metric" where
  "metric_set labels value m =
     m\<lparr>mt_samples := AList.update (makeLabelKey (mt_labelNames m) labels)
         \<lparr>sp_value = sanitizeValue value, sp_labels = normalizeLabels (mt_labelNames m) labels\<rparr> (mt_samples m)\<rparr>"

definition metric_inc :: "label_values \<Rightarrow> js_number \<Rightarrow> metric \<Rightarrow> metric" where
  "metric_inc labels value m =
     (let existing = map_of (mt_samples m) (makeLabelKey (mt_labelNames m) labels)
      in metric_set labels (js_add (case existing of None \<Rightarrow> JsFin 0 | Some x \<Rightarrow> sp_value x) value) m)"

text \<open>\<open>GaugeMetric.inc\<close> and \<open>dec\<close>; the \<open>inc\<close> of a gauge does what that of a counter does.\<close>

definition metric_dec :: "label_values \<Rightarrow> js_number \<Rightarrow> metric \<Rightarrow> metric" where
  "metric_dec labels value = metric_inc labels (js_negate value)"

definition observe_sample :: "js_number list \<Rightarrow> js_number \<Rightarrow> histogram_sample \<Rightarrow> histogram_sample" where
  "observe_sample buckets value x =
     (let sanitizedValue = sanitizeValue value
      in x\<lparr>hs_bucketCounts := map (\<lambda>(bucket, n). if js_le sanitizedValue bucket then js_add n (JsFin 1) else n)
             (zip buckets (hs_bucketCounts x)),
           hs_count := js_add (hs_count x) (JsFin 1), hs_sum := js_add (hs_sum x) sanitizedValue\<rparr>)"

definition histogram_observe :: "label_values \<Rightarrow> js_number \<Rightarrow> histogram \<Rightarrow> histogram" where
  "histogram_observe labels value m =
     (let key = makeLabelKey (hg_labelNames m) labels;
          existing = (case map_of (hg_samples m) key of
            Some x \<Rightarrow> x
          | None \<Rightarrow> \<lparr>hs_bucketCounts = replicate (length (hg_buckets m)) (JsFin 0), hs_count = JsFin 0, hs_sum = JsFin 0,
                     hs_labels = normalizeLabels (hg_labelNames m) labels\<rparr>)
      in m\<lparr>hg_samples := AList.update key (observe_sample (hg_buckets m) value existing) (hg_samples m)\<rparr>)"

definition metric_header :: "string \<Rightarrow> string \<Rightarrow> string \<Rightarrow> string list" where
  "metric_header name help kind = [''# HELP '' @ name @ '' '' @ help, ''# TYPE '' @ name @ '' '' @ kind]"

definition counter_render :: "metric \<Rightarrow> string list" where
  "counter_render m =
     metric_header (mt_name m) (mt_help m) ''counter''
       @ map (\<lambda>(_, x). mt_name m @ toLabelString (sp_labels x) @ '' '' @ js_to_string (sp_value x)) (mt_samples m)"

definition gauge_render :: "metric \<Rightarrow> string list" where
  "gauge_render m =
     metric_header (mt_name m) (mt_help m) ''gauge''
       @ map (\<lambda>(_, x). mt_name m @ toLabelString (sp_labels x) @ '' '' @ js_to_string (sp_value x)) (mt_samples m)"

definition histogram_render :: "histogram \<Rightarrow> string list" where
  "histogram_render m =
     metric_header (hg_name m) (hg_help m) ''histogram'' @ concat (map (\<lambda>(_, x).
       map (\<lambda>(bucket, n). hg_name m @ ''_bucket'' @ toLabelString (AList.update ''le'' (js_to_string bucket) (hs_labels x))
           @ '' '' @ js_to_string n) (zip (hg_buckets m) (hs_bucketCounts x))
       @ [hg_name m @ ''_bucket'' @ toLabelString (AList.update ''le'' ''+Inf'' (hs_labels x)) @ '' '' @ js_to_string (hs_count x),
          hg_name m @ ''_sum'' @ toLabelString (hs_labels x) @ '' '' @ js_to_string (hs_sum x),
          hg_name m @ ''_count'' @ toLabelString (hs_labels x) @ '' '' @ js_to_string (hs_count x)]) (hg_samples m))"

datatype registered = Counter metric | Gauge metric | Histogram histogram

fun registered_render :: "registered \<Rightarrow> string list" where
  "registered_render (Counter m) = counter_render m"
| "registered_render (Gauge m) = gauge_render m"
| "registered_render (Histogram m) = histogram_render m"

definition registry_render :: "registered list \<Rightarrow> string" where
  "registry_render metrics = str_join [newline] (concat (map registered_render metrics))"

section \<open>The service\<close>

definition js_decimal :: "nat \<Rightarrow> nat \<Rightarrow> js_number" where
  "js_decimal n scale = js_round (of_nat n / 10 ^ scale)"

record observability =
  ob_httpRequestsTotal :: metric
  ob_httpRequestDurationSeconds :: histogram
  ob_outboxMessagesPublishedTotal :: metric
  ob_outboxPublishFailuresTotal :: metric
  ob_outboxClaimBatchSize :: histogram
  ob_outboxPendingMessages :: metric
  ob_outboxOldestPendingAgeSeconds :: metric
  ob_kafkaConsumerMessagesTotal :: metric
  ob_kafkaConsumerProcessingDurationSeconds :: histogram
  ob_transferProcessingTotal :: metric
  ob_transferProcessingDurationSeconds :: histogram
  ob_transferOutcomesTotal :: metric
  ob_processStartTimeSeconds :: metric
  ob_processUptimeSeconds :: metric
  ob_processResidentMemoryBytes :: metric
  ob_processHeapTotalBytes :: metric
  ob_processHeapUsedBytes :: metric
  ob_processExternalMemoryBytes :: metric
  ob_processArrayBuffersBytes :: metric
  ob_processCpuUserSecondsTotal :: metric
  ob_processCpuSystemSecondsTotal :: metric

definition new_metric :: "string \<Rightarrow> string \<Rightarrow> string list \<Rightarrow> metric" where
  "new_metric name help labelNames = \<lparr>mt_name = name, mt_help = help, mt_labelNames = labelNames, mt_samples = []\<rparr>"

definition new_histogram :: "string \<Rightarrow> string \<Rightarrow> string list \<Rightarrow> js_number list \<Rightarrow> histogram" where
  "new_histogram name help labelNames buckets =
     \<lparr>hg_name = name, hg_help = help, hg_labelNames = labelNames, hg_buckets = buckets, hg_samples = []\<rparr>"

text \<open>The bounds of the buckets in thousandths.\<close>

definition milli_buckets :: "nat list \<Rightarrow> js_number list" where
  "milli_buckets = map (\<lambda>n. js_decimal n 3)"

text \<open>\<open>startedAt\<close> is \<open>Date.now()\<close> in the constructor.\<close>

definition new_observability :: "nat \<Rightarrow> observability" where
  "new_observability startedAt =
     \<lparr>ob_httpRequestsTotal = new_metric ''core_banking_http_requests_total'' ''Total HTTP requests handled by the API''
        [''method'', ''route'', ''status_code''],
      ob_httpRequestDurationSeconds = new_histogram ''core_banking_http_request_duration_seconds'' ''HTTP request latency in seconds''
        [''method'', ''route'', ''status_code''] (milli_buckets [5, 10, 25, 50, 100, 250, 500, 1000, 2000, 5000, 10000]),
      ob_outboxMessagesPublishedTotal = new_metric ''core_banking_outbox_messages_published_total''
        ''Total outbox messages published successfully'' [''topic''],
      ob_outboxPublishFailuresTotal = new_metric ''core_banking_outbox_publish_failures_total'' ''Total outbox publish failures'' [''topic''],
      ob_outboxClaimBatchSize = new_histogram ''core_banking_outbox_claim_batch_size''
        ''Number of outbox messages claimed per polling cycle'' []
        (milli_buckets [0, 1000, 5000, 10000, 25000, 50000, 100000, 250000]),
      ob_outboxPendingMessages = new_metric ''core_banking_outbox_pending_messages'' ''Current number of unpublished outbox messages'' [],
      ob_outboxOldestPendingAgeSeconds = new_metric ''core_banking_outbox_oldest_pending_age_seconds''
        ''Age in seconds of the oldest unpublished outbox message'' [],
      ob_kafkaConsumerMessagesTotal = new_metric ''core_banking_kafka_consumer_messages_total''
        ''Total Kafka messages processed by application consumers'' [''consumer'', ''topic'', ''outcome''],
      ob_kafkaConsumerProcessingDurationSeconds = new_histogram ''core_banking_kafka_consumer_processing_duration_seconds''
        ''Kafka consumer message processing duration in seconds'' [''consumer'', ''topic'', ''outcome'']
        (milli_buckets [1, 5, 10, 25, 50, 100, 250, 500, 1000, 2000, 5000]),
      ob_transferProcessingTotal = new_metric ''core_banking_transfer_processing_total''
        ''Total transfer processing attempts by stage and outcome'' [''stage'', ''outcome''],
      ob_transferProcessingDurationSeconds = new_histogram ''core_banking_transfer_processing_duration_seconds''
        ''Transfer stage processing duration in seconds'' [''stage'', ''outcome'']
        (milli_buckets [1, 10, 50, 100, 250, 500, 1000, 2000, 5000, 10000]),
      ob_transferOutcomesTotal = new_metric ''core_banking_transfer_outcomes_total''
        ''Total terminal transfer outcomes recorded by the coordinator'' [''status''],
      ob_processStartTimeSeconds = metric_set [] (js_decimal startedAt 3)
        (new_metric ''process_start_time_seconds'' ''Start time of the process since unix epoch in seconds'' []),
      ob_processUptimeSeconds = new_metric ''process_uptime_seconds'' ''Process uptime in seconds'' [],
      ob_processResidentMemoryBytes = new_metric ''process_resident_memory_bytes'' ''Resident memory size in bytes'' [],
      ob_processHeapTotalBytes = new_metric ''process_heap_total_bytes'' ''V8 heap total size in bytes'' [],
      ob_processHeapUsedBytes = new_metric ''process_heap_used_bytes'' ''V8 heap used size in bytes'' [],
      ob_processExternalMemoryBytes = new_metric ''process_external_memory_bytes'' ''Node.js external memory usage in bytes'' [],
      ob_processArrayBuffersBytes = new_metric ''process_array_buffers_bytes'' ''Node.js array buffer memory usage in bytes'' [],
      ob_processCpuUserSecondsTotal = new_metric ''process_cpu_user_seconds_total'' ''Total user CPU time spent in seconds'' [],
      ob_processCpuSystemSecondsTotal = new_metric ''process_cpu_system_seconds_total'' ''Total system CPU time spent in seconds'' []\<rparr>"

text \<open>\<open>toUpperCase\<close> on the letters of a method name.\<close>

definition js_upper :: "string \<Rightarrow> string" where
  "js_upper = map (\<lambda>c. if 97 \<le> (of_char c :: nat) \<and> (of_char c :: nat) \<le> 122 then char_of (of_char c - 32 :: nat) else c)"

definition recordHttpRequest :: "string \<Rightarrow> string \<Rightarrow> int \<Rightarrow> js_number \<Rightarrow> observability \<Rightarrow> observability" where
  "recordHttpRequest http_method route statusCode durationSeconds ob =
     (let labels = [(''method'', js_upper http_method), (''route'', route), (''status_code'', show_int statusCode)]
      in ob\<lparr>ob_httpRequestsTotal := metric_inc labels (JsFin 1) (ob_httpRequestsTotal ob),
            ob_httpRequestDurationSeconds := histogram_observe labels durationSeconds (ob_httpRequestDurationSeconds ob)\<rparr>)"

definition recordOutboxClaimBatch :: "nat \<Rightarrow> observability \<Rightarrow> observability" where
  "recordOutboxClaimBatch messages ob =
     ob\<lparr>ob_outboxClaimBatchSize := histogram_observe [] (js_decimal messages 0) (ob_outboxClaimBatchSize ob)\<rparr>"

definition recordOutboxPublishSuccess :: "string \<Rightarrow> observability \<Rightarrow> observability" where
  "recordOutboxPublishSuccess topic ob =
     ob\<lparr>ob_outboxMessagesPublishedTotal := metric_inc [(''topic'', topic)] (JsFin 1) (ob_outboxMessagesPublishedTotal ob)\<rparr>"

definition recordOutboxPublishFailure :: "string \<Rightarrow> observability \<Rightarrow> observability" where
  "recordOutboxPublishFailure topic ob =
     ob\<lparr>ob_outboxPublishFailuresTotal := metric_inc [(''topic'', topic)] (JsFin 1) (ob_outboxPublishFailuresTotal ob)\<rparr>"

definition setOutboxBacklog :: "js_number \<Rightarrow> js_number \<Rightarrow> observability \<Rightarrow> observability" where
  "setOutboxBacklog pendingMessages oldestAgeSeconds ob =
     ob\<lparr>ob_outboxPendingMessages := metric_set [] pendingMessages (ob_outboxPendingMessages ob),
        ob_outboxOldestPendingAgeSeconds := metric_set [] oldestAgeSeconds (ob_outboxOldestPendingAgeSeconds ob)\<rparr>"

definition recordKafkaMessage :: "string \<Rightarrow> string \<Rightarrow> string \<Rightarrow> js_number \<Rightarrow> observability \<Rightarrow> observability" where
  "recordKafkaMessage consumer topic outcome durationSeconds ob =
     (let labels = [(''consumer'', consumer), (''topic'', topic), (''outcome'', outcome)]
      in ob\<lparr>ob_kafkaConsumerMessagesTotal := metric_inc labels (JsFin 1) (ob_kafkaConsumerMessagesTotal ob),
            ob_kafkaConsumerProcessingDurationSeconds :=
              histogram_observe labels durationSeconds (ob_kafkaConsumerProcessingDurationSeconds ob)\<rparr>)"

definition recordTransferStage :: "string \<Rightarrow> string \<Rightarrow> js_number \<Rightarrow> observability \<Rightarrow> observability" where
  "recordTransferStage stage outcome durationSeconds ob =
     (let labels = [(''stage'', stage), (''outcome'', outcome)]
      in ob\<lparr>ob_transferProcessingTotal := metric_inc labels (JsFin 1) (ob_transferProcessingTotal ob),
            ob_transferProcessingDurationSeconds := histogram_observe labels durationSeconds (ob_transferProcessingDurationSeconds ob)\<rparr>)"

definition recordTransferOutcome :: "string \<Rightarrow> observability \<Rightarrow> observability" where
  "recordTransferOutcome status ob =
     ob\<lparr>ob_transferOutcomesTotal := metric_inc [(''status'', status)] (JsFin 1) (ob_transferOutcomesTotal ob)\<rparr>"

text \<open>What \<open>process\<close> reports: memory in bytes, CPU time in microseconds.\<close>

record process_usage =
  pu_uptime :: js_number
  pu_rss :: js_number
  pu_heapTotal :: js_number
  pu_heapUsed :: js_number
  pu_external :: js_number
  pu_arrayBuffers :: js_number
  pu_cpuUser :: nat
  pu_cpuSystem :: nat

definition collectProcessMetrics :: "process_usage \<Rightarrow> observability \<Rightarrow> observability" where
  "collectProcessMetrics usage ob =
     ob\<lparr>ob_processUptimeSeconds := metric_set [] (pu_uptime usage) (ob_processUptimeSeconds ob),
        ob_processResidentMemoryBytes := metric_set [] (pu_rss usage) (ob_processResidentMemoryBytes ob),
        ob_processHeapTotalBytes := metric_set [] (pu_heapTotal usage) (ob_processHeapTotalBytes ob),
        ob_processHeapUsedBytes := metric_set [] (pu_heapUsed usage) (ob_processHeapUsedBytes ob),
        ob_processExternalMemoryBytes := metric_set [] (pu_external usage) (ob_processExternalMemoryBytes ob),
        ob_processArrayBuffersBytes := metric_set [] (pu_arrayBuffers usage) (ob_processArrayBuffersBytes ob),
        ob_processCpuUserSecondsTotal := metric_set [] (js_decimal (pu_cpuUser usage) 6) (ob_processCpuUserSecondsTotal ob),
        ob_processCpuSystemSecondsTotal := metric_set [] (js_decimal (pu_cpuSystem usage) 6) (ob_processCpuSystemSecondsTotal ob)\<rparr>"

text \<open>The metrics in the order in which the service creates them.\<close>

definition registered_metrics :: "observability \<Rightarrow> registered list" where
  "registered_metrics ob =
     [Counter (ob_httpRequestsTotal ob), Histogram (ob_httpRequestDurationSeconds ob),
      Counter (ob_outboxMessagesPublishedTotal ob), Counter (ob_outboxPublishFailuresTotal ob),
      Histogram (ob_outboxClaimBatchSize ob), Gauge (ob_outboxPendingMessages ob), Gauge (ob_outboxOldestPendingAgeSeconds ob),
      Counter (ob_kafkaConsumerMessagesTotal ob), Histogram (ob_kafkaConsumerProcessingDurationSeconds ob),
      Counter (ob_transferProcessingTotal ob), Histogram (ob_transferProcessingDurationSeconds ob),
      Counter (ob_transferOutcomesTotal ob), Gauge (ob_processStartTimeSeconds ob), Gauge (ob_processUptimeSeconds ob),
      Gauge (ob_processResidentMemoryBytes ob), Gauge (ob_processHeapTotalBytes ob), Gauge (ob_processHeapUsedBytes ob),
      Gauge (ob_processExternalMemoryBytes ob), Gauge (ob_processArrayBuffersBytes ob),
      Gauge (ob_processCpuUserSecondsTotal ob), Gauge (ob_processCpuSystemSecondsTotal ob)]"

definition renderPrometheusMetrics :: "process_usage \<Rightarrow> observability \<Rightarrow> string \<times> observability" where
  "renderPrometheusMetrics usage ob =
     (let ob' = collectProcessMetrics usage ob in (registry_render (registered_metrics ob') @ [newline], ob'))"

text \<open>
  The HTTP interceptor, when the handler has ended (\<open>finalize\<close>): \<open>path\<close> is the route that matched, \<open>status\<close>
  the status code of the response, if any.
\<close>

record http_request =
  rq_method :: "string option"
  rq_routePath :: "string option"
  rq_url :: "string option"

definition intercepted :: "bool \<Rightarrow> http_request \<Rightarrow> int option \<Rightarrow> js_number \<Rightarrow> observability \<Rightarrow> observability" where
  "intercepted is_http request status durationSeconds ob =
     (let route = (case rq_routePath request of Some p \<Rightarrow> p
                   | None \<Rightarrow> (case rq_url request of Some u \<Rightarrow> u | None \<Rightarrow> ''unknown''))
      in if \<not> is_http \<or> route = ''/metrics'' \<or> route = ''metrics'' then ob
         else recordHttpRequest (case rq_method request of None \<Rightarrow> ''UNKNOWN'' | Some m \<Rightarrow> m) route
           (case status of None \<Rightarrow> 500 | Some c \<Rightarrow> c) durationSeconds ob)"

section \<open>Label values can be read back\<close>

text \<open>A reader of a quoted label value in the text format of Prometheus: the value, and what follows it.\<close>

fun read_label_value :: "string \<Rightarrow> (string \<times> string) option" where
  "read_label_value [] = None"
| "read_label_value (c # cs) =
     (if c = quote then Some ([], cs)
      else if c \<noteq> backslash then map_option (apfst (Cons c)) (read_label_value cs)
      else case cs of
             [] \<Rightarrow> None
           | d # ds \<Rightarrow> map_option (apfst (Cons (if d = CHR ''n'' then newline else d))) (read_label_value ds))"

lemma special_chars [simp]:
  "newline \<noteq> backslash" "newline \<noteq> quote" "quote \<noteq> backslash" "backslash \<noteq> newline" "quote \<noteq> newline" "backslash \<noteq> quote"
  "CHR ''n'' \<noteq> backslash" "CHR ''n'' \<noteq> newline" "CHR ''n'' \<noteq> quote"
  "backslash \<noteq> CHR ''n''" "newline \<noteq> CHR ''n''" "quote \<noteq> CHR ''n''"
  by code_simp+

lemma replace_char_simps [simp]:
  "replace_char c new [] = []" "replace_char c new (x # s) = (if x = c then new else [x]) @ replace_char c new s"
  "replace_char c new (s @ t) = replace_char c new s @ replace_char c new t"
  by (simp_all add: replace_char_def)

lemma escape_simps [simp]:
  "escapeLabelValue [] = []"
  "escapeLabelValue (c # s) =
     (if c = backslash then [backslash, backslash] else if c = newline then [backslash, CHR ''n'']
      else if c = quote then [backslash, quote] else [c]) @ escapeLabelValue s"
  by (simp_all add: escapeLabelValue_def)

text \<open>Whatever text a label value is (a route taken from a request, for instance), its rendering is one line and a
  reader of the exposition format gets back exactly that text, and then what was rendered after it.\<close>

theorem label_value_roundtrip:
  "read_label_value (escapeLabelValue v @ quote # rest) = Some (v, rest) \<and> newline \<notin> set (escapeLabelValue v)"
  by (induction v) auto

section \<open>Series\<close>

definition plain_labels :: "string list \<Rightarrow> label_values \<Rightarrow> bool" where
  "plain_labels names labels \<longleftrightarrow> (\<forall>name \<in> set names. CHR ''|'' \<notin> set name \<and> CHR ''|'' \<notin> set (label_value labels name))"

definition same_labels :: "string list \<Rightarrow> label_values \<Rightarrow> label_values \<Rightarrow> bool" where
  "same_labels names l l' \<longleftrightarrow> (\<forall>name \<in> set names. label_value l name = label_value l' name)"

lemma separated_inj:
  assumes "c \<notin> set x" "c \<notin> set y" "x @ c # r = y @ c # s"
  shows "x = y \<and> r = s"
proof -
  have cut: "takeWhile (\<lambda>d. d \<noteq> c) (z @ c # t) = z" if "c \<notin> set z" for z t
    using that by (induction z) auto
  from cut [OF assms(1), of r] cut [OF assms(2), of s] assms(3) have "x = y" by simp
  with assms(3) show ?thesis by simp
qed

lemma str_join_inj:
  assumes "length xs = length ys" "\<forall>x \<in> set xs. c \<notin> set x" "\<forall>y \<in> set ys. c \<notin> set y" "str_join [c] xs = str_join [c] ys"
  shows "xs = ys"
  using assms
proof (induction xs ys rule: list_induct2)
  case (Cons x xs y ys)
  show ?case
  proof (cases xs)
    case Nil
    then show ?thesis using Cons by (cases ys) auto
  next
    case (Cons x' xs')
    then obtain y' ys' where ys: "ys = y' # ys'" using Cons.hyps by (cases ys) auto
    have "x @ c # str_join [c] xs = y @ c # str_join [c] ys" using Cons.prems(3) by (simp add: Cons ys)
    with separated_inj [of c x y] Cons.prems(1,2) Cons.IH show ?thesis by simp
  qed
qed simp

lemma key_same:
  assumes "plain_labels names l" "plain_labels names l'"
  shows "makeLabelKey names l = makeLabelKey names l' \<longleftrightarrow> same_labels names l l'"
proof
  assume eq: "makeLabelKey names l = makeLabelKey names l'"
  let ?f = "\<lambda>l name. name @ ''='' @ label_value l name"
  have "map (?f l) names = map (?f l') names"
    by (rule str_join_inj [where c = "CHR ''|''"]) (use assms eq in \<open>auto simp: plain_labels_def makeLabelKey_def\<close>)
  then show "same_labels names l l'" by (simp add: same_labels_def)
next
  assume "same_labels names l l'"
  then show "makeLabelKey names l = makeLabelKey names l'"
    unfolding makeLabelKey_def by (intro arg_cong [where f = "str_join _"] map_cong) (simp_all add: same_labels_def)
qed

lemma normalize_same:
  assumes "same_labels names l l'"
  shows "normalizeLabels names l = normalizeLabels names l'"
  unfolding normalizeLabels_def by (rule fold_cong) (use assms in \<open>simp_all add: same_labels_def\<close>)

lemma one_more:
  assumes "n + 1 < 2 ^ 53"
  shows "js_add (JsFin (of_nat n)) (JsFin 1) = JsFin (of_nat (n + 1))"
proof -
  have "\<bar>int (n + 1)\<bar> < 2 ^ 53" using assms by simp
  then have "js_round (of_int (int (n + 1))) = JsFin (of_int (int (n + 1)))" by (rule js_round_integer)
  then show ?thesis by (simp add: add.commute)
qed

lemma metric_inc_sample:
  "map_of (mt_samples (metric_inc l x m)) k =
    (if k = makeLabelKey (mt_labelNames m) l
     then Some \<lparr>sp_value = sanitizeValue (js_add (case map_of (mt_samples m) k of None \<Rightarrow> JsFin 0 | Some s \<Rightarrow> sp_value s) x),
       sp_labels = normalizeLabels (mt_labelNames m) l\<rparr>
     else map_of (mt_samples m) k)"
  by (simp add: metric_inc_def metric_set_def Let_def update_conv')

text \<open>A counter has one series per combination of label values, and it counts the increments with them.\<close>

lemma counter_counts:
  assumes "mt_labelNames m = names" "mt_samples m = []" "\<forall>l \<in> set ls. plain_labels names l" "plain_labels names l"
    and "length ls < 2 ^ 53"
  defines "n \<equiv> length (filter (\<lambda>x. same_labels names x l) ls)"
  shows "map_of (mt_samples (fold (\<lambda>x. metric_inc x (JsFin 1)) ls m)) (makeLabelKey names l)
    = (if n = 0 then None else Some \<lparr>sp_value = JsFin (of_nat n), sp_labels = normalizeLabels names l\<rparr>)"
  using assms(3,5) unfolding n_def
proof (induction ls rule: rev_induct)
  case Nil
  then show ?case by (simp add: assms(2))
next
  case (snoc x ls)
  let ?m = "fold (\<lambda>x. metric_inc x (JsFin 1)) ls m" and ?n = "length (filter (\<lambda>x. same_labels names x l) ls)"
  have names: "mt_labelNames (fold (\<lambda>x. metric_inc x (JsFin 1)) xs m) = names" for xs
    by (induction xs rule: rev_induct) (simp_all add: assms(1) metric_inc_def metric_set_def Let_def)
  have IH: "map_of (mt_samples ?m) (makeLabelKey names l)
      = (if ?n = 0 then None else Some \<lparr>sp_value = JsFin (of_nat ?n), sp_labels = normalizeLabels names l\<rparr>)"
    using snoc by simp
  have "?n \<le> length ls" by (rule length_filter_le)
  then have "?n + 1 < 2 ^ 53" using snoc.prems(2) unfolding length_append by (simp only: list.size)
  from one_more [OF this] have more: "sanitizeValue (js_add (JsFin (of_nat ?n)) (JsFin 1)) = JsFin (of_nat (?n + 1))"
    by (simp add: sanitizeValue_def)
  have key: "makeLabelKey names l = makeLabelKey names x \<longleftrightarrow> same_labels names x l"
    using key_same [OF _ assms(4), of x] snoc.prems(1) by auto
  show ?case
    using more normalize_same [of names x l] IH
    by (simp add: metric_inc_sample names key del: js_add.simps) (auto simp del: js_add.simps)
qed

definition no_observation :: "string list \<Rightarrow> js_number list \<Rightarrow> label_values \<Rightarrow> histogram_sample" where
  "no_observation names buckets l =
     \<lparr>hs_bucketCounts = replicate (length buckets) (JsFin 0), hs_count = JsFin 0, hs_sum = JsFin 0, hs_labels = normalizeLabels names l\<rparr>"

lemma histogram_observe_sample:
  "map_of (hg_samples (histogram_observe l v m)) k =
    (if k = makeLabelKey (hg_labelNames m) l
     then Some (observe_sample (hg_buckets m) v (case map_of (hg_samples m) k of Some x \<Rightarrow> x | None \<Rightarrow> no_observation (hg_labelNames m) (hg_buckets m) l))
     else map_of (hg_samples m) k)"
  by (simp add: histogram_observe_def no_observation_def Let_def update_conv' split: option.split)

definition count_below :: "js_number list \<Rightarrow> js_number \<Rightarrow> nat" where
  "count_below vs bucket = length (filter (\<lambda>v. js_le (sanitizeValue v) bucket) vs)"



end
