(* ===== verification/Controllers.thy ===== *)
theory Controllers
  imports Saga TransferReadModels "HOL-Library.Code_Target_Nat"
begin

text \<open>
  \<open>accounts.controller.ts\<close> and \<open>transfers.controller.ts\<close>: the endpoints of the API.  A command endpoint runs
  its command under the idempotency key of the request, a money movement under its transaction id besides.
  \<open>uuid\<close> is the \<open>randomUUID()\<close> of a request; validation of the bodies by their decorators comes before.
\<close>

section \<open>Requests\<close>

text \<open>The payload that is hashed: the body, with the account id of the path where there is one.\<close>

datatype api_payload =
    CreatePayload string string string "string option"
  | MovementPayload string js_number string string "string option"
  | FreezePayload string string "string option"
  | TransferPayload string string string js_number string

datatype api_response = Accepted string | TransferAccepted string string

record ('i, 'es, 'ss, 't) api =
  ap_idempotency :: "('i, api_response) idempotency_ops"
  ap_hashRequest :: "string \<Rightarrow> api_payload \<Rightarrow> string"
  ap_bank :: "('es, 'ss, 't) bank_deps"

type_synonym ('i, 'es, 'ss, 't, 'a) endpoint = "('i \<times> ('es, 'ss, 't) bank, 'a) prog"

definition idempotent ::
  "('i, 'es, 'ss, 't) api \<Rightarrow> string option \<Rightarrow> string \<Rightarrow> api_payload
     \<Rightarrow> (('es, 'ss, 't) bank, api_response) prog \<Rightarrow> ('i, 'es, 'ss, 't, api_response) endpoint" where
  "idempotent d = idempotency_execute (ap_idempotency d) (ap_hashRequest d) (\<lambda>b. bd_clock (ap_bank d) (bk_stores b))"

definition api_context :: "string option \<Rightarrow> string \<Rightarrow> string option \<Rightarrow> command_context" where
  "api_context idempotencyKey correlationId actor =
     \<lparr>ctx_commandId = the idempotencyKey, ctx_correlationId = correlationId, ctx_causationId = None, ctx_actor = actor,
      ctx_traceId = None\<rparr>"

text \<open>\<open>commandBus.execute\<close> with the handler of an account command.\<close>

definition account_request ::
  "('i, 'es, 'ss, 't) api \<Rightarrow> string \<Rightarrow> account_command \<Rightarrow> command_context \<Rightarrow> (('es, 'ss, 't) bank, api_response) prog" where
  "account_request d accountId c context =
     and_then (via_stores (account_handler (bd_deps (ap_bank d)) accountId c context)) (\<lambda>_. returns (Accepted ''accepted''))"

text \<open>\<open>transactionRegistry.execute\<close> without options.\<close>

definition movement_request ::
  "('i, 'es, 'ss, 't) api \<Rightarrow> reserve_input \<Rightarrow> account_command \<Rightarrow> command_context \<Rightarrow> (('es, 'ss, 't) bank, api_response) prog" where
  "movement_request d input c context =
     and_then (on_field (\<lambda>b. (bk_txns b, bk_stores b)) (\<lambda>(t, s) b. b\<lparr>bk_stores := s, bk_txns := t\<rparr>)
       (transaction_execute (bd_txns (ap_bank d)) (bd_clock (ap_bank d)) input False (\<lambda>_. False)
         (movement_handler (ap_bank d) (ri_accountId input) c context)))
       (\<lambda>status. returns (Accepted status))"

section \<open>The command endpoints\<close>

definition createAccount ::
  "('i, 'es, 'ss, 't) api \<Rightarrow> string \<Rightarrow> string option \<Rightarrow> string \<Rightarrow> string \<Rightarrow> string \<Rightarrow> string option
     \<Rightarrow> ('i, 'es, 'ss, 't, api_response) endpoint" where
  "createAccount d uuid idempotencyKey accountId ownerId currency actor =
     idempotent d idempotencyKey ''accounts.create'' (CreatePayload accountId ownerId currency actor)
       (account_request d accountId (CreateAccount accountId ownerId currency) (api_context idempotencyKey uuid actor))"

definition deposit ::
  "('i, 'es, 'ss, 't) api \<Rightarrow> string \<Rightarrow> string option \<Rightarrow> string \<Rightarrow> js_number \<Rightarrow> string \<Rightarrow> string \<Rightarrow> string option
     \<Rightarrow> ('i, 'es, 'ss, 't, api_response) endpoint" where
  "deposit d uuid idempotencyKey accountId amount currency transactionId actor =
     idempotent d idempotencyKey ''accounts.deposit'' (MovementPayload accountId amount currency transactionId actor)
       (movement_request d
         \<lparr>ri_transactionId = transactionId, ri_accountId = accountId, ri_operationType = DEPOSIT,
          ri_amount = NumberAmount amount, ri_currency = currency, ri_idempotencyKey = idempotencyKey\<rparr>
         (DepositMoney (NumberAmount amount) currency transactionId) (api_context idempotencyKey uuid actor))"

definition withdraw ::
  "('i, 'es, 'ss, 't) api \<Rightarrow> string \<Rightarrow> string option \<Rightarrow> string \<Rightarrow> js_number \<Rightarrow> string \<Rightarrow> string \<Rightarrow> string option
     \<Rightarrow> ('i, 'es, 'ss, 't, api_response) endpoint" where
  "withdraw d uuid idempotencyKey accountId amount currency transactionId actor =
     idempotent d idempotencyKey ''accounts.withdraw'' (MovementPayload accountId amount currency transactionId actor)
       (movement_request d
         \<lparr>ri_transactionId = transactionId, ri_accountId = accountId, ri_operationType = WITHDRAW,
          ri_amount = NumberAmount amount, ri_currency = currency, ri_idempotencyKey = idempotencyKey\<rparr>
         (WithdrawMoney (NumberAmount amount) currency transactionId) (api_context idempotencyKey uuid actor))"

definition freeze ::
  "('i, 'es, 'ss, 't) api \<Rightarrow> string \<Rightarrow> string option \<Rightarrow> string \<Rightarrow> string \<Rightarrow> string option
     \<Rightarrow> ('i, 'es, 'ss, 't, api_response) endpoint" where
  "freeze d uuid idempotencyKey accountId reason actor =
     idempotent d idempotencyKey ''accounts.freeze'' (FreezePayload accountId reason actor)
       (account_request d accountId (FreezeAccount reason) (api_context idempotencyKey uuid actor))"

definition initiateTransfer ::
  "('i, 'es, 'ss, 't) api \<Rightarrow> string option \<Rightarrow> string \<Rightarrow> string \<Rightarrow> string \<Rightarrow> js_number \<Rightarrow> string
     \<Rightarrow> ('i, 'es, 'ss, 't, api_response) endpoint" where
  "initiateTransfer d idempotencyKey transferId sourceAccountId destinationAccountId amount currency =
     idempotent d idempotencyKey ''transfers.initiate''
       (TransferPayload transferId sourceAccountId destinationAccountId amount currency)
       (and_then (via_stores (InitiateTransferHandler (bd_deps (ap_bank d)) transferId sourceAccountId destinationAccountId
           (NumberAmount amount) currency (api_context idempotencyKey transferId (Some ''transfer-api''))))
         (\<lambda>_. returns (TransferAccepted transferId ''accepted'')))"

section \<open>The query endpoints\<close>

definition getAccountDetails :: "'r account_read_ops \<Rightarrow> string \<Rightarrow> 'r \<Rightarrow> account_summary result" where
  "getAccountDetails ops accountId r =
     bind_result (ar_getSummary ops accountId r) (\<lambda>summary.
       case summary of None \<Rightarrow> Inl (NotFound (''Account '' @ accountId @ '' not found'')) | Some s \<Rightarrow> Inr s)"

record balance_view =
  ab_accountId :: string
  ab_balance :: js_number
  ab_currency :: string
  ab_status :: account_status
  ab_version :: int

definition getAccountBalance :: "'r account_read_ops \<Rightarrow> string \<Rightarrow> 'r \<Rightarrow> balance_view result" where
  "getAccountBalance ops accountId r =
     bind_result (ar_getSummary ops accountId r) (\<lambda>summary.
       case summary of
         None \<Rightarrow> Inl (NotFound (''Account '' @ accountId @ '' not found''))
       | Some s \<Rightarrow> Inr \<lparr>ab_accountId = sm_accountId s, ab_balance = sm_balance s, ab_currency = sm_currency s,
                        ab_status = sm_status s, ab_version = sm_version s\<rparr>)"

text \<open>The pages with a limit and an offset that are not negative; without them the first hundred entries.\<close>

definition getAccountHistory ::
  "'r account_read_ops \<Rightarrow> string \<Rightarrow> nat option \<Rightarrow> nat option \<Rightarrow> 'r \<Rightarrow> (string \<times> statement_entry list) result" where
  "getAccountHistory ops accountId limit offset r =
     bind_result (ar_getSummary ops accountId r) (\<lambda>summary.
       case summary of
         None \<Rightarrow> Inl (NotFound (''Account '' @ accountId @ '' not found''))
       | Some _ \<Rightarrow> bind_result
           (ar_getStatement ops accountId (case limit of None \<Rightarrow> 100 | Some n \<Rightarrow> n) (case offset of None \<Rightarrow> 0 | Some n \<Rightarrow> n) r)
           (\<lambda>entries. Inr (accountId, entries)))"

definition getTransferStatus :: "'p transfer_read_ops \<Rightarrow> string \<Rightarrow> 'p \<Rightarrow> transfer_summary result" where
  "getTransferStatus ops transferId p =
     bind_result (tp_getSummary ops transferId p) (\<lambda>summary.
       case summary of None \<Rightarrow> Inl (NotFound (''Transfer '' @ transferId @ '' not found'')) | Some s \<Rightarrow> Inr s)"

section \<open>Routing\<close>

datatype api_request =
    PostAccount string string string "string option"
  | PostDeposit string js_number string string "string option"
  | PostWithdrawal string js_number string string "string option"
  | PostFreeze string string "string option"
  | PostTransfer string string string js_number string

fun api_command ::
  "('i, 'es, 'ss, 't) api \<Rightarrow> string \<Rightarrow> string option \<Rightarrow> api_request \<Rightarrow> ('i, 'es, 'ss, 't, api_response) endpoint" where
  "api_command d uuid key (PostAccount accountId ownerId currency actor) = createAccount d uuid key accountId ownerId currency actor"
| "api_command d uuid key (PostDeposit accountId amount currency transactionId actor) =
     deposit d uuid key accountId amount currency transactionId actor"
| "api_command d uuid key (PostWithdrawal accountId amount currency transactionId actor) =
     withdraw d uuid key accountId amount currency transactionId actor"
| "api_command d uuid key (PostFreeze accountId reason actor) = freeze d uuid key accountId reason actor"
| "api_command d uuid key (PostTransfer transferId source destination amount currency) =
     initiateTransfer d key transferId source destination amount currency"

text \<open>
  The decorators of \<open>account-commands.dto.ts\<close> and \<open>initiate-transfer.dto.ts\<close>: the bodies that the validation pipe of
  \<open>main.ts\<close> lets through to the endpoints.  \<open>IsNumber\<close> refuses \<open>NaN\<close> and the infinities.
\<close>

definition has_length :: "nat \<Rightarrow> nat \<Rightarrow> string \<Rightarrow> bool" where
  "has_length low high s \<longleftrightarrow> low \<le> length s \<and> length s \<le> high"

definition positive_number :: "js_number \<Rightarrow> bool" where
  "positive_number x = (case x of JsFin q \<Rightarrow> 0 < q | _ \<Rightarrow> False)"

fun CreateAccountDto :: "string \<Rightarrow> string \<Rightarrow> string \<Rightarrow> bool" where
  "CreateAccountDto accountId ownerId currency \<longleftrightarrow> has_length 3 64 accountId \<and> has_length 3 64 ownerId \<and> has_length 3 3 currency"

fun DepositMoneyDto :: "js_number \<Rightarrow> string \<Rightarrow> string \<Rightarrow> bool" where
  "DepositMoneyDto amount currency transactionId \<longleftrightarrow> positive_number amount \<and> has_length 3 3 currency \<and> transactionId \<noteq> ''''"

definition FreezeAccountDto :: "string \<Rightarrow> bool" where
  "FreezeAccountDto reason \<longleftrightarrow> reason \<noteq> ''''"

fun InitiateTransferDto :: "string \<Rightarrow> string \<Rightarrow> string \<Rightarrow> js_number \<Rightarrow> string \<Rightarrow> bool" where
  "InitiateTransferDto transferId source destination amount currency \<longleftrightarrow>
     transferId \<noteq> '''' \<and> source \<noteq> '''' \<and> destination \<noteq> '''' \<and> positive_number amount \<and> has_length 3 3 currency"

fun valid_request :: "api_request \<Rightarrow> bool" where
  "valid_request (PostAccount accountId ownerId currency actor) = CreateAccountDto accountId ownerId currency"
| "valid_request (PostDeposit accountId amount currency transactionId actor) = DepositMoneyDto amount currency transactionId"
| "valid_request (PostWithdrawal accountId amount currency transactionId actor) = DepositMoneyDto amount currency transactionId"
| "valid_request (PostFreeze accountId reason actor) = FreezeAccountDto reason"
| "valid_request (PostTransfer transferId source destination amount currency) =
     InitiateTransferDto transferId source destination amount currency"

section \<open>Repeated requests\<close>

context idempotency_repository
begin

text \<open>A request that was answered is answered from its record, whatever its handler would do now.\<close>

lemma execute_again:
  assumes "inv (fst s)" "idempotency_execute ops hashRequest clock key operation payload handler s = (Inr r, s')"
  shows "idempotency_execute ops hashRequest clock key operation payload handler' s' = (Inr r, s')"
proof (cases "idempotency_begin ops hashRequest key operation payload (clock (snd s)) (fst s)")
  case (Pair adm i)
  then have key: "truthy key" using assms(2) by (auto simp: idempotency_execute_def idempotency_begin_def split: if_splits)
  obtain k where k: "key = Some k" "k \<noteq> ''''" using key by (cases key) auto
  show ?thesis
  proof (cases "lookup (fst s) k")
    case (Some rec)
    have again: "idempotency_begin ops hashRequest key operation payload now (fst s) = (adm, fst s) \<and> i = fst s \<and> adm \<noteq> Proceed" for now
      using Pair reserve_existing [OF assms(1) Some] k
      by (auto simp: idempotency_begin_def Let_def split: idempotency_status.splits option.splits if_splits)
    have "adm = Replay r \<and> s' = s"
      using assms(2) again Pair by (cases adm) (auto simp: idempotency_execute_def)
    then show ?thesis using again by (simp add: idempotency_execute_def)
  next
    case None
    let ?new = "new_idempotency_record k operation (hashRequest operation payload) (clock (snd s))"
    obtain s1 where s1: "ip_reserve ops k operation (hashRequest operation payload) (clock (snd s)) (fst s) = ((True, Some ?new), s1)"
        "inv s1" "lookup s1 = (lookup (fst s))(k \<mapsto> ?new)"
      using reserve_new [OF assms(1) None] by blast
    obtain w where w: "handler (snd s) = (Inr r, w)" "s' = (ip_markCompleted ops k r (clock w) s1, w)"
      using assms(2) s1(1) k
      by (auto simp: idempotency_execute_def idempotency_begin_def Let_def idempotency_finish_def split: prod.splits sum.splits)
    obtain rec where rec: "lookup (fst s') k = Some rec" "ir_status rec = COMPLETED_REQUEST" "ir_responsePayload rec = Some r"
        "ir_operation rec = operation" "ir_requestHash rec = hashRequest operation payload" "inv (fst s')"
      using completed [OF s1(2), of k r "clock w"] w(2) s1(3) by (auto simp: new_idempotency_record_def)
    from reserve_existing [OF rec(6,1)] rec k show ?thesis
      by (simp add: idempotency_execute_def idempotency_begin_def Let_def)
  qed
qed

end

text \<open>C34: Clients may repeat a request as often as they like: once a command request has been answered, the same
  request with the same idempotency key gets the same answer and changes nothing at all, neither the
  accounts and transfers nor the records.\<close>

theorem repeated_request_changes_nothing:
  assumes "ap_idempotency d = postgres_idempotency_repository" and "pi_inv (fst s)"
    and "api_command d uuid key request s = (Inr r, s')"
  shows "api_command d uuid' key request s' = (Inr r, s')"
  using assms(3) postgres_idempotency.execute_again [OF assms(2)]
  by (cases request) (simp_all add: createAccount_def deposit_def withdraw_def freeze_def initiateTransfer_def idempotent_def assms(1))

context transaction_repository
begin

text \<open>A movement that was accepted is accepted again under its transaction id, without its handler.\<close>

lemma movement_again:
  assumes "inv (fst s)" "transaction_execute ops clock input retryFailed retryable handler s = (Inr status, s')"
    and "\<And>w x w'. handler w = (Inr x, w') \<Longrightarrow> x = ''accepted''" "same_movement input input'" "ri_transactionId input' = ri_transactionId input"
  shows "status = ''accepted'' \<and> transaction_execute ops clock input' retryFailed' retryable' handler' s' = (Inr ''accepted'', s')"
proof -
  let ?i = "ri_transactionId input"
  have *: "\<exists>rec. inv (fst s') \<and> lookup (fst s') ?i = Some rec \<and> tx_status rec = COMPLETED_TRANSACTION \<and> asks_for input rec
      \<and> status = ''accepted''"
  proof -
    obtain adm t1 where begin_: "transaction_begin ops input retryFailed (clock (snd s)) (fst s) = (adm, t1)"
      by (cases "transaction_begin ops input retryFailed (clock (snd s)) (fst s)")
    have done_: ?thesis if r: "adm = Proceed" "inv t1" "lookup t1 ?i = Some r" "asks_for input r" for r
    proof -
      obtain w where w: "handler (snd s) = (Inr status, w)" "s' = (xp_markCompleted ops ?i (clock w) t1, w)"
        using assms(2) begin_ r(1) by (auto simp: transaction_execute_def transaction_finish_def split: prod.splits sum.splits)
      then show ?thesis
        using marked_completed [OF r(2), of ?i "clock w"] r(3,4) assms(3) [OF w(1)]
        by auto
    qed
    from begin_cases [OF assms(1) begin_] show ?thesis
    proof (elim disjE exE conjE)
      fix e assume "adm = Reject e"
      then show ?thesis using assms(2) begin_ by (simp add: transaction_execute_def)
    next
      fix r assume r: "adm = Replay ''accepted''" "t1 = fst s" "lookup (fst s) ?i = Some r" "asks_for input r" "tx_status r = COMPLETED_TRANSACTION"
      then have "s' = s" "status = ''accepted''" using assms(2) begin_ by (auto simp: transaction_execute_def)
      then show ?thesis using r assms(1) by auto
    next
      fix m assume "adm = Proceed" "inv t1" "parseMoneyToMinorUnits (ri_amount input) = Inr m"
        "lookup t1 = (lookup (fst s))(?i \<mapsto> new_transaction_record input m (clock (snd s)))"
      then show ?thesis by (intro done_) (auto simp: asks_for_new)
    next
      fix r assume "adm = Proceed" "inv t1" "asks_for input r"
        "lookup t1 = (lookup (fst s))(?i \<mapsto> set_status PENDING (tx_errorMessage r) (clock (snd s)) r)"
      then show ?thesis by (intro done_ [of "set_status PENDING (tx_errorMessage r) (clock (snd s)) r"]) auto
    qed
  qed
  then obtain rec where rec: "inv (fst s')" "lookup (fst s') ?i = Some rec" "tx_status rec = COMPLETED_TRANSACTION" "asks_for input rec"
      "status = ''accepted''" by blast
  have "asks_for input' rec" using rec(4) assms(4) by (auto simp: asks_for_def same_movement_def)
  then have same: "ensureSameTransactionIntent input' rec = Inr ()" by (simp add: ensureSame_iff)
  have "\<exists>m. parseMoneyToMinorUnits (ri_amount input') = Inr m" using \<open>asks_for input' rec\<close> by (auto simp: asks_for_def)
  then have "xp_reserve ops input' now (fst s') = (Inr (False, Some rec), fst s')" for now
    using reserve_existing [OF rec(1), of input' rec now] rec(2) assms(5) by auto
  then show ?thesis using rec(3,5) same by (simp add: transaction_execute_def transaction_begin_def Let_def)
qed

end

lemma movement_handler_accepted: "movement_handler d i c context s = (Inr x, s') \<Longrightarrow> x = ''accepted''"
  by (auto simp: movement_handler_def elim!: and_then_InrE)

lemma movement_request_again:
  assumes "bd_txns (ap_bank d) = postgres_transaction_repository" "pt_inv (bk_txns b)"
    and "movement_request d input c context b = (Inr r, b')" "same_movement input input'" "ri_transactionId input' = ri_transactionId input"
  shows "r = Accepted ''accepted'' \<and> movement_request d input' c' context' b' = (Inr r, b')"
proof -
  let ?run = "\<lambda>input c context. transaction_execute (bd_txns (ap_bank d)) (bd_clock (ap_bank d)) input False (\<lambda>_. False)
      (movement_handler (ap_bank d) (ri_accountId input) c context)"
  obtain status t s where run: "?run input c context (bk_txns b, bk_stores b) = (Inr status, (t, s))"
      "b' = b\<lparr>bk_stores := s, bk_txns := t\<rparr>" "r = Accepted status"
    using assms(3) by (auto simp: movement_request_def on_field_def elim!: and_then_InrE split: prod.splits)
  have inv: "pt_inv (fst (bk_txns b, bk_stores b))" using assms(2) by simp
  have accepted: "movement_handler (ap_bank d) (ri_accountId input) c context w = (Inr x, w') \<Longrightarrow> x = ''accepted''" for w x w'
    by (rule movement_handler_accepted)
  from postgres_transactions.movement_again [OF inv run(1) [unfolded assms(1)] accepted assms(4,5)]
  have "status = ''accepted''" "?run input' c' context' (t, s) = (Inr ''accepted'', (t, s))" by (simp_all add: assms(1))
  then show ?thesis using run(2,3) by (simp add: movement_request_def on_field_def and_then_def)
qed

text \<open>C35: A client that has lost the answer to a deposit or a withdrawal may also repeat it with a new idempotency key:
  as long as it keeps the transaction id, the request is accepted again and neither the accounts nor the
  transaction records change.\<close>

theorem repeated_movement_moves_no_money:
  assumes "ap_idempotency d = postgres_idempotency_repository" and "bd_txns (ap_bank d) = postgres_transaction_repository"
    and "pi_inv (fst s)" and "pt_inv (bk_txns (snd s))" and "pi_lookup (fst s) key = None" and "pi_lookup (fst s') key' = None"
    and "key \<noteq> ''''" and "key' \<noteq> ''''"
    and "request = PostDeposit a amount currency t actor \<or> request = PostWithdrawal a amount currency t actor"
    and "api_command d uuid (Some key) request s = (Inr r, s')"
  shows "r = Accepted ''accepted'' \<and> (\<exists>i. api_command d uuid' (Some key') request s' = (Inr r, (i, snd s')))"
proof -
  have fresh: "idempotent d (Some k) operation payload handler (j, b) = (case handler b of (outcome, w) \<Rightarrow>
      (outcome, (idempotency_finish (ap_idempotency d) k outcome (bd_clock (ap_bank d) (bk_stores w))
        (j @ [new_idempotency_record k operation (ap_hashRequest d operation payload) (bd_clock (ap_bank d) (bk_stores b))]), w)))"
    if "pi_lookup j k = None" "k \<noteq> ''''" for k operation payload handler j b
    using that by (simp add: idempotent_def idempotency_execute_def idempotency_begin_def assms(1)
        postgres_idempotency_repository_def pi_reserve_def pi_lookup_def Let_def)
  obtain operation payload input c where request: "\<And>u k. api_command d u (Some k) request
      = idempotent d (Some k) operation payload (movement_request d (input\<lparr>ri_idempotencyKey := Some k\<rparr>) c (api_context (Some k) u actor))"
  proof -
    let ?input = "\<lambda>op. \<lparr>ri_transactionId = t, ri_accountId = a, ri_operationType = op, ri_amount = NumberAmount amount,
        ri_currency = currency, ri_idempotencyKey = None\<rparr>" and ?payload = "MovementPayload a amount currency t actor"
    from assms(9) show thesis
    proof
      assume "request = PostDeposit a amount currency t actor"
      then show thesis
        by (intro that [of "''accounts.deposit''" ?payload "?input DEPOSIT" "DepositMoney (NumberAmount amount) currency t"])
          (simp add: deposit_def)
    next
      assume "request = PostWithdrawal a amount currency t actor"
      then show thesis
        by (intro that [of "''accounts.withdraw''" ?payload "?input WITHDRAW" "WithdrawMoney (NumberAmount amount) currency t"])
          (simp add: withdraw_def)
    qed
  qed
  obtain b' where b': "movement_request d (input\<lparr>ri_idempotencyKey := Some key\<rparr>) c (api_context (Some key) uuid actor) (snd s) = (Inr r, b')"
      "snd s' = b'"
    using assms(10) fresh [OF assms(5,7), of operation payload _ "snd s"] unfolding request
    by (auto split: prod.splits)
  have "r = Accepted ''accepted'' \<and> movement_request d (input\<lparr>ri_idempotencyKey := Some key'\<rparr>) c (api_context (Some key') uuid' actor) b' = (Inr r, b')"
    by (rule movement_request_again [OF assms(2,4) b'(1)]) (simp_all add: same_movement_def)
  then show ?thesis
    using fresh [OF assms(6,8), of operation payload _ b'] b'(2) unfolding request
    by (metis (no_types, lifting) case_prod_conv prod.collapse)
qed

section \<open>A first customer\<close>

definition demo_api :: "(api_response pg_idempotency, pg_events, pg_snapshots, pg_transactions) api" where
  "demo_api =
     \<lparr>ap_idempotency = postgres_idempotency_repository, ap_hashRequest = (\<lambda>operation payload. operation),
      ap_bank = pg_bank (\<lambda>n. \<lparr>st_uuid = show_nat n, st_now = int n\<rparr>) (\<lambda>s. 0)\<rparr>"

definition demo_customer ::
  "(js_error + api_response) \<times> api_response pg_idempotency \<times> (pg_events, pg_snapshots, pg_transactions) bank" where
  "demo_customer =
     api_command demo_api ''u'' (Some ''k'') (PostAccount ''A'' ''O'' ''USD'' None)
       ([], \<lparr>bk_stores = empty_pg_stores, bk_txns = []\<rparr>)"

theorem repeated_request_changes_nothing_witness:
  "fst demo_customer = Inr (Accepted ''accepted'')
   \<and> api_command demo_api ''v'' (Some ''k'') (PostAccount ''A'' ''O'' ''USD'' None) (snd demo_customer) = demo_customer"
proof -
  have accepted: "fst demo_customer = Inr (Accepted ''accepted'')" by code_simp
  have "api_command demo_api ''u'' (Some ''k'') (PostAccount ''A'' ''O'' ''USD'' None)
      ([], \<lparr>bk_stores = empty_pg_stores, bk_txns = []\<rparr>) = (Inr (Accepted ''accepted''), snd demo_customer)"
    using accepted by (simp add: demo_customer_def prod_eq_iff)
  from repeated_request_changes_nothing [of demo_api, OF _ _ this, of "''v''"]
  have "api_command demo_api ''v'' (Some ''k'') (PostAccount ''A'' ''O'' ''USD'' None) (snd demo_customer)
      = (Inr (Accepted ''accepted''), snd demo_customer)"
    by (simp add: demo_api_def pi_inv_def)
  with accepted show ?thesis by (simp add: prod_eq_iff)
qed

theorem repeated_movement_moves_no_money_witness:
  "\<exists>s' i. api_command demo_api ''u'' (Some ''k2'') (PostDeposit ''A'' (JsFin 5) ''USD'' ''T'' None) (snd demo_customer)
      = (Inr (Accepted ''accepted''), s')
    \<and> api_command demo_api ''u'' (Some ''k3'') (PostDeposit ''A'' (JsFin 5) ''USD'' ''T'' None) s'
      = (Inr (Accepted ''accepted''), (i, snd s'))"
proof -
  let ?paid = "api_command demo_api ''u'' (Some ''k2'') (PostDeposit ''A'' (JsFin 5) ''USD'' ''T'' None) (snd demo_customer)"
  have "fst ?paid = Inr (Accepted ''accepted'')" by code_simp
  then have paid: "?paid = (Inr (Accepted ''accepted''), snd ?paid)" by (simp add: prod_eq_iff)
  have "pi_inv (fst (snd demo_customer)) \<and> pi_lookup (fst (snd demo_customer)) ''k2'' = None" 
    unfolding pi_inv_def by code_simp
  moreover have "bk_txns (snd (snd demo_customer)) = []" by code_simp
  then have "pt_inv (bk_txns (snd (snd demo_customer)))" by (simp add: pt_inv_def)
  moreover have "pi_lookup (fst (snd ?paid)) ''k3'' = None" by code_simp
  ultimately have "\<exists>i. api_command demo_api ''u'' (Some ''k3'') (PostDeposit ''A'' (JsFin 5) ''USD'' ''T'' None) (snd ?paid)
      = (Inr (Accepted ''accepted''), (i, snd (snd ?paid)))"
    using repeated_movement_moves_no_money [OF _ _ _ _ _ _ _ _ _ paid, of "''k3''" "''A''" "JsFin 5" "''USD''" "''T''" None "''u''"]
    by (simp add: demo_api_def pg_bank_def)
  with paid show ?thesis by blast
qed

end
