(* ===== verification/Consumers.thy ===== *)
theory Consumers
  imports ProjectionRunner Observability Outbox
begin

text \<open>
  The way of the events from the outbox to the read models: the two Kafka consumers of
  \<open>src/infrastructure/projections\<close>, which project what the publisher has sent, and the poller that reports the
  backlog of the outbox.  The work of one message is modelled without other work in between.
\<close>

section \<open>The consumers\<close>

text \<open>
  A message has no value, or one that \<open>JSON.parse\<close> takes for an event, or one it throws at.
  \<open>durationSeconds\<close> is the measured duration.
\<close>

record ('r, 'p) consumer =
  cn_views :: "('r, 'p) views"
  cn_metrics :: observability

definition record_message :: "string \<Rightarrow> string \<Rightarrow> string \<Rightarrow> js_number \<Rightarrow> (('r, 'p) consumer, unit) prog" where
  "record_message name topic outcome durationSeconds =
     modifies (\<lambda>c. c\<lparr>cn_metrics := recordKafkaMessage name topic outcome durationSeconds (cn_metrics c)\<rparr>)"

definition eachMessage ::
  "string \<Rightarrow> string \<Rightarrow> (domain_event \<Rightarrow> (('r, 'p) views, bool) prog) \<Rightarrow> js_number \<Rightarrow> domain_event result option
     \<Rightarrow> (('r, 'p) consumer, unit) prog" where
  "eachMessage name topic project durationSeconds value =
     (case value of
        None \<Rightarrow> returns ()
      | Some decoded \<Rightarrow>
          catching
            (and_then (of_result decoded) (\<lambda>event.
             and_then (on_field cn_views (\<lambda>v c. c\<lparr>cn_views := v\<rparr>) (project event)) (\<lambda>handled.
               record_message name topic ''success'' durationSeconds)))
            (\<lambda>err. and_then (record_message name topic ''failure'' durationSeconds) (\<lambda>_. throws err)))"

definition account_eachMessage ::
  "('es, 'r, 'p) projections \<Rightarrow> js_number \<Rightarrow> domain_event result option \<Rightarrow> (('r, 'p) consumer, unit) prog" where
  "account_eachMessage d = eachMessage ''AccountEventsConsumerService'' ''account-events'' (run_account_projector d)"

definition transfer_eachMessage ::
  "('es, 'r, 'p) projections \<Rightarrow> js_number \<Rightarrow> domain_event result option \<Rightarrow> (('r, 'p) consumer, unit) prog" where
  "transfer_eachMessage d = eachMessage ''TransferEventsConsumerService'' ''transfer-events'' (run_transfer_projector d)"

text \<open>\<open>collectOutboxMetrics\<close>: the number of unpublished rows and the age of the oldest in seconds; times in milliseconds.\<close>

definition collectOutboxMetrics :: "int \<Rightarrow> outbox_table \<Rightarrow> observability \<Rightarrow> observability" where
  "collectOutboxMetrics now t =
     (let pending = filter (\<lambda>r. om_publishedAt r = None) t
      in setOutboxBacklog (js_decimal (length pending) 0)
           (if pending = [] then JsFin 0 else js_round (of_int (now - Min (set (map om_createdAt pending))) / 1000)))"

section \<open>A partition\<close>

text \<open>
  The broker hands the messages of a partition to the consumer in their order; a message whose handler throws is
  handed out again, and so may be earlier ones when the group is rebalanced.  Meanwhile the other
  consumer may have changed the read model of the transfers, into one that can be read.
\<close>

datatype 'p broker_act = Offer js_number | Rewind nat | Elsewhere 'p

inductive account_partition ::
  "('es, 'r, 'p) projections \<Rightarrow> domain_event list \<Rightarrow> nat \<times> ('r, 'p) consumer \<Rightarrow> 'p broker_act \<Rightarrow> nat \<times> ('r, 'p) consumer \<Rightarrow> bool"
  for d topic where
  handled: "p < length topic \<Longrightarrow> account_eachMessage d t (Some (Inr (topic ! p))) c = (Inr (), c') \<Longrightarrow>
    account_partition d topic (p, c) (Offer t) (Suc p, c')"
| thrown: "p < length topic \<Longrightarrow> account_eachMessage d t (Some (Inr (topic ! p))) c = (Inl err, c') \<Longrightarrow>
    account_partition d topic (p, c) (Offer t) (p, c')"
| rewound: "p' \<le> p \<Longrightarrow> account_partition d topic (p, c) (Rewind p') (p', c)"
| elsewhere: "\<forall>i. \<exists>s. tp_getSummary (pr_transfers d) i q = Inr s \<Longrightarrow>
    account_partition d topic (p, c) (Elsewhere q) (p, c\<lparr>cn_views := (cn_views c)\<lparr>vw_transfers := q\<rparr>\<rparr>)"

inductive_cases account_partitionE: "account_partition d topic (p, c) l (p', c')"

definition transfers_readable :: "('es, 'r, 'p) projections \<Rightarrow> ('r, 'p) consumer \<Rightarrow> bool" where
  "transfers_readable d c \<longleftrightarrow> (\<forall>i. \<exists>s. tp_getSummary (pr_transfers d) i (vw_transfers (cn_views c)) = Inr s)"

lemma eachMessage_project:
  "account_eachMessage d t (Some (Inr e)) c =
     (case run_account_projector d e (cn_views c) of
        (Inr _, v) \<Rightarrow> record_message ''AccountEventsConsumerService'' ''account-events'' ''success'' t (c\<lparr>cn_views := v\<rparr>)
      | (Inl err, v) \<Rightarrow> (Inl err, snd (record_message ''AccountEventsConsumerService'' ''account-events'' ''failure'' t (c\<lparr>cn_views := v\<rparr>))))"
  by (simp add: account_eachMessage_def eachMessage_def on_field_def and_then_def catching_def record_message_def
      split: prod.split sum.split)

lemma eachMessage_views:
  assumes "account_eachMessage d t (Some (Inr e)) c = (res, c')"
    and "project_account (pr_accounts d) (\<lambda>i. tp_getSummary (pr_transfers d) i (vw_transfers (cn_views c))) e (vw_accounts (cn_views c)) = (x, r)"
  shows "cn_views c' = (cn_views c)\<lparr>vw_accounts := r\<rparr> \<and> (res = Inr () \<longleftrightarrow> (\<exists>h. x = Inr h))"
  using assms by (cases x) (auto simp: eachMessage_project run_account_projector_def on_field_def record_message_def)

section \<open>Consuming histories\<close>

context account_read_model
begin

text \<open>An event of a history is passed over, taken over or thrown at, as it comes late, in time or too early.\<close>

lemma offer_projected:
  assumes "projected S k (vw_accounts (cn_views c))" "\<And>a. account_log a (S a)" "ids_apart S" "transfers_readable d c"
    and "pr_accounts d = ops" "j < length (S a)" "account_eachMessage d t (Some (Inr (S a ! j))) c = (res, c')"
  shows "projected S (if j = k a then k(a := Suc j) else k) (vw_accounts (cn_views c')) \<and> transfers_readable d c'
    \<and> (res = Inr () \<longleftrightarrow> j \<le> k a)"
proof -
  let ?lookup = "\<lambda>i. tp_getSummary (pr_transfers d) i (vw_transfers (cn_views c))"
  have total: "\<forall>i. \<exists>s. ?lookup i = Inr s" using assms(4) by (simp add: transfers_readable_def)
  consider "j < k a" | "j = k a" | "k a < j" by linarith
  then obtain x r where x: "project_account ops ?lookup (S a ! j) (vw_accounts (cn_views c)) = (x, r)"
      "projected S (if j = k a then k(a := Suc j) else k) r" "(\<exists>h. x = Inr h) \<longleftrightarrow> j \<le> k a"
  proof cases
    case 1
    then show ?thesis
      using project_old [OF assms(1,2), of j a ?lookup] assms(1) by (intro that [of "Inr True" "vw_accounts (cn_views c)"]) auto
  next
    case 2
    then obtain r where "project_account ops ?lookup (S a ! j) (vw_accounts (cn_views c)) = (Inr True, r)"
        "projected S (k(a := Suc j)) r"
      using project_due [OF assms(1,2,3) _ total, of a] assms(6) by auto
    then show ?thesis using 2 by (intro that [of "Inr True" r]) auto
  next
    case 3
    then show ?thesis using project_ahead [OF assms(1,2) _ assms(6), of ?lookup] assms(1) by (intro that) auto
  qed
  from eachMessage_views [OF assms(7) x(1) [folded assms(5)]] x(2,3) assms(4) show ?thesis
    by (simp add: transfers_readable_def)
qed

end

text \<open>Each event comes after those before it in its history (and possibly again).\<close>

definition in_order :: "(string \<Rightarrow> domain_event list) \<Rightarrow> domain_event list \<Rightarrow> bool" where
  "in_order S topic \<longleftrightarrow> (\<forall>n < length topic. \<exists>a j. j < length (S a) \<and> topic ! n = S a ! j \<and> set (take j (S a)) \<subseteq> set (take n topic))"

context account_read_model
begin

text \<open>How far the read models are when the messages before place \<open>p\<close> have been handled.\<close>

definition consumed :: "(string \<Rightarrow> domain_event list) \<Rightarrow> ('es, 'r, 'p) projections \<Rightarrow> domain_event list \<Rightarrow> nat \<times> ('r, 'p) consumer \<Rightarrow> bool" where
  "consumed S d topic x \<longleftrightarrow> fst x \<le> length topic \<and> transfers_readable d (snd x)
     \<and> (\<exists>k. projected S k (vw_accounts (cn_views (snd x)))
          \<and> (\<forall>a j. j < length (S a) \<longrightarrow> S a ! j \<in> set (take (fst x) topic) \<longrightarrow> j < k a))"

lemma consumed_offer:
  assumes "consumed S d topic (p, c)" "\<And>a. account_log a (S a)" "ids_apart S" "in_order S topic" "pr_accounts d = ops"
    and "p < length topic" "account_eachMessage d t (Some (Inr (topic ! p))) c = (res, c')"
  shows "res = Inr () \<and> consumed S d topic (Suc p, c')"
proof -
  obtain k where k: "projected S k (vw_accounts (cn_views c))" "transfers_readable d c"
      "\<And>a j. j < length (S a) \<Longrightarrow> S a ! j \<in> set (take p topic) \<Longrightarrow> j < k a"
    using assms(1) by (auto simp: consumed_def)
  obtain a j where j: "j < length (S a)" "topic ! p = S a ! j" "set (take j (S a)) \<subseteq> set (take p topic)"
    using assms(4,6) by (auto simp: in_order_def)
  have le: "j \<le> k a"
  proof (cases j)
    case (Suc i)
    then have "S a ! i \<in> set (take j (S a))" using j(1) by (auto simp: in_set_conv_nth intro: exI [of _ i])
    then show ?thesis using k(3) [of i a] j(1,3) Suc by auto
  qed simp
  let ?k = "if j = k a then k(a := Suc j) else k"
  have step: "projected S ?k (vw_accounts (cn_views c'))" "transfers_readable d c'" "res = Inr ()"
    using offer_projected [OF k(1) assms(2,3) k(2) assms(5) j(1) assms(7) [unfolded j(2)]] le by auto
  have "i < ?k b" if i: "i < length (S b)" "S b ! i \<in> set (take (Suc p) topic)" for b i
  proof (cases "S b ! i = topic ! p")
    case True
    then have "b = a \<and> i = j" using assms(3) i(1) j(1,2) by (auto simp: ids_apart_def)
    then show ?thesis using le by auto
  next
    case False
    then show ?thesis using k(3) [of i b] i assms(6) by (auto simp: take_Suc_conv_app_nth)
  qed
  then have "consumed S d topic (Suc p, c')" using step(1,2) assms(6) by (auto simp: consumed_def)
  with step(3) show ?thesis by blast
qed

lemma consumed_step:
  assumes "account_partition d topic x l y" "consumed S d topic x" "\<And>a. account_log a (S a)" "ids_apart S" "in_order S topic"
    and "pr_accounts d = ops"
  shows "consumed S d topic y"
  using assms(1)
proof cases
  case (handled p t c c')
  then show ?thesis using consumed_offer [OF assms(2)[unfolded handled(1)] assms(3-6)] by blast
next
  case (thrown p t c err c')
  then show ?thesis using consumed_offer [OF assms(2)[unfolded thrown(1)] assms(3-6)] by blast
next
  case (rewound p' p c)
  then have "set (take p' topic) \<subseteq> set (take p topic)" by (auto intro: set_take_subset_set_take [THEN subsetD])
  with assms(2) rewound show ?thesis by (auto simp: consumed_def)
next
  case (elsewhere q p c)
  then show ?thesis using assms(2) by (auto simp: consumed_def transfers_readable_def)
qed

end

context account_read_model
begin

lemma consumed_path:
  assumes "path (account_partition d topic) x ls y" "consumed S d topic x" "\<And>a. account_log a (S a)" "ids_apart S" "in_order S topic"
    and "pr_accounts d = ops"
  shows "consumed S d topic y"
  using assms(1,2) by (rule path_invariant) (rule consumed_step [OF _ _ assms(3-6)])

text \<open>An event that comes before its predecessor is never handled, nor is anything behind it.\<close>

definition held_up :: "(string \<Rightarrow> domain_event list) \<Rightarrow> ('es, 'r, 'p) projections \<Rightarrow> domain_event list \<Rightarrow> nat \<Rightarrow> nat \<times> ('r, 'p) consumer \<Rightarrow> bool" where
  "held_up S d topic n x \<longleftrightarrow> fst x \<le> n \<and> transfers_readable d (snd x)
     \<and> (\<exists>k. projected S k (vw_accounts (cn_views (snd x))) \<and> (\<forall>a. set (take (k a) (S a)) \<subseteq> set (take n topic)))"

lemma held_up_step:
  assumes "account_partition d topic x l y" "held_up S d topic n x" "\<And>a. account_log a (S a)" "ids_apart S" "pr_accounts d = ops"
    and "set topic \<subseteq> (\<Union>a. set (S a))" "n < length topic" "Suc i < length (S b)" "topic ! n = S b ! Suc i" "S b ! i \<notin> set (take n topic)"
  shows "held_up S d topic n y"
proof -
  have offered: "held_up S d topic n (if res = Inr () then Suc p else p, c')"
    if offer: "account_eachMessage d t (Some (Inr (topic ! p))) c = (res, c')" "x = (p, c)" for p c t res c'
  proof -
    obtain k where k: "p \<le> n" "projected S k (vw_accounts (cn_views c))" "transfers_readable d c"
        "\<And>a. set (take (k a) (S a)) \<subseteq> set (take n topic)"
      using assms(2) offer(2) by (auto simp: held_up_def)
    then have "topic ! p \<in> set topic" using assms(7) by simp
    then obtain a where "topic ! p \<in> set (S a)" using assms(6) by blast
    then obtain j where j: "j < length (S a)" "topic ! p = S a ! j" by (auto simp: in_set_conv_nth)
    let ?k = "if j = k a then k(a := Suc j) else k"
    have step: "projected S ?k (vw_accounts (cn_views c'))" "transfers_readable d c'" "res = Inr () \<longleftrightarrow> j \<le> k a"
      using offer_projected [OF k(2) assms(3,4) k(3) assms(5) j(1) offer(1) [unfolded j(2)]] by auto
    have blocked: "p = n \<Longrightarrow> k a < j"
    proof -
      assume "p = n"
      then have "a = b \<and> j = Suc i" using j assms(4,8,9) by (auto simp: ids_apart_def)
      moreover have "k b \<le> i"
      proof (rule ccontr)
        assume "\<not> k b \<le> i"
        then have "S b ! i \<in> set (take (k b) (S b))" using assms(8) by (auto simp: in_set_conv_nth intro!: exI [of _ i])
        then show False using k(4) assms(10) by blast
      qed
      ultimately show ?thesis by simp
    qed
    have "set (take (?k a') (S a')) \<subseteq> set (take n topic)" for a'
    proof (cases "j = k a \<and> a' = a")
      case True
      then have "p < n" using blocked k(1) by (cases "p = n") auto
      then have "topic ! p \<in> set (take n topic)" using assms(7) by (auto simp: in_set_conv_nth intro!: exI [of _ p])
      then show ?thesis using True k(4) [of a] j by (auto simp: take_Suc_conv_app_nth)
    next
      case False
      then show ?thesis using k(4) [of a'] by auto
    qed
    moreover have "(if res = Inr () then Suc p else p) \<le> n" using step(3) blocked k(1) by (cases "p = n") auto
    ultimately show ?thesis using step(1,2) unfolding held_up_def by auto
  qed
  show ?thesis using assms(1)
  proof cases
    case (handled p t c c')
    then show ?thesis using offered [OF handled(5,1)] by simp
  next
    case (thrown p t c err c')
    then show ?thesis using offered [OF thrown(5,1)] by simp
  next
    case (rewound p' p c)
    then show ?thesis using assms(2) by (auto simp: held_up_def)
  next
    case (elsewhere q p c)
    then show ?thesis using assms(2) by (auto simp: held_up_def transfers_readable_def)
  qed
qed

end

section \<open>Properties\<close>

definition new_consumer :: "pg_transfers \<Rightarrow> observability \<Rightarrow> (pg_accounts, pg_transfers) consumer" where
  "new_consumer q ob = \<lparr>cn_views = \<lparr>vw_accounts = empty_pg_accounts, vw_transfers = q\<rparr>, cn_metrics = ob\<rparr>"

lemma new_consumer_readable: "pp_inv q \<Longrightarrow> transfers_readable (postgres_projections place) (new_consumer q ob)"
  using pp_getSummary_eq [of q]
  by (simp add: transfers_readable_def new_consumer_def postgres_projections_def postgres_transfer_reads_def)

lemma postgres_views: "pr_accounts (postgres_projections place) = postgres_account_reads"
  by (simp add: postgres_projections_def)

lemma consumed_topic:
  assumes "\<And>x. account_log x (S x)" and "ids_apart S" and "in_order S topic" and "pp_inv q"
    and "path (account_partition (postgres_projections place) topic) (0, new_consumer q ob) ls (p, c)"
  shows "(p < length topic \<longrightarrow> fst (account_eachMessage (postgres_projections place) t (Some (Inr (topic ! p))) c) = Inr ())
    \<and> (p = length topic \<and> set (S a) \<subseteq> set topic \<longrightarrow>
         pa_getSummary a (vw_accounts (cn_views c)) = Inr (account_view (S a))
         \<and> (\<exists>entries. pa_getStatement a limit offset (vw_accounts (cn_views c)) = Inr (take limit (drop offset entries))
              \<and> map without_details entries = map (without_details \<circ> event_entry a) (S a)))"
proof -
  let ?d = "postgres_projections place"
  have "postgres_accounts.consumed S ?d topic (0, new_consumer q ob)"
    using new_consumer_readable [OF assms(4)] empty_projected(1) [of S]
    by (auto simp: postgres_accounts.consumed_def new_consumer_def intro!: exI [of _ "\<lambda>a. 0"])
  from postgres_accounts.consumed_path [OF assms(5) this assms(1-3) postgres_views]
  have c: "postgres_accounts.consumed S ?d topic (p, c)" .
  have "fst (account_eachMessage ?d t (Some (Inr (topic ! p))) c) = Inr ()" if "p < length topic"
    using postgres_accounts.consumed_offer [OF c assms(1-3) postgres_views that prod.collapse [symmetric]] by blast
  moreover have "pa_getSummary a (vw_accounts (cn_views c)) = Inr (account_view (S a))
      \<and> (\<exists>entries. pa_getStatement a limit offset (vw_accounts (cn_views c)) = Inr (take limit (drop offset entries))
           \<and> map without_details entries = map (without_details \<circ> event_entry a) (S a))"
    if "p = length topic" "set (S a) \<subseteq> set topic"
  proof -
    obtain k where k: "postgres_accounts.projected S k (vw_accounts (cn_views c))"
        "\<And>j. j < length (S a) \<Longrightarrow> S a ! j \<in> set topic \<Longrightarrow> j < k a"
      using c \<open>p = length topic\<close> unfolding postgres_accounts.consumed_def by auto
    have "S a ! (length (S a) - 1) \<in> set topic" if "S a \<noteq> []" using \<open>set (S a) \<subseteq> set topic\<close> that by auto
    then have "length (S a) \<le> k a" using k(2) [of "length (S a) - 1"] by (cases "S a") auto
    moreover have "pa_inv (vw_accounts (cn_views c))" using k(1) by (simp add: postgres_accounts.projected_def)
    ultimately show ?thesis
      using k(1) postgres_accounts.get_summary postgres_accounts.get_statement
      by (auto simp: postgres_accounts.projected_def postgres_account_reads_def intro!: exI [of _ "pa_statement (vw_accounts (cn_views c)) a"])
  qed
  ultimately show ?thesis by blast
qed

text \<open>From the topic to the read models: if the publisher has sent the events of each account in the order of its history,
  the consumer never throws, however often the broker starts it over and whatever the consumer of the
  transfers does meanwhile; and whenever it has come to the end of the topic, the read models show each account
  whose whole history was sent as its aggregate is: the summary is the state after the whole history, and the
  statement lists the entries of its events.\<close>

theorem ordered_topic_is_consumed:
  assumes "\<And>x. account_log x (S x)" and "ids_apart S" and "in_order S topic" and "pp_inv q"
    and "path (account_partition (postgres_projections place) topic) (0, new_consumer q ob) ls (p, c)"
  shows "(p < length topic \<longrightarrow> fst (account_eachMessage (postgres_projections place) t (Some (Inr (topic ! p))) c) = Inr ())
    \<and> (p = length topic \<and> set (S a) \<subseteq> set topic \<longrightarrow>
         pa_getSummary a (vw_accounts (cn_views c)) = Inr (account_view (S a))
         \<and> (\<exists>entries. pa_getStatement a limit offset (vw_accounts (cn_views c)) = Inr (take limit (drop offset entries))
              \<and> map without_details entries = map (without_details \<circ> event_entry a) (S a)))"
  using consumed_topic [OF assms] by blast

lemma early_event_held_up:
  assumes "\<And>x. account_log x (S x)" and "ids_apart S" and "set topic \<subseteq> (\<Union>x. set (S x))" and "pp_inv q"
    and "n < length topic" and "Suc i < length (S b)" and "topic ! n = S b ! Suc i" and "S b ! i \<notin> set (take n topic)"
    and "path (account_partition (postgres_projections place) topic) (0, new_consumer q ob) ls (p, c)"
  shows "postgres_accounts.held_up S (postgres_projections place) topic n (p, c)"
proof -
  have "postgres_accounts.held_up S (postgres_projections place) topic n (0, new_consumer q ob)"
    using new_consumer_readable [OF assms(4)] empty_projected(1) [of S]
    by (auto simp: postgres_accounts.held_up_def new_consumer_def intro!: exI [of _ "\<lambda>a. 0"])
  with assms(9) show ?thesis
    by (rule path_invariant)
      (rule postgres_accounts.held_up_step [OF _ _ assms(1,2) postgres_views assms(3,5-8)])
qed

text \<open>But an event that was sent before its predecessor stops the consumer for good: it throws at that message each time,
  and no message behind it, of whatever account, is ever handled.\<close>

theorem early_event_holds_up_the_topic:
  assumes "\<And>x. account_log x (S x)" and "ids_apart S" and "set topic \<subseteq> (\<Union>x. set (S x))" and "pp_inv q"
    and "n < length topic" and "Suc i < length (S b)" and "topic ! n = S b ! Suc i" and "S b ! i \<notin> set (take n topic)"
    and "path (account_partition (postgres_projections place) topic) (0, new_consumer q ob) ls (p, c)"
  shows "p \<le> n"
  using early_event_held_up [OF assms] by (simp add: postgres_accounts.held_up_def)

section \<open>What the publisher makes of a refusal\<close>

lemma append_two:
  assumes "pg_append sid [u1, u2] 0 empty_pg_events = (Inr (), s)"
  shows "\<exists>e1 e2. pg_stream s sid = [e1, e2] \<and> pg_outbox s = [pg_message sid e1 1, pg_message sid e2 2] \<and> ev_eventId e1 \<noteq> ev_eventId e2"
  using assms
  by (auto simp: pg_append_def max_version_def empty_pg_events_def insert_event_def violates_unique_def outbox_insert_def
      pg_message_def pg_stream_def Let_def split: if_splits)

lemma publish_two:
  assumes "ev_eventId e1 \<noteq> ev_eventId e2"
  shows "map om_payload (pb_sent (publisher_turns (postgres_outbox_store (\<lambda>rows. rows) {} t)
      (\<lambda>k m. (if k = 0 then Some err else None, Suc k)) [now1, now2]
      \<lparr>pb_outbox = [pg_message sid e1 1, pg_message sid e2 2], pb_broker = 0, pb_sent = []\<rparr>)) = [e2, e1]"
  using assms
  by (simp add: publisher_turn_def postgres_outbox_store_def po_claimPending_def po_pending_def po_key_def pg_message_def Let_def
      BATCH_SIZE_def publish_message_def po_markPublished_def po_markFailed_def outbox_message.defs)

text \<open>C6: And the publisher does send events out of order: one refusal by the broker is enough.  An account is opened and
  paid into; the broker refuses the first message once, the publisher goes on with the second and sends
  the first one later.  Everything is sent and nothing is left in the outbox, but the account is never
  shown: the consumer throws at the deposit, whose account it does not know, for ever.\<close>

theorem one_refusal_stops_the_projection:
  assumes "\<And>x. account_log x (S x)" and "ids_apart S" and "pp_inv q"
    and "pg_append (account_stream a) [u1, u2] 0 empty_pg_events = (Inr (), s)" and "pg_stream s (account_stream a) = S a"
    and "topic = map om_payload (pb_sent (publisher_turns (postgres_outbox_store (\<lambda>rows. rows) {} t)
      (\<lambda>k m. (if k = 0 then Some err else None, Suc k)) [now1, now2] \<lparr>pb_outbox = pg_outbox s, pb_broker = 0, pb_sent = []\<rparr>))"
    and "path (account_partition (postgres_projections place) topic) (0, new_consumer q ob) ls (p, c)"
  shows "mset topic = mset (S a) \<and> p = 0 \<and> pa_getSummary a (vw_accounts (cn_views c)) = Inr None"
proof -
  obtain e1 e2 where e: "S a = [e1, e2]" "topic = [e2, e1]" "ev_eventId e1 \<noteq> ev_eventId e2"
    using append_two [OF assms(4)] publish_two [where sid = "account_stream a" and t = t and err = err and ?now1.0 = now1 and ?now2.0 = now2] assms(5,6) by auto
  have "set topic \<subseteq> (\<Union>x. set (S x))" using e(1,2) by (auto intro!: exI [of _ a])
  then have "postgres_accounts.held_up S (postgres_projections place) topic 0 (p, c)"
    by (rule early_event_held_up [OF assms(1,2) _ assms(3) _ _ _ _ assms(7), of 0 0 a]) (simp_all add: e)
  then obtain k where "p = 0" "postgres_accounts.projected S k (vw_accounts (cn_views c))" "set (take (k a) (S a)) \<subseteq> {}"
    by (auto simp: postgres_accounts.held_up_def)
  then have "pa_inv (vw_accounts (cn_views c))" "pa_summary (vw_accounts (cn_views c)) a = account_view []" "p = 0"
    by (auto simp: postgres_accounts.projected_def)
  then show ?thesis
    using e postgres_accounts.get_summary [of "vw_accounts (cn_views c)" a] by (simp add: postgres_account_reads_def account_view_def)
qed

text \<open>C7: A single freeze of an account that does not exist has the same effect on all accounts: the command is accepted,
  its event names no account, and the consumer never gets past it.\<close>

theorem freeze_of_missing_account_holds_up_the_topic:
  assumes "account_operation (FreezeAccount reason) ctx st new_account = Inr (x, [e])" and "n < length topic"
    and "ev_data (topic ! n) = ev_data e"
    and "path (account_partition d topic) (0, c0) ls (p, c)"
  shows "p \<le> n"
proof -
  have "ev_data (topic ! n) = AccountFrozen None reason"
    using assms(1,3) by (auto simp: new_account_def new_account_state_def account_command_defs account_simps split: if_splits)
  then have stuck: "account_eachMessage d t (Some (Inr (topic ! n))) c \<noteq> (Inr (), c')" for t c c'
    by (auto simp: eachMessage_project run_account_projector_def on_field_def undefined_freeze_fails)
  have "fst (p, c) \<le> n" using assms(4)
  proof (rule path_invariant)
    fix x l y assume le: "fst x \<le> n" and step: "account_partition d topic x l y"
    from step show "fst y \<le> n"
    proof cases
      case (handled p t c c')
      with le stuck show ?thesis by (cases "p = n") auto
    qed (use le in auto)
  qed simp
  then show ?thesis by simp
qed

section \<open>Examples\<close>

lemma sample_history_three [simp]: "length sample_history = 3"
proof -
  have "length (map ev_eventId sample_history) = 3" unfolding sample_history_ids by simp
  then show ?thesis by simp
qed

lemma sample_history_first: "take 2 sample_history = [sample_history ! 0, sample_history ! 1]"
  by (simp add: numeral_2_eq_2 take_Suc_conv_app_nth)

lemma sample_history_apart: "ev_eventId (sample_history ! 0) \<noteq> ev_eventId (sample_history ! 1)"
proof -
  have "ev_eventId (sample_history ! i) = [''e1'', ''e2'', ''e3''] ! i" if "i < 3" for i
    using that sample_history_ids by (metis nth_map sample_history_three)
  from this [of 0] this [of 1] show ?thesis by simp
qed

lemma sample_in_order: "in_order sample_histories sample_history"
  unfolding in_order_def
  by (auto simp: sample_histories_def set_take_subset_set_take [of _ _ sample_history] intro!: exI [of _ "''a''"])

definition sample_consumer :: "(pg_accounts, pg_transfers) consumer" where
  "sample_consumer = new_consumer [] (new_observability 0)"

lemma empty_pp_inv: "pp_inv []"
  by (simp add: pp_inv_def)

theorem ordered_topic_is_consumed_witness:
  "\<exists>ls c. path (account_partition (postgres_projections (\<lambda>_. 0)) sample_history) (0, sample_consumer) ls (3, c)
     \<and> pa_getSummary ''a'' (vw_accounts (cn_views c)) = Inr (account_view sample_history)"
proof -
  let ?d = "postgres_projections (\<lambda>_. 0)"
  note consumed = ordered_topic_is_consumed [OF sample_histories_ok(1,2) sample_in_order empty_pp_inv, of "\<lambda>_. 0" "new_observability 0",
      folded sample_consumer_def]
  have "\<exists>ls c. path (account_partition ?d sample_history) (0, sample_consumer) ls (p, c)" if "p \<le> 3" for p
    using that
  proof (induction p)
    case 0
    show ?case by (intro exI) (rule path_Nil)
  next
    case (Suc p)
    then obtain ls c where c: "path (account_partition ?d sample_history) (0, sample_consumer) ls (p, c)" by auto
    then have "fst (account_eachMessage ?d (JsFin 1) (Some (Inr (sample_history ! p))) c) = Inr ()"
      using consumed [OF c] Suc.prems by simp
    then obtain c' where "account_eachMessage ?d (JsFin 1) (Some (Inr (sample_history ! p))) c = (Inr (), c')"
      by (metis prod.collapse)
    then have "account_partition ?d sample_history (p, c) (Offer (JsFin 1)) (Suc p, c')"
      using Suc.prems by (intro handled) simp_all
    from path_snoc [OF c this] show ?case by blast
  qed
  then obtain ls c where c: "path (account_partition ?d sample_history) (0, sample_consumer) ls (3, c)" by blast
  moreover from consumed [OF c, of _ "''a''"]
  have "pa_getSummary ''a'' (vw_accounts (cn_views c)) = Inr (account_view sample_history)" by (auto simp: sample_histories_def)
  ultimately show ?thesis by blast
qed

text \<open>The deposit of the sample account, sent before the opening of the account.\<close>

theorem early_event_holds_up_the_topic_witness:
  "\<not> (\<exists>ls c. path (account_partition (postgres_projections (\<lambda>_. 0)) [sample_history ! 1, sample_history ! 0, sample_history ! 2])
       (0, sample_consumer) ls (1, c))"
proof
  let ?topic = "[sample_history ! 1, sample_history ! 0, sample_history ! 2]"
  assume "\<exists>ls c. path (account_partition (postgres_projections (\<lambda>_. 0)) ?topic) (0, sample_consumer) ls (1, c)"
  then obtain ls c where c: "path (account_partition (postgres_projections (\<lambda>_. 0)) ?topic) (0, new_consumer [] (new_observability 0)) ls (1, c)"
    by (auto simp: sample_consumer_def)
  have "set ?topic \<subseteq> (\<Union>x. set (sample_histories x))" "Suc 0 < length (sample_histories ''a'')" "?topic ! 0 = sample_histories ''a'' ! Suc 0"
    by (auto simp: sample_histories_def intro!: exI [of _ "''a''"])
  from early_event_holds_up_the_topic [OF sample_histories_ok(1,2) this(1) empty_pp_inv _ this(2,3) _ c] show False by simp
qed

definition opened_and_paid :: "string \<Rightarrow> domain_event list" where
  "opened_and_paid x = take 2 (sample_histories x)"

lemma opened_and_paid_ok: "account_log x (opened_and_paid x)" "ids_apart opened_and_paid"
proof -
  show "account_log x (opened_and_paid x)"
    using account_log_take [OF sample_histories_ok(1)] by (simp add: opened_and_paid_def)
  show "ids_apart opened_and_paid"
    using sample_histories_ok(2) by (auto simp: opened_and_paid_def ids_apart_def)
qed

definition opened_store :: pg_events where
  "opened_store = snd (pg_append (account_stream ''a'') [sample_history ! 0, sample_history ! 1] 0 empty_pg_events)"

lemma append_two_fresh:
  assumes "ev_eventId e1 \<noteq> ev_eventId e2" "e1\<lparr>ev_streamId := sid, ev_streamVersion := 1\<rparr> = e1" "e2\<lparr>ev_streamId := sid, ev_streamVersion := 2\<rparr> = e2"
  shows "\<exists>s. pg_append sid [e1, e2] 0 empty_pg_events = (Inr (), s) \<and> pg_stream s sid = [e1, e2]"
proof -
  have "ev_streamId e1 = sid" "ev_streamVersion e1 = 1" "ev_streamId e2 = sid" "ev_streamVersion e2 = 2"
    using arg_cong [OF assms(2), of ev_streamId] arg_cong [OF assms(2), of ev_streamVersion]
      arg_cong [OF assms(3), of ev_streamId] arg_cong [OF assms(3), of ev_streamVersion] by simp_all
  then show ?thesis
    using assms by (simp add: pg_append_def max_version_def empty_pg_events_def insert_event_def violates_unique_def pg_stream_def Let_def)
qed

lemma opened_store_facts:
  "pg_append (account_stream ''a'') [sample_history ! 0, sample_history ! 1] 0 empty_pg_events = (Inr (), opened_store)"
  "pg_stream opened_store (account_stream ''a'') = opened_and_paid ''a''"
proof -
  have "number_from (pg_restamp ''account-a'') 0 sample_history = sample_history"
    by (simp add: sample_history_def new_account_def account_command_defs account_simps parse_750 pg_restamp_def,
        simp add: new_account_state_def show_opt_def)
  then have "number_from (pg_restamp ''account-a'') 0 (take 2 sample_history @ drop 2 sample_history) = take 2 sample_history @ drop 2 sample_history"
    by simp
  then have restamp: "(sample_history ! 0)\<lparr>ev_streamId := ''account-a'', ev_streamVersion := 1\<rparr> = sample_history ! 0"
      "(sample_history ! 1)\<lparr>ev_streamId := ''account-a'', ev_streamVersion := 2\<rparr> = sample_history ! 1"
    unfolding sample_history_first by (simp_all add: pg_restamp_def)
  from append_two_fresh [OF sample_history_apart this]
  obtain s where s: "pg_append ''account-a'' [sample_history ! 0, sample_history ! 1] 0 empty_pg_events = (Inr (), s)"
      "pg_stream s ''account-a'' = [sample_history ! 0, sample_history ! 1]" by blast
  have stream: "account_stream ''a'' = ''account-a''" by (simp add: account_stream_def)
  have "opened_store = s" unfolding opened_store_def stream s(1) by simp
  with s show "pg_append (account_stream ''a'') [sample_history ! 0, sample_history ! 1] 0 empty_pg_events = (Inr (), opened_store)"
      "pg_stream opened_store (account_stream ''a'') = opened_and_paid ''a''"
    unfolding stream opened_and_paid_def sample_histories_def by (simp_all only: refl if_True sample_history_first)
qed

theorem one_refusal_stops_the_projection_witness:
  "\<not> (\<exists>ls c. path (account_partition (postgres_projections (\<lambda>_. 0))
       (map om_payload (pb_sent (publisher_turns (postgres_outbox_store (\<lambda>rows. rows) {} 0)
          (\<lambda>k m. (if k = 0 then Some ''broker down'' else None, Suc k)) [1, 2]
          \<lparr>pb_outbox = pg_outbox opened_store, pb_broker = 0, pb_sent = []\<rparr>))))
       (0, sample_consumer) ls (1, c))"
proof
  let ?topic = "map om_payload (pb_sent (publisher_turns (postgres_outbox_store (\<lambda>rows. rows) {} 0)
          (\<lambda>k m. (if k = 0 then Some ''broker down'' else None, Suc k)) [1, 2]
          \<lparr>pb_outbox = pg_outbox opened_store, pb_broker = 0, pb_sent = []\<rparr>))"
  assume "\<exists>ls c. path (account_partition (postgres_projections (\<lambda>_. 0)) ?topic) (0, sample_consumer) ls (1, c)"
  then obtain ls c where c: "path (account_partition (postgres_projections (\<lambda>_. 0)) ?topic) (0, new_consumer [] (new_observability 0)) ls (1, c)"
    unfolding sample_consumer_def by blast
  from one_refusal_stops_the_projection [OF opened_and_paid_ok empty_pp_inv opened_store_facts refl c] show False by simp
qed

theorem freeze_of_missing_account_holds_up_the_topic_witness:
  "\<exists>e. \<not> (\<exists>ls c. path (account_partition (postgres_projections (\<lambda>_. 0)) (e # sample_history)) (0, sample_consumer) ls (1, c))"
proof -
  obtain x e where e: "account_operation (FreezeAccount ''r'') sample_context \<lparr>st_uuid = ''e0'', st_now = 0\<rparr> new_account = Inr (x, [e])"
    by (simp add: new_account_def new_account_state_def account_command_defs account_simps)
  have "\<not> (\<exists>ls c. path (account_partition (postgres_projections (\<lambda>_. 0)) (e # sample_history)) (0, sample_consumer) ls (1, c))"
    using freeze_of_missing_account_holds_up_the_topic [OF e, of 0 "e # sample_history"] by fastforce
  then show ?thesis by blast
qed

end
