(* ===== verification/Migrations.thy ===== *)
theory Migrations
  imports EventStores AccountReadModels Transactions
begin

text \<open>
  \<open>src/infrastructure/db\<close>: the runner of the migrations, the migrations themselves as changes of the schema, and
  the two migrations that change rows.
\<close>

section \<open>The migrations\<close>

text \<open>
  A column is its name and the rest of its declaration, a table constraint a column without a name.  \<open>RowUpdate\<close>
  is an \<open>UPDATE\<close> that sets a column of all rows of a table that need it.  The default '0' is written without quotes.
\<close>

type_synonym column = "string \<times> string"

datatype sql =
    CreateTable string "column list"
  | AddColumns string "column list"
  | CreateIndex string string "string list"
  | CreateUniqueIndex string string "string list"
  | RowUpdate string string

record migration =
  mg_version :: nat
  mg_name :: string
  mg_sql :: "sql list"

definition migration_1 :: migration where
  "migration_1 =
     \<lparr>mg_version = 1, mg_name = ''create-core-event-store-schema'', mg_sql =
     [CreateTable ''events''
        [(''id'', ''BIGSERIAL PRIMARY KEY''), (''event_id'', ''UUID NOT NULL UNIQUE''), (''stream_id'', ''VARCHAR(255) NOT NULL''),
         (''stream_version'', ''INT NOT NULL''), (''event_type'', ''VARCHAR(255) NOT NULL''), (''event_data'', ''JSONB NOT NULL''),
         (''event_metadata'', ''JSONB NOT NULL''), (''occurred_at'', ''TIMESTAMPTZ NOT NULL''),
         (''recorded_at'', ''TIMESTAMPTZ NOT NULL DEFAULT NOW()''), ('''', ''UNIQUE(stream_id, stream_version)'')],
      CreateIndex ''idx_events_stream_id_version'' ''events'' [''stream_id'', ''stream_version''],
      CreateIndex ''idx_events_recorded_at'' ''events'' [''recorded_at''],
      CreateTable ''snapshots''
        [(''id'', ''BIGSERIAL PRIMARY KEY''), (''stream_id'', ''VARCHAR(255) NOT NULL''), (''stream_version'', ''INT NOT NULL''),
         (''snapshot_data'', ''JSONB NOT NULL''), (''created_at'', ''TIMESTAMPTZ NOT NULL DEFAULT NOW()''),
         ('''', ''UNIQUE(stream_id, stream_version)'')],
      CreateIndex ''idx_snapshots_stream_id_version'' ''snapshots'' [''stream_id'', ''stream_version DESC''],
      CreateTable ''account_summary''
        [(''account_id'', ''VARCHAR(255) PRIMARY KEY''), (''owner_id'', ''VARCHAR(255) NOT NULL''), (''currency'', ''VARCHAR(16) NOT NULL''),
         (''status'', ''VARCHAR(32) NOT NULL''), (''balance'', ''NUMERIC(19, 2) NOT NULL''),
         (''balance_minor_units'', ''VARCHAR(255) NOT NULL DEFAULT 0''), (''version'', ''INT NOT NULL''),
         (''created_at'', ''TIMESTAMPTZ NOT NULL''), (''updated_at'', ''TIMESTAMPTZ NOT NULL'')],
      CreateTable ''account_statement''
        [(''event_id'', ''UUID PRIMARY KEY''), (''account_id'', ''VARCHAR(255) NOT NULL''), (''stream_version'', ''INT NOT NULL''),
         (''event_type'', ''VARCHAR(255) NOT NULL''), (''amount'', ''NUMERIC(19, 2)''), (''amount_minor_units'', ''VARCHAR(255)''),
         (''currency'', ''VARCHAR(16)''), (''transaction_id'', ''VARCHAR(255)''), (''reason'', ''TEXT''),
         (''occurred_at'', ''TIMESTAMPTZ NOT NULL'')],
      CreateIndex ''idx_account_statement_account_id_version'' ''account_statement'' [''account_id'', ''stream_version''],
      CreateTable ''projection_checkpoints''
        [(''projection_name'', ''VARCHAR(255) PRIMARY KEY''), (''position'', ''BIGINT NOT NULL''),
         (''updated_at'', ''TIMESTAMPTZ NOT NULL DEFAULT NOW()'')]]\<rparr>"

definition migration_2 :: migration where
  "migration_2 =
     \<lparr>mg_version = 2, mg_name = ''create-outbox-events-table'', mg_sql =
     [CreateTable ''outbox_events''
        [(''id'', ''UUID PRIMARY KEY''), (''topic'', ''VARCHAR(255) NOT NULL''), (''message_key'', ''VARCHAR(255) NOT NULL''),
         (''payload'', ''JSONB NOT NULL''), (''created_at'', ''TIMESTAMPTZ NOT NULL''), (''published_at'', ''TIMESTAMPTZ NULL''),
         (''attempts'', ''INT NOT NULL DEFAULT 0''), (''last_error'', ''TEXT NULL'')],
      CreateIndex ''idx_outbox_events_pending_created_at'' ''outbox_events'' [''published_at'', ''created_at'']]\<rparr>"

definition migration_3 :: migration where
  "migration_3 =
     \<lparr>mg_version = 3, mg_name = ''add-outbox-processing-lock-columns'', mg_sql =
     [AddColumns ''outbox_events'' [(''processing_started_at'', ''TIMESTAMPTZ NULL'')],
      CreateIndex ''idx_outbox_events_processing_started_at'' ''outbox_events'' [''processing_started_at'']]\<rparr>"

definition migration_4 :: migration where
  "migration_4 =
     \<lparr>mg_version = 4, mg_name = ''enforce-account-statement-stream-version-uniqueness'', mg_sql =
     [CreateUniqueIndex ''uq_account_statement_account_version'' ''account_statement'' [''account_id'', ''stream_version'']]\<rparr>"

definition migration_5 :: migration where
  "migration_5 =
     \<lparr>mg_version = 5, mg_name = ''create-idempotency-records-table'', mg_sql =
     [CreateTable ''idempotency_records''
        [(''idempotency_key'', ''VARCHAR(255) PRIMARY KEY''), (''operation'', ''VARCHAR(255) NOT NULL''),
         (''request_hash'', ''VARCHAR(255) NOT NULL''), (''status'', ''VARCHAR(32) NOT NULL''), (''response_payload'', ''JSONB NULL''),
         (''error_message'', ''TEXT NULL''), (''created_at'', ''TIMESTAMPTZ NOT NULL DEFAULT NOW()''),
         (''updated_at'', ''TIMESTAMPTZ NOT NULL DEFAULT NOW()'')]]\<rparr>"

definition migration_6 :: migration where
  "migration_6 =
     \<lparr>mg_version = 6, mg_name = ''create-transaction-records-table'', mg_sql =
     [CreateTable ''transaction_records''
        [(''transaction_id'', ''VARCHAR(255) PRIMARY KEY''), (''account_id'', ''VARCHAR(255) NOT NULL''),
         (''operation_type'', ''VARCHAR(32) NOT NULL''), (''status'', ''VARCHAR(32) NOT NULL''), (''amount'', ''NUMERIC(19, 2) NOT NULL''),
         (''amount_minor_units'', ''VARCHAR(255) NOT NULL DEFAULT 0''), (''currency'', ''VARCHAR(16) NOT NULL''),
         (''idempotency_key'', ''VARCHAR(255) NULL''), (''error_message'', ''TEXT NULL''),
         (''created_at'', ''TIMESTAMPTZ NOT NULL DEFAULT NOW()''), (''updated_at'', ''TIMESTAMPTZ NOT NULL DEFAULT NOW()'')],
      CreateIndex ''idx_transaction_records_account_id'' ''transaction_records'' [''account_id'']]\<rparr>"

definition migration_7 :: migration where
  "migration_7 =
     \<lparr>mg_version = 7, mg_name = ''add-minor-unit-money-columns'', mg_sql =
     [AddColumns ''account_summary'' [(''balance_minor_units'', ''VARCHAR(255) NOT NULL DEFAULT 0'')],
      AddColumns ''account_statement'' [(''amount_minor_units'', ''VARCHAR(255) NULL'')],
      AddColumns ''transaction_records'' [(''amount_minor_units'', ''VARCHAR(255) NOT NULL DEFAULT 0'')]]\<rparr>"

definition migration_8 :: migration where
  "migration_8 =
     \<lparr>mg_version = 8, mg_name = ''backfill-minor-unit-money-columns'', mg_sql =
     [RowUpdate ''account_summary'' ''balance_minor_units'', RowUpdate ''account_statement'' ''amount_minor_units'',
      RowUpdate ''transaction_records'' ''amount_minor_units'']\<rparr>"

definition migration_9 :: migration where
  "migration_9 =
     \<lparr>mg_version = 9, mg_name = ''add-outbox-event-position-ordering'', mg_sql =
     [AddColumns ''outbox_events'' [(''event_position'', ''BIGINT NULL'')],
      RowUpdate ''outbox_events'' ''event_position'',
      CreateIndex ''idx_outbox_events_pending_event_position'' ''outbox_events''
        [''published_at'', ''processing_started_at'', ''event_position'', ''created_at'']]\<rparr>"

definition migration_10 :: migration where
  "migration_10 =
     \<lparr>mg_version = 10, mg_name = ''create-transfer-summary-table'', mg_sql =
     [CreateTable ''transfer_summary''
        [(''transfer_id'', ''VARCHAR(255) PRIMARY KEY''), (''source_account_id'', ''VARCHAR(255) NOT NULL''),
         (''destination_account_id'', ''VARCHAR(255) NOT NULL''), (''amount'', ''NUMERIC(19, 2) NOT NULL''),
         (''amount_minor_units'', ''VARCHAR(255) NOT NULL''), (''currency'', ''VARCHAR(16) NOT NULL''), (''status'', ''VARCHAR(64) NOT NULL''),
         (''failure_reason'', ''TEXT NULL''), (''failure_stage'', ''VARCHAR(32) NULL''),
         (''source_debit_transaction_id'', ''VARCHAR(255) NULL''), (''destination_credit_transaction_id'', ''VARCHAR(255) NULL''),
         (''compensation_transaction_id'', ''VARCHAR(255) NULL''), (''debit_attempts'', ''INT NOT NULL DEFAULT 0''),
         (''credit_attempts'', ''INT NOT NULL DEFAULT 0''), (''compensation_attempts'', ''INT NOT NULL DEFAULT 0''),
         (''created_at'', ''TIMESTAMPTZ NOT NULL''), (''updated_at'', ''TIMESTAMPTZ NOT NULL'')],
      CreateIndex ''idx_transfer_summary_status_updated_at'' ''transfer_summary'' [''status'', ''updated_at'']]\<rparr>"

definition migration_11 :: migration where
  "migration_11 =
     \<lparr>mg_version = 11, mg_name = ''enrich-account-statement-transfer-details'', mg_sql =
     [AddColumns ''account_statement''
        [(''entry_kind'', ''VARCHAR(32) NULL''), (''transfer_id'', ''VARCHAR(255) NULL''), (''transfer_direction'', ''VARCHAR(32) NULL''),
         (''source_account_id'', ''VARCHAR(255) NULL''), (''destination_account_id'', ''VARCHAR(255) NULL''),
         (''counterparty_account_id'', ''VARCHAR(255) NULL''), (''description'', ''TEXT NULL'')],
      CreateIndex ''idx_account_statement_transfer_id'' ''account_statement'' [''transfer_id'']]\<rparr>"

definition schemaMigrations :: "migration list" where
  "schemaMigrations =
     [migration_1, migration_2, migration_3, migration_4, migration_5, migration_6,
      migration_7, migration_8, migration_9, migration_10, migration_11]"

lemmas all_migrations = schemaMigrations_def migration_1_def migration_2_def migration_3_def migration_4_def migration_5_def
  migration_6_def migration_7_def migration_8_def migration_9_def migration_10_def migration_11_def

section \<open>The runner\<close>

text \<open>
  \<open>db_versions\<close> is the table \<open>schema_migrations\<close>, the rest of the database is left open; \<open>exec\<close> runs the SQL of a
  migration and may fail.  The runner works in one transaction under an advisory lock, so that
  instances that start together run one after the other.
\<close>

record 'd database =
  db_versions :: "(nat \<times> string) list"
  db_data :: 'd

definition apply_migration :: "(migration \<Rightarrow> 'd \<Rightarrow> 'd result) \<Rightarrow> nat list \<Rightarrow> migration \<Rightarrow> ('d database, unit) prog" where
  "apply_migration exec appliedVersions m db =
     (if mg_version m \<in> set appliedVersions then (Inr (), db)
      else case exec m (db_data db) of
             Inl e \<Rightarrow> (Inl e, db)
           | Inr d \<Rightarrow> (Inr (), \<lparr>db_versions = db_versions db @ [(mg_version m, mg_name m)], db_data = d\<rparr>))"

definition runPendingMigrations :: "(migration \<Rightarrow> 'd \<Rightarrow> 'd result) \<Rightarrow> ('d database, unit) prog" where
  "runPendingMigrations exec db =
     (case for_each (apply_migration exec (map fst (db_versions db))) schemaMigrations db of
        (Inl e, _) \<Rightarrow> (Inl e, db)
      | (Inr _, db') \<Rightarrow> (Inr (), db'))"

text \<open>Start after start, each with the luck of its time.\<close>

fun starts :: "(nat \<Rightarrow> migration \<Rightarrow> 'd \<Rightarrow> 'd result) \<Rightarrow> nat \<Rightarrow> 'd database \<Rightarrow> 'd database" where
  "starts exec 0 db = db"
| "starts exec (Suc n) db = snd (runPendingMigrations (exec n) (starts exec n db))"

lemma apply_all:
  assumes "for_each (apply_migration exec applied) ms db = (Inr (), db')" "\<forall>m \<in> set ms. mg_version m \<notin> set applied"
    and "\<And>m d d'. exec m d = Inr d' \<Longrightarrow> d' = step m d"
  shows "db' = \<lparr>db_versions = db_versions db @ map (\<lambda>m. (mg_version m, mg_name m)) ms, db_data = fold step ms (db_data db)\<rparr>"
  using assms(1,2)
proof (induction ms arbitrary: db)
  case Nil
  then show ?case by simp
next
  case (Cons m ms)
  obtain db1 where db1: "apply_migration exec applied m db = (Inr (), db1)" "for_each (apply_migration exec applied) ms db1 = (Inr (), db')"
    using Cons.prems(1) by (auto elim: and_then_InrE)
  then obtain d where d: "exec m (db_data db) = Inr d" "db1 = \<lparr>db_versions = db_versions db @ [(mg_version m, mg_name m)], db_data = d\<rparr>"
    using Cons.prems(2) by (auto simp: apply_migration_def split: sum.splits)
  from Cons.IH [OF db1(2)] Cons.prems(2) assms(3) [OF d(1)] d(2) show ?case by simp
qed

lemma apply_none: "\<forall>m \<in> set ms. mg_version m \<in> set applied \<Longrightarrow> for_each (apply_migration exec applied) ms db = (Inr (), db)"
  by (induction ms) (simp_all add: apply_migration_def)

definition migrated :: "(migration \<Rightarrow> 'd \<Rightarrow> 'd) \<Rightarrow> 'd \<Rightarrow> 'd database" where
  "migrated step d = \<lparr>db_versions = map (\<lambda>m. (mg_version m, mg_name m)) schemaMigrations, db_data = fold step schemaMigrations d\<rparr>"

lemma run_fresh:
  assumes "\<And>m d d'. exec m d = Inr d' \<Longrightarrow> d' = step m d"
  shows "runPendingMigrations exec \<lparr>db_versions = [], db_data = d\<rparr> = (Inr (), migrated step d)
    \<or> (\<exists>e. runPendingMigrations exec \<lparr>db_versions = [], db_data = d\<rparr> = (Inl e, \<lparr>db_versions = [], db_data = d\<rparr>))"
proof (cases "for_each (apply_migration exec []) schemaMigrations \<lparr>db_versions = [], db_data = d\<rparr>")
  case (Pair r db')
  show ?thesis
  proof (cases r)
    case (Inr u)
    with Pair have "for_each (apply_migration exec []) schemaMigrations \<lparr>db_versions = [], db_data = d\<rparr> = (Inr (), db')" by simp
    from apply_all [OF this _ assms] Pair Inr show ?thesis by (simp add: runPendingMigrations_def migrated_def)
  qed (use Pair in \<open>simp add: runPendingMigrations_def\<close>)
qed

lemma run_migrated: "runPendingMigrations exec (migrated step d) = (Inr (), migrated step d)"
  by (simp add: runPendingMigrations_def apply_none migrated_def comp_def)

text \<open>C28: Each migration takes effect exactly once and in order, or none does: however often the service is started on a
  new database, and whatever goes wrong in any of the starts, the database is either as it was at first, and then
  every start has failed, or it has been through all migrations, each once and in the order of the list,
  and records exactly these.\<close>

theorem migrations_take_effect_once:
  assumes "\<And>k m d d'. exec k m d = Inr d' \<Longrightarrow> d' = step m d"
  shows "let start = \<lparr>db_versions = [], db_data = d\<rparr>; db = starts exec n start
    in (db = start \<and> (\<forall>k \<in> set [0..<n]. \<exists>e. fst (runPendingMigrations (exec k) (starts exec k start)) = Inl e))
     \<or> (db = \<lparr>db_versions = map (\<lambda>m. (mg_version m, mg_name m)) schemaMigrations, db_data = fold step schemaMigrations d\<rparr>
        \<and> fst (runPendingMigrations (exec k) db) = Inr ())"
proof -
  have "let start = \<lparr>db_versions = [], db_data = d\<rparr>; db = starts exec n start
    in (db = start \<and> (\<forall>k \<in> set [0..<n]. \<exists>e. fst (runPendingMigrations (exec k) (starts exec k start)) = Inl e))
     \<or> (db = migrated step d)"
  proof (induction n)
    case (Suc n)
    then show ?case
      using run_fresh [of "exec n" step d] assms run_migrated [of "exec n" step d] by (auto simp: Let_def)
  qed simp
  then show ?thesis using run_migrated [of "exec k" step d] by (auto simp: Let_def migrated_def)
qed

section \<open>The schema\<close>

record schema =
  sc_tables :: "(string \<times> column list) list"
  sc_indexes :: "(string \<times> string \<times> string list) list"

definition empty_schema :: schema where
  "empty_schema = \<lparr>sc_tables = [], sc_indexes = []\<rparr>"

definition has_columns :: "schema \<Rightarrow> string \<Rightarrow> string list \<Rightarrow> bool" where
  "has_columns s t cs =
     (case map_of (sc_tables s) t of
        None \<Rightarrow> False
      | Some columns \<Rightarrow> list_all (\<lambda>c. takeWhile (\<lambda>x. x \<noteq> CHR '' '') c \<in> fst ` set columns) cs)"

definition undefined_column :: js_error where
  "undefined_column = GenericError ''relation or column does not exist''"

text \<open>All statements have \<open>IF NOT EXISTS\<close>.\<close>

definition create_index :: "string \<Rightarrow> string \<Rightarrow> string list \<Rightarrow> schema \<Rightarrow> schema result" where
  "create_index name t cs s =
     (if name \<in> fst ` set (sc_indexes s) then Inr s
      else if has_columns s t cs then Inr (s\<lparr>sc_indexes := sc_indexes s @ [(name, t, cs)]\<rparr>) else Inl undefined_column)"

fun run_sql :: "sql \<Rightarrow> schema \<Rightarrow> schema result" where
  "run_sql (CreateTable t columns) s =
     (if t \<in> fst ` set (sc_tables s) then Inr s else Inr (s\<lparr>sc_tables := sc_tables s @ [(t, columns)]\<rparr>))"
| "run_sql (AddColumns t columns) s =
     (case map_of (sc_tables s) t of
        None \<Rightarrow> Inl undefined_column
      | Some existing \<Rightarrow> Inr (s\<lparr>sc_tables := map (\<lambda>(t', cs). (t', if t' = t
          then fold (\<lambda>c cs. if fst c \<in> fst ` set cs then cs else cs @ [c]) columns cs else cs)) (sc_tables s)\<rparr>))"
| "run_sql (CreateIndex name t cs) s = create_index name t cs s"
| "run_sql (CreateUniqueIndex name t cs) s = create_index name t cs s"
| "run_sql (RowUpdate t c) s = (if has_columns s t [c] then Inr s else Inl undefined_column)"

definition run_schema :: "migration \<Rightarrow> schema \<Rightarrow> schema result" where
  "run_schema m s = fold (\<lambda>q r. bind_result r (run_sql q)) (mg_sql m) (Inr s)"

definition schema_of_version :: "nat \<Rightarrow> schema result" where
  "schema_of_version n = fold (\<lambda>m r. bind_result r (run_schema m)) (take n schemaMigrations) (Inr empty_schema)"

definition at_version :: "nat \<Rightarrow> schema \<Rightarrow> schema database" where
  "at_version n s = \<lparr>db_versions = map (\<lambda>m. (mg_version m, mg_name m)) (take n schemaMigrations), db_data = s\<rparr>"

text \<open>The columns that the statements of the repositories write.\<close>

definition written_columns :: "(string \<times> string list) list" where
  "written_columns =
     [(''events'', [''event_id'', ''stream_id'', ''stream_version'', ''event_type'', ''event_data'', ''event_metadata'', ''occurred_at'', ''id'']),
      (''outbox_events'', [''id'', ''topic'', ''message_key'', ''payload'', ''created_at'', ''event_position'', ''attempts'', ''published_at'',
         ''last_error'', ''processing_started_at'']),
      (''snapshots'', [''stream_id'', ''stream_version'', ''snapshot_data'', ''created_at'']),
      (''account_summary'', [''account_id'', ''owner_id'', ''currency'', ''status'', ''balance'', ''balance_minor_units'', ''version'',
         ''created_at'', ''updated_at'']),
      (''account_statement'', [''event_id'', ''account_id'', ''stream_version'', ''event_type'', ''entry_kind'', ''amount'',
         ''amount_minor_units'', ''currency'', ''transaction_id'', ''transfer_id'', ''transfer_direction'', ''source_account_id'',
         ''destination_account_id'', ''counterparty_account_id'', ''description'', ''reason'', ''occurred_at'']),
      (''projection_checkpoints'', [''projection_name'', ''position'', ''updated_at'']),
      (''transfer_summary'', [''transfer_id'', ''source_account_id'', ''destination_account_id'', ''amount'', ''amount_minor_units'',
         ''currency'', ''status'', ''failure_reason'', ''failure_stage'', ''source_debit_transaction_id'',
         ''destination_credit_transaction_id'', ''compensation_transaction_id'', ''debit_attempts'', ''credit_attempts'',
         ''compensation_attempts'', ''created_at'', ''updated_at'']),
      (''idempotency_records'', [''idempotency_key'', ''operation'', ''request_hash'', ''status'', ''response_payload'', ''error_message'',
         ''updated_at'']),
      (''transaction_records'', [''transaction_id'', ''account_id'', ''operation_type'', ''status'', ''amount'', ''amount_minor_units'',
         ''currency'', ''idempotency_key'', ''error_message'', ''created_at'', ''updated_at''])]"

lemma fold_bind_Inl: "fold (\<lambda>m r. bind_result r (f m)) ms (Inl e) = Inl e"
  by (induction ms) simp_all

lemma apply_runs:
  assumes "fold (\<lambda>m r. bind_result r (exec m)) ms (Inr (db_data db)) = Inr d'" "\<forall>m \<in> set ms. mg_version m \<notin> set applied"
  shows "for_each (apply_migration exec applied) ms db
    = (Inr (), \<lparr>db_versions = db_versions db @ map (\<lambda>m. (mg_version m, mg_name m)) ms, db_data = d'\<rparr>)"
  using assms
proof (induction ms arbitrary: db)
  case Nil
  then show ?case by simp
next
  case (Cons m ms)
  obtain d where d: "exec m (db_data db) = Inr d" using Cons.prems(1) by (cases "exec m (db_data db)") (auto simp: fold_bind_Inl)
  let ?db = "\<lparr>db_versions = db_versions db @ [(mg_version m, mg_name m)], db_data = d\<rparr>"
  have "apply_migration exec applied m db = (Inr (), ?db)" using d Cons.prems(2) by (simp add: apply_migration_def)
  moreover have "fold (\<lambda>m r. bind_result r (exec m)) ms (Inr (db_data ?db)) = Inr d'" using Cons.prems(1) d by simp
  ultimately show ?case using Cons.IH [of ?db] Cons.prems(2) by simp
qed

lemma upgrade:
  assumes "schema_of_version n = Inr s" "schema_of_version (length schemaMigrations) = Inr final"
  shows "runPendingMigrations run_schema (at_version n s) = (Inr (), at_version (length schemaMigrations) final)"
proof -
  let ?applied = "map mg_version (take n schemaMigrations)"
  have parts: "take n schemaMigrations @ drop n schemaMigrations = schemaMigrations" by simp
  have "fold (\<lambda>m r. bind_result r (run_schema m)) (take n schemaMigrations @ drop n schemaMigrations) (Inr empty_schema) = Inr final"
    using assms(2) by (simp add: schema_of_version_def)
  then have rest: "fold (\<lambda>m r. bind_result r (run_schema m)) (drop n schemaMigrations) (Inr s) = Inr final"
    using assms(1) unfolding fold_append by (simp add: schema_of_version_def)
  have "distinct (map mg_version (take n schemaMigrations @ drop n schemaMigrations))"
    unfolding parts by (simp add: all_migrations)
  then have "\<forall>m \<in> set (drop n schemaMigrations). mg_version m \<notin> set ?applied"
    unfolding map_append distinct_append by force
  from apply_runs [of run_schema _ "at_version n s", OF _ this, of final] rest
  have later: "for_each (apply_migration run_schema ?applied) (drop n schemaMigrations) (at_version n s)
      = (Inr (), at_version (length schemaMigrations) final)"
    by (simp add: at_version_def flip: map_append)
  have "for_each (apply_migration run_schema ?applied) (take n schemaMigrations @ drop n schemaMigrations) (at_version n s)
      = (Inr (), at_version (length schemaMigrations) final)"
    unfolding for_each_append by (subst and_then_Inr [OF apply_none]) (use later in auto)
  then show ?thesis
    unfolding parts by (simp add: runPendingMigrations_def at_version_def comp_def)
qed

lemma earlier_versions: "schema_of_version (length schemaMigrations) = Inr final \<Longrightarrow> \<exists>s. schema_of_version n = Inr s"
proof (cases "schema_of_version n")
  case (Inl e)
  have "fold (\<lambda>m r. bind_result r (run_schema m)) (take n schemaMigrations @ drop n schemaMigrations) (Inr empty_schema) = Inl e"
    unfolding fold_append using Inl by (simp add: schema_of_version_def fold_bind_Inl)
  moreover assume "schema_of_version (length schemaMigrations) = Inr final"
  ultimately show ?thesis by (simp add: schema_of_version_def)
qed simp


section \<open>The migrations that change rows\<close>

text \<open>
  Migration 8: the three \<open>UPDATE\<close>s, as changes of a row.  The columns \<open>balance_minor_units\<close> and
  \<open>amount_minor_units\<close> of \<open>transaction_records\<close> are \<open>NOT NULL\<close>; a cast that fails makes the migration fail.
\<close>

definition backfill_balance :: "account_summary \<Rightarrow> account_summary result" where
  "backfill_balance row =
     (if sm_balanceMinorUnits row = ''0'' \<and> sm_balance row \<noteq> JsFin 0
      then bind_result (hundredths_text (sm_balance row)) (\<lambda>t. Inr (row\<lparr>sm_balanceMinorUnits := t\<rparr>)) else Inr row)"

definition backfill_amount :: "statement_entry \<Rightarrow> statement_entry result" where
  "backfill_amount row =
     (case (se_amount row, se_amountMinorUnits row) of
        (Some amount, None) \<Rightarrow> bind_result (hundredths_text amount) (\<lambda>t. Inr (row\<lparr>se_amountMinorUnits := Some t\<rparr>))
      | _ \<Rightarrow> Inr row)"

definition backfill_transaction :: "transaction_record \<Rightarrow> transaction_record result" where
  "backfill_transaction row =
     (if tx_amountMinorUnits row = ''0'' \<and> tx_amount row \<noteq> JsFin 0
      then bind_result (hundredths_text (tx_amount row)) (\<lambda>t. Inr (row\<lparr>tx_amountMinorUnits := t\<rparr>)) else Inr row)"

definition backfill_accounts :: "pg_accounts \<Rightarrow> pg_accounts result" where
  "backfill_accounts r =
     bind_result (map_results backfill_balance (pa_summaries r)) (\<lambda>summaries.
     bind_result (map_results backfill_amount (pa_entries r)) (\<lambda>entries.
       Inr (r\<lparr>pa_summaries := summaries, pa_entries := entries\<rparr>)))"

definition backfill_transactions :: "pg_transactions \<Rightarrow> pg_transactions result" where
  "backfill_transactions = map_results backfill_transaction"

text \<open>Migration 9: the position of the event that a message carries.\<close>

definition backfill_positions :: "event_row list \<Rightarrow> outbox_table \<Rightarrow> outbox_table" where
  "backfill_positions rows t =
     map (\<lambda>m. if om_eventPosition m = None
              then (case find (\<lambda>r. ev_eventId (er_event r) = om_id m) rows of
                      None \<Rightarrow> m | Some r \<Rightarrow> m\<lparr>om_eventPosition := Some (er_id r)\<rparr>)
              else m) t"

lemma map_results_Cons: "map_results f (x # xs) = Inr ys \<longleftrightarrow> (\<exists>z zs. ys = z # zs \<and> f x = Inr z \<and> map_results f xs = Inr zs)"
  by (auto simp: bind_result_Inr_iff)

lemma map_results_list_all2: "map_results f xs = Inr ys \<Longrightarrow> list_all2 (\<lambda>x y. f x = Inr y) xs ys"
  by (induction xs arbitrary: ys) (auto simp: map_results_Cons simp del: map_results.simps(2))

lemma backfill_balance_read:
  assumes "backfill_balance row = Inr row'"
  shows "resolved_balance row' = resolved_balance row" "sm_accountId row' = sm_accountId row"
    and "resolved_balance row = Inr t \<Longrightarrow> row'\<lparr>sm_balanceMinorUnits := t, sm_balance := x\<rparr> = row\<lparr>sm_balanceMinorUnits := t, sm_balance := x\<rparr>"
  using assms by (auto simp: backfill_balance_def resolved_balance_def bind_result_Inr_iff split: if_splits)

lemma backfill_amount_read:
  assumes "backfill_amount row = Inr row'"
  shows "pa_entry row' = pa_entry row" "se_accountId row' = se_accountId row" "se_streamVersion row' = se_streamVersion row"
  using assms
  by (auto simp: backfill_amount_def pa_entry_def resolved_amount_def bind_result_Inr_iff split: option.splits)

lemma find_related: "list_all2 R xs ys \<Longrightarrow> (\<And>x y. R x y \<Longrightarrow> P x \<longleftrightarrow> P y) \<Longrightarrow> rel_option R (find P xs) (find P ys)"
  by (induction rule: list_all2_induct) auto

lemma insort_related:
  assumes "list_all2 R xs ys" "R x y" "\<And>x y. R x y \<Longrightarrow> f x = f y"
  shows "list_all2 R (insort_key f x xs) (insort_key f y ys)"
  using assms(1,2) by (induction rule: list_all2_induct) (auto simp: assms(3))

lemma sort_related: "list_all2 R xs ys \<Longrightarrow> (\<And>x y. R x y \<Longrightarrow> f x = f y) \<Longrightarrow> list_all2 R (sort_key f xs) (sort_key f ys)"
  by (induction rule: list_all2_induct) (auto intro: insort_related)

lemma filter_related:
  "list_all2 R xs ys \<Longrightarrow> (\<And>x y. R x y \<Longrightarrow> P x \<longleftrightarrow> P y) \<Longrightarrow> list_all2 R (filter P xs) (filter P ys)"
  by (induction rule: list_all2_induct) auto

lemma map_results_related: "list_all2 R xs ys \<Longrightarrow> (\<And>x y. R x y \<Longrightarrow> f x = f y) \<Longrightarrow> map_results f xs = map_results f ys"
  by (induction rule: list_all2_induct) auto

text \<open>C30: The migration of the amounts to minor units changes no answer: what the summary and the pages of the
  statement of any account were before it, with the readers' fallback for columns that are not filled yet, they
  are after it, when no row needs the fallback any more.\<close>

theorem backfill_changes_no_answer:
  assumes "backfill_accounts r = Inr r'"
  shows "pa_getSummary a r' = pa_getSummary a r \<and> pa_getStatement a limit offset r' = pa_getStatement a limit offset r"
proof -
  obtain ss es where r': "map_results backfill_balance (pa_summaries r) = Inr ss" "map_results backfill_amount (pa_entries r) = Inr es"
      "r' = r\<lparr>pa_summaries := ss, pa_entries := es\<rparr>"
    using assms by (auto simp: backfill_accounts_def bind_result_Inr_iff)
  have "rel_option (\<lambda>x y. backfill_balance x = Inr y) (find (\<lambda>row. sm_accountId row = a) (pa_summaries r)) (find (\<lambda>row. sm_accountId row = a) ss)"
    using map_results_list_all2 [OF r'(1)] by (rule find_related) (simp add: backfill_balance_read)
  then have "pa_getSummary a r' = pa_getSummary a r"
    using backfill_balance_read
    by (auto simp: pa_getSummary_def r'(3) option_rel_Some1 bind_result_def split: option.split sum.split elim!: option.rel_cases)
  moreover have "list_all2 (\<lambda>x y. backfill_amount x = Inr y) (pa_rows a r) (pa_rows a r')"
    unfolding pa_rows_def using map_results_list_all2 [OF r'(2)]
    by (intro sort_related filter_related) (simp_all add: r'(3) backfill_amount_read)
  then have "pa_getStatement a limit offset r' = pa_getStatement a limit offset r"
    unfolding pa_getStatement_def
    by (intro map_results_related [symmetric, where R = "\<lambda>x y. backfill_amount x = Inr y"] list_all2_takeI list_all2_dropI)
      (simp_all add: backfill_amount_read)
  ultimately show ?thesis by blast
qed

section \<open>Examples\<close>

text \<open>The third migration of the first start fails.\<close>

definition sample_exec :: "nat \<Rightarrow> migration \<Rightarrow> nat list \<Rightarrow> nat list result" where
  "sample_exec k m d = (if k = 0 \<and> mg_version m = 3 then Inl (GenericError ''connection lost'') else Inr (d @ [mg_version m]))"

theorem migrations_take_effect_once_witness:
  "db_data (starts sample_exec 2 \<lparr>db_versions = [], db_data = []\<rparr>) = [1, 2, 3, 4, 5, 6, 7, 8, 9, 10, 11]"
proof -
  let ?start = "\<lparr>db_versions = [], db_data = [] :: nat list\<rparr>"
  let ?done = "\<lparr>db_versions = map (\<lambda>m. (mg_version m, mg_name m)) schemaMigrations, db_data = fold (\<lambda>m d. d @ [mg_version m]) schemaMigrations []\<rparr>"
  have once: "let start = ?start; db = starts sample_exec 2 start
    in (db = start \<and> (\<forall>k \<in> set [0..<2]. \<exists>e. fst (runPendingMigrations (sample_exec k) (starts sample_exec k start)) = Inl e))
     \<or> (db = ?done \<and> fst (runPendingMigrations (sample_exec 0) db) = Inr ())"
    by (rule migrations_take_effect_once) (simp add: sample_exec_def split: if_splits)
  have "runPendingMigrations (sample_exec 1) (starts sample_exec 1 ?start) \<noteq> (Inl e, y)" for e y
    by (simp add: runPendingMigrations_def apply_migration_def sample_exec_def all_migrations and_then_def)
  then have "\<not> (\<exists>e. fst (runPendingMigrations (sample_exec 1) (starts sample_exec 1 ?start)) = Inl e)"
    by (metis prod.collapse)
  moreover have "1 \<in> set [0..<2 :: nat]" by simp
  ultimately have "starts sample_exec 2 ?start = ?done" using once unfolding Let_def by blast
  then show ?thesis by (simp add: all_migrations)
qed

definition legacy_accounts :: pg_accounts where
  "legacy_accounts =
     \<lparr>pa_summaries = [\<lparr>sm_accountId = ''a'', sm_ownerId = ''o'', sm_currency = ''USD'', sm_status = ACTIVE, sm_balanceMinorUnits = ''0'',
        sm_balance = JsFin (5 / 2), sm_version = 2, sm_createdAt = 0, sm_updatedAt = 1\<rparr>], pa_entries = [], pa_checkpoints = []\<rparr>"

theorem backfill_changes_no_answer_witness:
  "\<exists>r'. backfill_accounts legacy_accounts = Inr r' \<and> map sm_balanceMinorUnits (pa_summaries r') = [''250'']
     \<and> pa_getSummary ''a'' r' = pa_getSummary ''a'' legacy_accounts"
proof -
  have "map_results (\<lambda>r. bind_result (backfill_balance r) (\<lambda>r. Inr (sm_balanceMinorUnits r))) (pa_summaries legacy_accounts) = Inr [''250'']"
    by code_simp
  then obtain row where "map_results backfill_balance (pa_summaries legacy_accounts) = Inr [row]" "sm_balanceMinorUnits row = ''250''"
    by (auto simp: legacy_accounts_def bind_result_Inr_iff)
  then have r': "backfill_accounts legacy_accounts = Inr (legacy_accounts\<lparr>pa_summaries := [row], pa_entries := []\<rparr>)"
    by (simp add: backfill_accounts_def legacy_accounts_def)
  from backfill_changes_no_answer [OF r', of "''a''"] r' \<open>sm_balanceMinorUnits row = ''250''\<close> show ?thesis by simp
qed

end
