(* ===== verification/Service.thy ===== *)
theory Service
  imports Consumers Coordinator Controllers
begin

text \<open>
  \<open>infrastructure.module.ts\<close> and the \<open>onModuleInit\<close> hooks: which stores a configuration chooses and what it starts;
  the admin endpoints and the script \<open>src/scripts/rebuild-projections.ts\<close> that run the rebuilds.
\<close>

section \<open>The configuration\<close>

text \<open>\<open>ConfigService.get\<close> with a default.\<close>

type_synonym config = "string \<rightharpoonup> string"

definition config_get :: "config \<Rightarrow> string \<Rightarrow> string \<Rightarrow> string" where
  "config_get config key fallback = (case config key of None \<Rightarrow> fallback | Some v \<Rightarrow> v)"

definition storeKind :: "config \<Rightarrow> string" where
  "storeKind config = config_get config ''EVENT_STORE_KIND'' ''in-memory''"

datatype implementation = InMemoryImplementation | PostgresImplementation

record wiring =
  wr_idempotencyRecords :: implementation
  wr_transactionRecords :: implementation
  wr_eventStore :: implementation
  wr_outboxStore :: implementation
  wr_snapshotStore :: implementation
  wr_accountReadModels :: implementation
  wr_transferReadModels :: implementation

definition provided :: "config \<Rightarrow> implementation" where
  "provided config = (if storeKind config = ''postgres'' then PostgresImplementation else InMemoryImplementation)"

definition infrastructure_module :: "config \<Rightarrow> wiring" where
  "infrastructure_module config =
     \<lparr>wr_idempotencyRecords = provided config, wr_transactionRecords = provided config, wr_eventStore = provided config,
      wr_outboxStore = provided config, wr_snapshotStore = provided config, wr_accountReadModels = provided config,
      wr_transferReadModels = provided config\<rparr>"

section \<open>What is started\<close>

definition runner_polls :: "config \<Rightarrow> bool" where
  "runner_polls config = (storeKind config = ''in-memory'')"

definition consumer_runs :: "config \<Rightarrow> bool" where
  "consumer_runs config =
     (storeKind config = ''postgres'' \<and> config_get config ''PROJECTION_LIVE_CONSUMERS_ENABLED'' ''true'' \<noteq> ''false'')"

text \<open>The publisher, the poller of the backlog and the migrations have the same guard; the coordinator has none.\<close>

definition publisher_runs :: "config \<Rightarrow> bool" where
  "publisher_runs config = (storeKind config = ''postgres'')"

definition metrics_poller_runs :: "config \<Rightarrow> bool" where
  "metrics_poller_runs config = (storeKind config = ''postgres'')"

definition migrations_run :: "config \<Rightarrow> bool" where
  "migrations_run config = (storeKind config = ''postgres'')"

definition coordinator_runs :: "config \<Rightarrow> bool" where
  "coordinator_runs config = True"

section \<open>Rebuilds on demand\<close>

datatype rebuild_request = RebuildAccount string | RebuildAll | RebuildTransfer string

datatype rebuild_answer = Rebuilt | RebuiltAccount string | RebuiltTransfer string

definition admin_rebuild ::
  "('es, 'r, 'p) projections \<Rightarrow> (nat \<Rightarrow> 'es) \<Rightarrow> rebuild_request \<Rightarrow> ('r, 'p) views \<Rightarrow> (rebuild_answer result \<times> ('r, 'p) views) option" where
  "admin_rebuild d source request v =
     (case request of
        RebuildAccount accountId \<Rightarrow>
          Some (and_then (rebuildAccount d (source 0) accountId) (\<lambda>_. returns (RebuiltAccount accountId)) v)
      | RebuildTransfer transferId \<Rightarrow>
          Some (and_then (rebuildTransfer d (source 0) transferId) (\<lambda>_. returns (RebuiltTransfer transferId)) v)
      | RebuildAll \<Rightarrow>
          map_option (\<lambda>(r, v'). (bind_result r (\<lambda>_. Inr Rebuilt), v')) (rebuildAll d source v))"

text \<open>
  The script: \<open>scope\<close> and \<open>id\<close> are the arguments after the interpreter and the script; an error of a rebuild goes
  through \<open>finally\<close> and ends the process with exit code 1.  The exit code and the read models it leaves.
\<close>

definition rebuild_request_of :: "string list \<Rightarrow> rebuild_request option" where
  "rebuild_request_of argv =
     (let scope = (if 2 < length argv then Some (argv ! 2) else None);
          i = (if 3 < length argv then Some (argv ! 3) else None)
      in if scope = Some ''all'' then Some RebuildAll
         else if scope = Some ''account'' \<and> truthy i then Some (RebuildAccount (show_opt i))
         else if scope = Some ''transfer'' \<and> truthy i then Some (RebuildTransfer (show_opt i))
         else None)"

definition rebuild_main ::
  "('es, 'r, 'p) projections \<Rightarrow> (nat \<Rightarrow> 'es) \<Rightarrow> string list \<Rightarrow> ('r, 'p) views \<Rightarrow> (int \<times> ('r, 'p) views) option" where
  "rebuild_main d source argv v =
     (case rebuild_request_of argv of
        None \<Rightarrow> Some (1, v)
      | Some request \<Rightarrow>
          map_option (\<lambda>(r, v'). (case r of Inl _ \<Rightarrow> 1 | Inr _ \<Rightarrow> 0, v')) (admin_rebuild d source request v))"

definition script_config :: "config \<Rightarrow> config" where
  "script_config config = config(''PROJECTION_LIVE_CONSUMERS_ENABLED'' \<mapsto> ''false'')"

text \<open>The script pauses the consumers of its own process only, and runs a coordinator and a publisher besides the rebuild.\<close>

lemma script_starts:
  "\<not> consumer_runs (script_config config)" "coordinator_runs (script_config config)"
  "publisher_runs (script_config config) \<longleftrightarrow> publisher_runs config"
  by (simp_all add: consumer_runs_def script_config_def coordinator_runs_def publisher_runs_def storeKind_def config_get_def)

section \<open>Which configurations work\<close>

lemma fed_once: "\<not> (runner_polls config \<and> consumer_runs config)"
  by (auto simp: runner_polls_def consumer_runs_def)

text \<open>A store kind that is neither \<open>in-memory\<close> nor \<open>postgres\<close> (\<open>Postgres\<close>, say) is not refused: the service starts on
  the in-memory stores and accepts commands, but nothing ever feeds the read models; so the queries find no account,
  and the coordinator, which looks for transfers in the read model, never moves any money of those it accepted.\<close>

theorem unknown_store_kind_is_never_projected:
  assumes "storeKind config \<noteq> ''in-memory''" and "storeKind config \<noteq> ''postgres''"
  shows "wr_eventStore (infrastructure_module config) = InMemoryImplementation
    \<and> wr_transferReadModels (infrastructure_module config) = InMemoryImplementation
    \<and> \<not> runner_polls config \<and> \<not> consumer_runs config \<and> coordinator_runs config
    \<and> getAccountDetails memory_account_reads a empty_memory_accounts = Inl (NotFound (''Account '' @ a @ '' not found''))
    \<and> processPendingTransfersOnce d (map ts_transferId (mp_listPending 50 [])) b = (Inr (), b)"
  using assms
  by (simp add: infrastructure_module_def provided_def runner_polls_def consumer_runs_def coordinator_runs_def getAccountDetails_def
      memory_account_reads_def empty_memory_accounts_def processPendingTransfersOnce_def mp_listPending_def)

theorem unknown_store_kind_is_never_projected_witness:
  "\<not> runner_polls [''EVENT_STORE_KIND'' \<mapsto> ''Postgres''] \<and> \<not> consumer_runs [''EVENT_STORE_KIND'' \<mapsto> ''Postgres'']"
  using unknown_store_kind_is_never_projected [of "[''EVENT_STORE_KIND'' \<mapsto> ''Postgres'']" "''a''" "ap_bank demo_api"
      "snd (snd demo_customer)"]
  by (simp add: storeKind_def config_get_def)

end
