(* ===== verification/EventTypes.thy ===== *)
theory EventTypes
  imports AccountAggregate
begin

text \<open>
  Which event streams of an account are well typed: a type system for the \<open>data\<close> objects of
  \<open>account.aggregate.ts\<close>, whose context is what the events before an event have declared.
\<close>

record account_context =
  tc_accountId :: "string option"
  tc_currency :: "string option"
  tc_status :: account_status

definition no_context :: account_context where
  "no_context = \<lparr>tc_accountId = None, tc_currency = None, tc_status = ACTIVE\<rparr>"

text \<open>An amount is the canonical text of a positive number of minor units.\<close>

definition amount_typed :: "string \<Rightarrow> bool" where
  "amount_typed amount =
     (case parseMoneyToMinorUnits (StringAmount amount) of Inl _ \<Rightarrow> False | Inr m \<Rightarrow> 0 < m \<and> amount = formatMinorUnitsToMoney m)"

definition movement_typed :: "account_context \<Rightarrow> string option \<Rightarrow> string \<Rightarrow> string \<Rightarrow> bool" where
  "movement_typed g accountId amount currency \<longleftrightarrow>
     accountId = tc_accountId g \<and> Some currency = tc_currency g \<and> tc_status g = ACTIVE \<and> amount_typed amount"

fun type_event :: "event_data \<Rightarrow> account_context \<Rightarrow> account_context option" where
  "type_event (AccountCreated accountId ownerId currency) g =
     (if truthy (tc_accountId g) then None
      else Some \<lparr>tc_accountId = Some accountId, tc_currency = Some currency, tc_status = ACTIVE\<rparr>)"
| "type_event (MoneyDeposited accountId amount currency transactionId) g =
     (if movement_typed g accountId amount currency then Some g else None)"
| "type_event (MoneyWithdrawn accountId amount currency transactionId) g =
     (if movement_typed g accountId amount currency then Some g else None)"
| "type_event (AccountFrozen accountId reason) g =
     (if accountId = tc_accountId g \<and> reason \<noteq> '''' \<and> tc_status g = ACTIVE then Some (g\<lparr>tc_status := FROZEN\<rparr>) else None)"
| "type_event _ g = None"

fun type_events :: "event_data list \<Rightarrow> account_context \<Rightarrow> account_context option" where
  "type_events [] g = Some g"
| "type_events (d # ds) g = Option.bind (type_event d g) (type_events ds)"

lemma type_events_snoc: "type_events (ds @ [d]) g = Option.bind (type_events ds g) (type_event d)"
  by (induction ds arbitrary: g) (auto simp: Option.bind_assoc split: Option.bind_splits)

lemma amount_typed_format: "0 < m \<Longrightarrow> amount_typed (formatMinorUnitsToMoney m)"
  by (simp add: amount_typed_def)

definition context_of :: "account_state \<Rightarrow> account_context" where
  "context_of s = \<lparr>tc_accountId = acc_accountId s, tc_currency = acc_currency s, tc_status = acc_status s\<rparr>"

text \<open>A command that is accepted extends a well-typed stream by an event that is well typed after it.\<close>

lemma operation_typed:
  assumes "account_operation c ctx st (s, us) = Inr (s', us')"
  shows "\<exists>e. us' = us @ [e] \<and> type_event (ev_data e) (context_of s) = Some (context_of s')"
  using assms
  by (cases c; cases "acc_status s")
    (auto simp: account_command_defs bind_result_Inr_iff account_simps context_of_def movement_typed_def amount_typed_format not_le
      split: if_splits)

text \<open>C22: Every stream of an account is well typed, whatever commands were sent: an account is created at most once (under a
  name that is not empty), each movement names the account and the currency it was created with, moves a positive
  amount in canonical form and comes while the account is active, and each freeze has a reason; and what
  the events declare is what the aggregate's fields say.\<close>

theorem account_streams_are_well_typed:
  "type_events (map ev_data (snd (run_commands account_operation cs new_account))) no_context
     = Some (context_of (fst (run_commands account_operation cs new_account)))"
proof -
  have "type_events (map ev_data (snd (run_commands account_operation cs a))) no_context
      = Some (context_of (fst (run_commands account_operation cs a)))"
    if "type_events (map ev_data (snd a)) no_context = Some (context_of (fst a))" for a
    using that
  proof (induction cs arbitrary: a)
    case (Cons x cs)
    obtain c ctx st where x: "x = (c, ctx, st)" by (cases x)
    show ?case
    proof (cases "account_operation c ctx st a")
      case (Inr b)
      then obtain e where "snd b = snd a @ [e]" "type_event (ev_data e) (context_of (fst a)) = Some (context_of (fst b))"
        using operation_typed [of c ctx st "fst a" "snd a" "fst b" "snd b"] by auto
      then have "type_events (map ev_data (snd b)) no_context = Some (context_of (fst b))"
        using Cons.prems by (simp add: type_events_snoc)
      from Cons.IH [OF this] show ?thesis by (simp add: x Inr)
    qed (use Cons x in simp)
  qed simp
  then show ?thesis by (simp add: new_account_def new_account_state_def no_context_def context_of_def)
qed

end
