(* ===== verification/Metering.thy ===== *)
theory Metering
  imports SagaRuns Observability
begin

text \<open>
  The transfer coordinator and the outbox publisher with the metrics they record.  The stages of the coordinator and
  the turns of the publisher are those of \<open>Saga\<close> and \<open>Outbox\<close> with the calls of \<open>observability.service.ts\<close> at
  their places; the lemmas show that the metrics change nothing and what they count.
\<close>

section \<open>The metered coordinator\<close>

text \<open>A metered program works on the state of the program and on the metrics; \<open>took\<close> is the measured duration in seconds.\<close>

type_synonym ('b, 'a) metered_prog = "('b \<times> observability, 'a) prog"

definition unmetered :: "('b, 'a) prog \<Rightarrow> ('b, 'a) metered_prog" where
  "unmetered m = on_field fst (\<lambda>b s. (b, snd s)) m"

definition records :: "(observability \<Rightarrow> observability) \<Rightarrow> ('b, unit) metered_prog" where
  "records f = modifies (\<lambda>s. (fst s, f (snd s)))"

definition records_stage :: "('b \<Rightarrow> js_number) \<Rightarrow> string \<Rightarrow> string \<Rightarrow> ('b, unit) metered_prog" where
  "records_stage took stage outcome =
     modifies (\<lambda>s. (fst s, recordTransferStage stage outcome (took (fst s)) (snd s)))"

text \<open>The labels of a leg, and the outcome that its success is recorded as.\<close>

fun leg_label :: "leg \<Rightarrow> string" where
  "leg_label LegDebit = ''debit''"
| "leg_label LegCredit = ''credit''"
| "leg_label LegCompensation = ''compensation''"

fun leg_outcome :: "leg \<Rightarrow> string option" where
  "leg_outcome LegDebit = None"
| "leg_outcome LegCredit = Some ''COMPLETED''"
| "leg_outcome LegCompensation = Some ''COMPENSATED''"

definition records_outcome :: "string option \<Rightarrow> ('b, unit) metered_prog" where
  "records_outcome status = (case status of None \<Rightarrow> returns () | Some x \<Rightarrow> records (recordTransferOutcome x))"

definition metered_catch ::
  "('es, 'ss, 't) bank_deps \<Rightarrow> (('es, 'ss, 't) bank \<Rightarrow> js_number) \<Rightarrow> leg \<Rightarrow> string \<Rightarrow> command_context \<Rightarrow> js_error
     \<Rightarrow> (('es, 'ss, 't) bank, unit) metered_prog" where
  "metered_catch d took l transferId context e =
     (case leg_stage l of
        Some stage \<Rightarrow>
          if isTerminalDomainError e
          then and_then (unmetered (via_stores
                 (transfer_handler (bd_deps d) transferId (FailTransfer (error_message e) stage) context))) (\<lambda>_.
               and_then (records_outcome (Some ''FAILED'')) (\<lambda>_. records_stage took (leg_label l) ''failure''))
          else and_then (records_stage took (leg_label l) ''failure'') (\<lambda>_. throws (RetryableTransfer (error_message e)))
      | None \<Rightarrow> and_then (records_stage took (leg_label l) ''failure'') (\<lambda>_. throws (RetryableTransfer (error_message e))))"

definition metered_leg ::
  "('es, 'ss, 't) bank_deps \<Rightarrow> (('es, 'ss, 't) bank \<Rightarrow> js_number) \<Rightarrow> leg \<Rightarrow> string \<Rightarrow> command_context \<Rightarrow> string
     \<Rightarrow> (('es, 'ss, 't) bank, unit) metered_prog" where
  "metered_leg d took l transferId context transactionId s =
     (case transfer_getById (bd_deps d) transferId (bk_stores (fst s)) of
        Inl e \<Rightarrow> (Inl e, s)
      | Inr a \<Rightarrow>
          and_then
            (if leg_resumes l (tr_status (fst a))
             then unmetered (via_stores (transfer_handler (bd_deps d) transferId (leg_start l transactionId) context))
             else returns ())
            (\<lambda>_. catching
              (and_then
                (unmetered (registry_execute d (leg_input l (fst a) transactionId)
                  (movement_handler d (show_opt (leg_party l (fst a))) (leg_command l (fst a) transactionId) context)))
                (\<lambda>_. and_then (unmetered (via_stores (transfer_handler (bd_deps d) transferId (leg_done l) context)))
                (\<lambda>_. and_then (records_outcome (leg_outcome l)) (\<lambda>_. records_stage took (leg_label l) ''success''))))
              (metered_catch d took l transferId context)) s)"

definition metered_processTransfer ::
  "('es, 'ss, 't) bank_deps \<Rightarrow> (('es, 'ss, 't) bank \<Rightarrow> js_number) \<Rightarrow> string \<Rightarrow> (('es, 'ss, 't) bank, unit) metered_prog" where
  "metered_processTransfer d took transferId s =
     (case transfer_getById (bd_deps d) transferId (bk_stores (fst s)) of
        Inl e \<Rightarrow> (Inl e, s)
      | Inr a \<Rightarrow>
          (case due_leg (fst a) of
             None \<Rightarrow> (Inr (), s)
           | Some (l, transactionId) \<Rightarrow>
               catching (metered_leg d took l (show_opt (tr_transferId (fst a)))
                   (makeContext transferId (st_uuid (dp_stamps (bd_deps d) (st_tick (bk_stores (fst s)))))) transactionId)
                 (\<lambda>_. returns ()) s))"

section \<open>The metrics change nothing\<close>

text \<open>A metered program is a program with its metrics forgotten.\<close>

definition meters :: "('b, 'a) metered_prog \<Rightarrow> ('b, 'a) prog \<Rightarrow> bool" where
  "meters m n \<longleftrightarrow> (\<forall>s. n (fst s) = (fst (m s), fst (snd (m s))))"

named_theorems metering \<open>metered programs, combinator by combinator\<close>

lemma metersI: "(\<And>s. n (fst s) = (fst (m s), fst (snd (m s)))) \<Longrightarrow> meters m n"
  by (simp add: meters_def)

lemma metersD: "meters m n \<Longrightarrow> n (fst s) = (fst (m s), fst (snd (m s)))"
  unfolding meters_def by blast

lemma meters_unmetered [metering]: "meters (unmetered m) m"
  by (rule metersI) (simp add: unmetered_def on_field_def split: prod.split)

lemma meters_returns [metering]: "meters (returns x) (returns x)" "meters (throws e) (throws e)"
  by (simp_all add: metersI)

lemma meters_records [metering]:
  "meters (records f) (returns ())" "meters (records_stage took stage outcome) (returns ())" "meters (records_outcome x) (returns ())"
  by (simp_all add: metersI records_def records_stage_def records_outcome_def split: option.split)

lemma meters_and_then [metering]:
  assumes "meters m n" "\<And>x. meters (k x) (h x)"
  shows "meters (and_then m k) (and_then n h)"
proof (rule metersI)
  fix s
  show "and_then n h (fst s) = (fst (and_then m k s), fst (snd (and_then m k s)))"
    using metersD [OF assms(1), of s] metersD [OF assms(2)]
    by (cases "m s") (auto simp: and_then_def split: sum.split)
qed

lemma meters_catching [metering]:
  assumes "meters m n" "\<And>e. meters (k e) (h e)"
  shows "meters (catching m k) (catching n h)"
proof (rule metersI)
  fix s
  show "catching n h (fst s) = (fst (catching m k s), fst (snd (catching m k s)))"
    using metersD [OF assms(1), of s] metersD [OF assms(2)]
    by (cases "m s") (auto simp: catching_def split: sum.split)
qed

text \<open>Recording after or before a program leaves no trace in it.\<close>

lemma and_then_done: "and_then n returns = n" "and_then n' (\<lambda>_. returns ()) = n'"
  by (rule ext, auto simp: and_then_def split: prod.split sum.split)+

lemma meters_recorded [metering]:
  "meters m n \<Longrightarrow> meters k (returns ()) \<Longrightarrow> meters (and_then m (\<lambda>_. k)) n"
  "meters k (returns ()) \<Longrightarrow> meters m n \<Longrightarrow> meters (and_then k (\<lambda>_. m)) n"
  using meters_and_then [of m n "\<lambda>_. k" "\<lambda>_. returns ()"] meters_and_then [of k "returns ()" "\<lambda>_. m" "\<lambda>_. n"]
  by (simp_all add: and_then_done)

lemma metered_catch_meters: "meters (metered_catch d took l T context e) (leg_catch d l T context e)"
  by (cases "leg_stage l") (auto simp: metered_catch_def leg_catch_def intro: metering)

lemma metered_leg_meters: "meters (metered_leg d took l T context x) (process_leg d l T context x)"
proof (rule metersI)
  fix s
  show "process_leg d l T context x (fst s) = (fst (metered_leg d took l T context x s), fst (snd (metered_leg d took l T context x s)))"
  proof (cases "transfer_getById (bd_deps d) T (bk_stores (fst s))")
    case (Inr a)
    have start: "meters
        (if leg_resumes l (tr_status (fst a)) then unmetered (via_stores (transfer_handler (bd_deps d) T (leg_start l x) context)) else returns ())
        (if leg_resumes l (tr_status (fst a)) then via_stores (transfer_handler (bd_deps d) T (leg_start l x) context) else returns ())"
      by (cases "leg_resumes l (tr_status (fst a))") (simp_all only: if_True if_False meters_unmetered meters_returns)
    show ?thesis
      unfolding process_leg_def metered_leg_def Inr sum.case
      by (rule metersD, intro meters_and_then start meters_catching meters_unmetered metered_catch_meters meters_recorded(1) meters_records)
  qed (simp add: process_leg_def metered_leg_def)
qed

text \<open>The metrics have no influence on the transfers: with its metrics forgotten the metered coordinator does what the
  coordinator does.\<close>

theorem metrics_change_no_transfer:
  "processTransfer d T b =
     (case metered_processTransfer d took T (b, ob) of (r, s) \<Rightarrow> (r, fst s))"
proof (cases "transfer_getById (bd_deps d) T (bk_stores b)")
  case (Inr a)
  show ?thesis
  proof (cases "due_leg (fst a)")
    case (Some lx)
    obtain l x where lx: "lx = (l, x)" by (cases lx)
    note metersD [OF meters_catching [OF metered_leg_meters meters_returns(1)], where s = "(b, ob)",
        of d l "show_opt (tr_transferId (fst a))" "makeContext T (st_uuid (dp_stamps (bd_deps d) (st_tick (bk_stores b))))" x
          "\<lambda>_. ()" took]
    then show ?thesis by (simp add: processTransfer_due metered_processTransfer_def Inr Some lx split: prod.split)
  qed (simp add: processTransfer_due metered_processTransfer_def Inr)
qed (simp add: processTransfer_due metered_processTransfer_def)

section \<open>What the outcomes count\<close>

text \<open>The status under which an event of a transfer ends a leg in the metric of the outcomes.\<close>

fun ending :: "event_data \<Rightarrow> string option" where
  "ending (TransferCompleted _) = Some ''COMPLETED''"
| "ending (TransferFailed _ _ _) = Some ''FAILED''"
| "ending (TransferCompensated _ _) = Some ''COMPENSATED''"
| "ending _ = None"

definition count_endings :: "domain_event list \<Rightarrow> metric \<Rightarrow> metric" where
  "count_endings events m =
     fold (\<lambda>status. metric_inc [(''status'', status)] (JsFin 1)) (List.map_filter (\<lambda>e. ending (ev_data e)) events) m"

lemma count_endings_simps [simp]:
  "count_endings [] m = m"
  "count_endings (es @ [e]) m = (case ending (ev_data e) of
     None \<Rightarrow> count_endings es m | Some status \<Rightarrow> metric_inc [(''status'', status)] (JsFin 1) (count_endings es m))"
  "count_endings (es @ fs) m = count_endings fs (count_endings es m)"
  by (simp_all add: count_endings_def map_filter_def split: option.split)

fun command_ending :: "transfer_command \<Rightarrow> string option" where
  "command_ending CompleteTransfer = Some ''COMPLETED''"
| "command_ending (FailTransfer _ _) = Some ''FAILED''"
| "command_ending CompleteTransferCompensation = Some ''COMPENSATED''"
| "command_ending _ = None"

lemma command_data_ending: "command_data c s = Inr data \<Longrightarrow> ending data = command_ending c"
  by (cases c) (auto simp: bind_result_Inr_iff split: if_splits)

lemma leg_endings [simp]: "command_ending (leg_start l x) = None" "command_ending (leg_done l) = leg_outcome l"
  by (cases l; simp)+

context saga_bank
begin

text \<open>A program counts the endings of a transfer: the metric of the outcomes grows by the events it adds to the stream.\<close>

definition counts :: "string \<Rightarrow> (('es, 'ss, 't) bank, 'a) metered_prog \<Rightarrow> bool" where
  "counts T m \<longleftrightarrow> (\<forall>b ob. sound (st_events (bk_stores b)) (st_snapshots (bk_stores b)) \<longrightarrow>
     (case m (b, ob) of (r, (b', ob')) \<Rightarrow>
        sound (st_events (bk_stores b')) (st_snapshots (bk_stores b'))
        \<and> (\<exists>new. stream (st_events (bk_stores b')) (transfer_stream T) = stream (st_events (bk_stores b)) (transfer_stream T) @ new
             \<and> ob_transferOutcomesTotal ob' = count_endings new (ob_transferOutcomesTotal ob))))"

lemma countsI:
  assumes "\<And>b ob r b' ob'. sound (st_events (bk_stores b)) (st_snapshots (bk_stores b)) \<Longrightarrow> m (b, ob) = (r, (b', ob')) \<Longrightarrow>
    sound (st_events (bk_stores b')) (st_snapshots (bk_stores b'))
    \<and> (\<exists>new. stream (st_events (bk_stores b')) (transfer_stream T) = stream (st_events (bk_stores b)) (transfer_stream T) @ new
         \<and> ob_transferOutcomesTotal ob' = count_endings new (ob_transferOutcomesTotal ob))"
  shows "counts T m"
  unfolding counts_def using assms by (auto split: prod.split)

lemma countsD:
  assumes "counts T m" "sound (st_events (bk_stores b)) (st_snapshots (bk_stores b))" "m (b, ob) = (r, (b', ob'))"
  shows "sound (st_events (bk_stores b')) (st_snapshots (bk_stores b'))"
    and "\<exists>new. stream (st_events (bk_stores b')) (transfer_stream T) = stream (st_events (bk_stores b)) (transfer_stream T) @ new
         \<and> ob_transferOutcomesTotal ob' = count_endings new (ob_transferOutcomesTotal ob)"
  using assms unfolding counts_def by (auto dest!: spec [of _ b] spec [of _ ob])

lemma counts_nothing: "counts T (\<lambda>s. (f s, s))"
  by (rule countsI) auto

lemma counts_returns [intro]: "counts T (returns x)" "counts T (throws e)"
  using counts_nothing by (simp_all add: returns_def throws_def)

lemma counts_stage [intro]: "counts T (records_stage took stage outcome)"
  by (rule countsI) (auto simp: records_stage_def recordTransferStage_def Let_def)

lemma counts_and_then [intro]:
  assumes "counts T m" "\<And>x. counts T (k x)"
  shows "counts T (and_then m k)"
proof (rule countsI)
  fix b ob r b' ob'
  assume b: "sound (st_events (bk_stores b)) (st_snapshots (bk_stores b))" "and_then m k (b, ob) = (r, (b', ob'))"
  obtain r1 b1 ob1 where m: "m (b, ob) = (r1, (b1, ob1))" by (metis surj_pair)
  note first = countsD [OF assms(1) b(1) m]
  show "sound (st_events (bk_stores b')) (st_snapshots (bk_stores b'))
    \<and> (\<exists>new. stream (st_events (bk_stores b')) (transfer_stream T) = stream (st_events (bk_stores b)) (transfer_stream T) @ new
         \<and> ob_transferOutcomesTotal ob' = count_endings new (ob_transferOutcomesTotal ob))"
  proof (cases r1)
    case (Inl e)
    then show ?thesis using first m b(2) by (auto simp: and_then_def)
  next
    case (Inr x)
    with b(2) m have "k x (b1, ob1) = (r, (b', ob'))" by simp
    from countsD [OF assms(2) first(1) this] first(2) show ?thesis
      by (metis append_assoc count_endings_simps(3))
  qed
qed

lemma counts_catching [intro]:
  assumes "counts T m" "\<And>e. counts T (k e)"
  shows "counts T (catching m k)"
proof (rule countsI)
  fix b ob r b' ob'
  assume b: "sound (st_events (bk_stores b)) (st_snapshots (bk_stores b))" "catching m k (b, ob) = (r, (b', ob'))"
  obtain r1 b1 ob1 where m: "m (b, ob) = (r1, (b1, ob1))" by (metis surj_pair)
  note first = countsD [OF assms(1) b(1) m]
  show "sound (st_events (bk_stores b')) (st_snapshots (bk_stores b'))
    \<and> (\<exists>new. stream (st_events (bk_stores b')) (transfer_stream T) = stream (st_events (bk_stores b)) (transfer_stream T) @ new
         \<and> ob_transferOutcomesTotal ob' = count_endings new (ob_transferOutcomesTotal ob))"
  proof (cases r1)
    case (Inr x)
    then show ?thesis using first m b(2) by (auto simp: catching_def)
  next
    case (Inl e)
    with b(2) m have "k e (b1, ob1) = (r, (b', ob'))" by simp
    from countsD [OF assms(2) first(1) this] first(2) show ?thesis
      by (metis append_assoc count_endings_simps(3))
  qed
qed

text \<open>The movement of a leg adds nothing to the stream of a transfer.\<close>

lemma counts_registry:
  assumes "quiet d"
  shows "counts T (unmetered (registry_execute d input (movement_handler d a c context)))"
proof (rule countsI)
  fix b :: "('es, 'ss, 't) bank" and ob r b' ob'
  assume b: "sound (st_events (bk_stores b)) (st_snapshots (bk_stores b))"
    "unmetered (registry_execute d input (movement_handler d a c context)) (b, ob) = (r, (b', ob'))"
  then have ob: "ob' = ob" and "registry_execute d input (movement_handler d a c context) b = (r, b')"
    by (auto simp: unmetered_def on_field_def split: prod.splits)
  then have "bk_stores b' = bk_stores b \<or> (\<exists>out. movement_handler d a c context (bk_stores b) = (out, bk_stores b'))"
    by (auto simp: registry_execute_def on_field_def transaction_execute_def split: prod.splits admission.splits)
  then have "bk_stores b' = bk_stores b \<or> (\<exists>r. account_handler (bd_deps d) a c context (bk_stores b) = (r, bk_stores b'))"
    by (auto simp: movement_handler_def and_then_def split: prod.splits sum.splits)
  then have "sound (st_events (bk_stores b')) (st_snapshots (bk_stores b'))
      \<and> stream (st_events (bk_stores b')) (transfer_stream T) = stream (st_events (bk_stores b)) (transfer_stream T)"
  proof (elim disjE exE)
    fix r
    assume run: "account_handler (bd_deps d) a c context (bk_stores b) = (r, bk_stores b')"
    from account_run [OF assms b(1) run] show ?thesis by (auto split: sum.splits)
  qed (use b(1) in simp)
  then show "sound (st_events (bk_stores b')) (st_snapshots (bk_stores b'))
      \<and> (\<exists>new. stream (st_events (bk_stores b')) (transfer_stream T) = stream (st_events (bk_stores b)) (transfer_stream T) @ new
           \<and> ob_transferOutcomesTotal ob' = count_endings new (ob_transferOutcomesTotal ob))"
    using ob by simp
qed

text \<open>A command to the transfer, with the outcome recorded after it when it is accepted.\<close>

lemma transfer_command_event:
  assumes "quiet d" "sound (st_events s) (st_snapshots s)" "\<And>v a b amount cur. c \<noteq> InitiateTransfer v a b amount cur"
    and "transfer_handler (bd_deps d) T c context s = (r, s')"
  shows "sound (st_events s') (st_snapshots s')
    \<and> (\<exists>new. stream (st_events s') (transfer_stream T) = stream (st_events s) (transfer_stream T) @ new
         \<and> (case r of Inl _ \<Rightarrow> new = [] | Inr _ \<Rightarrow> \<exists>e. new = [e] \<and> ending (ev_data e) = command_ending c))"
proof -
  from assms(3,4) have "transfer_executeWithRetry (bd_deps d) T (transfer_operation c context) s = (r, s')"
  proof (cases c)
    case (InitiateTransfer v a b amount cur)
    then show ?thesis using assms(3) by blast
  qed (use assms(4) in \<open>simp_all add: transfer_handler_def\<close>)
  from transfer_execute_outcome [OF quiet_fair [OF assms(1)] assms(2) this]
  show ?thesis
    using quiet_drift [OF assms(1), of _ s]
    by (cases r)
      (auto simp del: drift_simps simp: transfer_committed_def transfer_operation_event same_core_def transfer_makeEvent_fields
        dest!: command_data_ending)
qed

lemma counts_command:
  assumes "quiet d" "\<And>v a b amount cur. c \<noteq> InitiateTransfer v a b amount cur"
  shows "counts T (and_then (unmetered (via_stores (transfer_handler (bd_deps d) T c context)))
    (\<lambda>_. records_outcome (command_ending c)))"
proof (rule countsI)
  fix b :: "('es, 'ss, 't) bank" and ob r b' ob'
  let ?m = "unmetered (via_stores (transfer_handler (bd_deps d) T c context))"
  assume b: "sound (st_events (bk_stores b)) (st_snapshots (bk_stores b))"
    "and_then ?m (\<lambda>_. records_outcome (command_ending c)) (b, ob) = (r, (b', ob'))"
  obtain q s' where run: "transfer_handler (bd_deps d) T c context (bk_stores b) = (q, s')" by fastforce
  then have "?m (b, ob) = (q, (b\<lparr>bk_stores := s'\<rparr>, ob))"
    by (simp add: unmetered_def via_stores_def on_field_def)
  with b(2) have "bk_stores b' = s'" "ob' = (case q of Inl _ \<Rightarrow> ob
      | Inr _ \<Rightarrow> (case command_ending c of None \<Rightarrow> ob | Some x \<Rightarrow> recordTransferOutcome x ob))"
    by (auto simp: and_then_def records_outcome_def records_def split: sum.splits option.splits)
  then show "sound (st_events (bk_stores b')) (st_snapshots (bk_stores b'))
      \<and> (\<exists>new. stream (st_events (bk_stores b')) (transfer_stream T) = stream (st_events (bk_stores b)) (transfer_stream T) @ new
           \<and> ob_transferOutcomesTotal ob' = count_endings new (ob_transferOutcomesTotal ob))"
    using transfer_command_event [OF assms(1) b(1) assms(2) run] count_endings_simps(2) [of "[]"]
    by (cases q) (auto simp: recordTransferOutcome_def split: option.splits)
qed

lemma counts_leg:
  assumes "quiet d"
  shows "counts T (metered_leg d took l T context x)"
proof -
  have "counts T (and_then (unmetered (via_stores (transfer_handler (bd_deps d) T (leg_start l x) context)))
      (\<lambda>_. records_outcome (command_ending (leg_start l x))))"
    by (rule counts_command [OF assms leg_not_initiate(1)])
  then have start: "counts T (unmetered (via_stores (transfer_handler (bd_deps d) T (leg_start l x) context)))"
    by (simp add: records_outcome_def and_then_done)
  have ends: "counts T (and_then (unmetered (via_stores (transfer_handler (bd_deps d) T c context)))
      (\<lambda>_. and_then (records_outcome (command_ending c)) (\<lambda>_. records_stage took (leg_label l) outcome)))"
    if "\<And>v a b amount cur. c \<noteq> InitiateTransfer v a b amount cur" for c outcome
    unfolding and_then_assoc [symmetric] by (rule counts_and_then [OF counts_command [OF assms that] counts_stage])
  have catch: "counts T (metered_catch d took l T context e)" for e
    using ends [of "FailTransfer (error_message e) stage" for stage]
    by (cases "leg_stage l") (auto simp: metered_catch_def)
  have "counts T (\<lambda>s. metered_leg d took l T context x s)"
  proof (rule countsI)
    fix b :: "('es, 'ss, 't) bank" and ob r b' ob'
    assume b: "sound (st_events (bk_stores b)) (st_snapshots (bk_stores b))" "metered_leg d took l T context x (b, ob) = (r, (b', ob'))"
    show "sound (st_events (bk_stores b')) (st_snapshots (bk_stores b'))
        \<and> (\<exists>new. stream (st_events (bk_stores b')) (transfer_stream T) = stream (st_events (bk_stores b)) (transfer_stream T) @ new
             \<and> ob_transferOutcomesTotal ob' = count_endings new (ob_transferOutcomesTotal ob))"
    proof (cases "transfer_getById (bd_deps d) T (bk_stores b)")
      case (Inr a)
      let ?m = "and_then (if leg_resumes l (tr_status (fst a))
             then unmetered (via_stores (transfer_handler (bd_deps d) T (leg_start l x) context)) else returns ())
          (\<lambda>_. catching
            (and_then (unmetered (registry_execute d (leg_input l (fst a) x)
                (movement_handler d (show_opt (leg_party l (fst a))) (leg_command l (fst a) x) context)))
              (\<lambda>_. and_then (unmetered (via_stores (transfer_handler (bd_deps d) T (leg_done l) context)))
              (\<lambda>_. and_then (records_outcome (leg_outcome l)) (\<lambda>_. records_stage took (leg_label l) ''success''))))
            (metered_catch d took l T context))"
      have started: "counts T (if leg_resumes l (tr_status (fst a))
             then unmetered (via_stores (transfer_handler (bd_deps d) T (leg_start l x) context)) else returns ())"
        by (simp only: start counts_returns split: if_split) simp
      have "counts T ?m"
        by (rule ends [OF leg_not_initiate(2), unfolded leg_endings] counts_and_then counts_catching counts_registry [OF assms] catch
            started)+
      moreover have "?m (b, ob) = (r, (b', ob'))" using b(2) by (simp add: metered_leg_def Inr)
      ultimately show ?thesis using countsD b(1) by blast
    qed (use b in \<open>auto simp: metered_leg_def\<close>)
  qed
  then show ?thesis .
qed

lemma counts_transfer:
  assumes "quiet d" "sound (st_events (bk_stores b)) (st_snapshots (bk_stores b))"
    and "\<And>a. transfer_getById (bd_deps d) T (bk_stores b) = Inr a \<Longrightarrow> tr_status (fst a) \<noteq> None \<Longrightarrow> tr_transferId (fst a) = Some T"
    and "metered_processTransfer d took T (b, ob) = (r, (b', ob'))"
  shows "\<exists>new. stream (st_events (bk_stores b')) (transfer_stream T) = stream (st_events (bk_stores b)) (transfer_stream T) @ new
    \<and> ob_transferOutcomesTotal ob' = count_endings new (ob_transferOutcomesTotal ob)"
proof (cases "transfer_getById (bd_deps d) T (bk_stores b)")
  case (Inr a)
  show ?thesis
  proof (cases "due_leg (fst a)")
    case (Some lx)
    obtain l x where lx: "lx = (l, x)" by (cases lx)
    have "tr_status (fst a) \<noteq> None" using Some by (cases "tr_status (fst a)") (simp_all add: due_leg_def Let_def)
    then have "show_opt (tr_transferId (fst a)) = T" using assms(3) [OF Inr] by (simp add: show_opt_def)
    then have "catching (metered_leg d took l T (makeContext T (st_uuid (dp_stamps (bd_deps d) (st_tick (bk_stores b))))) x)
        (\<lambda>_. returns ()) (b, ob) = (r, (b', ob'))"
      using assms(4) by (simp add: metered_processTransfer_def Inr Some lx)
    from countsD(2) [OF counts_catching [OF counts_leg [OF assms(1)] counts_returns(1)] assms(2) this] show ?thesis .
  qed (use assms(4) in \<open>auto simp: metered_processTransfer_def Inr\<close>)
qed (use assms(4) in \<open>auto simp: metered_processTransfer_def\<close>)

end

text \<open>C39: The metric of the outcomes counts what is recorded in the streams: whatever one round of the coordinator does to a
  transfer, it counts exactly the completions, failures and compensations that it has added to the stream of the
  transfer, each under its status.  (A transfer that fails at its credit and is paid back is counted twice, as
  FAILED and as COMPENSATED.)\<close>

theorem outcomes_count_endings:
  assumes "postgres_stores.sound (st_events (bk_stores b)) (st_snapshots (bk_stores b))"
    and "\<And>a. transfer_getById (bd_deps (pg_bank stamps clock)) T (bk_stores b) = Inr a \<Longrightarrow> tr_status (fst a) \<noteq> None
      \<Longrightarrow> tr_transferId (fst a) = Some T"
    and "metered_processTransfer (pg_bank stamps clock) took T (b, ob) = (r, (b', ob'))"
  shows "\<exists>new. pg_stream (st_events (bk_stores b')) (transfer_stream T) = pg_stream (st_events (bk_stores b)) (transfer_stream T) @ new
    \<and> ob_transferOutcomesTotal ob' = count_endings new (ob_transferOutcomesTotal ob)"
  by (rule postgres_saga.counts_transfer [OF pg_bank_quiet assms])

definition metered_bank :: "(pg_events, pg_snapshots, pg_transactions) bank_deps" where
  "metered_bank = pg_bank (\<lambda>n. \<lparr>st_uuid = show_nat n, st_now = int n\<rparr>) (\<lambda>s. 0)"

definition metered_clients :: "act list" where
  "metered_clients =
     [ClientAccount ''a'' (CreateAccount ''a'' ''o'' ''USD''), ClientAccount ''b'' (CreateAccount ''b'' ''o'' ''USD''),
      ClientTransfer ''a'' ''b'' (StringAmount ''5.00'') ''USD'']"

text \<open>An account without money: its transfer fails in one round, and the failure is counted.\<close>

theorem outcomes_count_endings_witness:
  "\<exists>s t w. run_schedule metered_bank ''T'' sample_context metered_clients (empty_pg_stores, [], Map.empty) = (s, t, w)
     \<and> (\<exists>new. pg_stream (st_events (bk_stores (fst (snd (metered_processTransfer metered_bank (\<lambda>b. JsFin 0) ''T''
            (\<lparr>bk_stores = s, bk_txns = t\<rparr>, new_observability 0)))))) (transfer_stream ''T'')
          = pg_stream (st_events s) (transfer_stream ''T'') @ new
        \<and> ob_transferOutcomesTotal (snd (snd (metered_processTransfer metered_bank (\<lambda>b. JsFin 0) ''T''
            (\<lparr>bk_stores = s, bk_txns = t\<rparr>, new_observability 0))))
          = count_endings new (ob_transferOutcomesTotal (new_observability 0)))"
proof -
  let ?g = "run_schedule metered_bank ''T'' sample_context metered_clients (empty_pg_stores, [], Map.empty)"
  obtain s t w where g: "?g = (s, t, w)" by (rule prod_cases3)
  obtain ls where "path (saga_step metered_bank ''T'') (empty_pg_stores, [], Map.empty) ls (s, t, w)"
    using schedule_is_path g by metis
  moreover have "plain_id ''T''" by (simp add: plain_id_def caught_errors_def isTerminalDomainError_def transfer_conflict_def)
  ultimately have "postgres_saga.saga_ok ''T'' (s, t, w)"
    unfolding metered_bank_def using postgres_saga.saga_path_ok pg_saga_start pg_bank_quiet by blast
  then have sound: "postgres_stores.sound (st_events s) (st_snapshots s)" by (simp add: postgres_saga.saga_ok_def)
  have "case transfer_getById (bd_deps metered_bank) ''T'' (fst ?g) of Inl e \<Rightarrow> True | Inr a \<Rightarrow> tr_transferId (fst a) = Some ''T''"
    by code_simp
  then have i: "tr_transferId (fst a) = Some ''T''" if "transfer_getById (bd_deps metered_bank) ''T'' s = Inr a" for a
    using that g by simp
  obtain r b' ob' where run: "metered_processTransfer metered_bank (\<lambda>b. JsFin 0) ''T''
      (\<lparr>bk_stores = s, bk_txns = t\<rparr>, new_observability 0) = (r, (b', ob'))" by (metis surj_pair)
  from g run outcomes_count_endings [OF _ _ run [unfolded metered_bank_def]] sound i
  show ?thesis by (auto simp: metered_bank_def)
qed

section \<open>The metered publisher\<close>

definition metered_message ::
  "'o outbox_ops \<Rightarrow> 'k broker \<Rightarrow> int \<Rightarrow> outbox_message \<Rightarrow> ('o, 'k) publisher \<times> observability \<Rightarrow> ('o, 'k) publisher \<times> observability" where
  "metered_message ops publish now message s =
     (publish_message ops publish now message (fst s),
      case fst (publish (pb_broker (fst s)) message) of
        None \<Rightarrow> recordOutboxPublishSuccess (om_topic message) (snd s)
      | Some _ \<Rightarrow> recordOutboxPublishFailure (om_topic message) (snd s))"

definition metered_turn ::
  "'o outbox_ops \<Rightarrow> 'k broker \<Rightarrow> int \<Rightarrow> ('o, 'k) publisher \<times> observability \<Rightarrow> ('o, 'k) publisher \<times> observability" where
  "metered_turn ops publish now s =
     (case ob_claimPending ops BATCH_SIZE (pb_outbox (fst s)) of
        (messages, o') \<Rightarrow>
          fold (metered_message ops publish now) messages
            ((fst s)\<lparr>pb_outbox := o'\<rparr>, recordOutboxClaimBatch (length messages) (snd s)))"

fun metered_turns ::
  "'o outbox_ops \<Rightarrow> 'k broker \<Rightarrow> int list \<Rightarrow> ('o, 'k) publisher \<times> observability \<Rightarrow> ('o, 'k) publisher \<times> observability" where
  "metered_turns ops publish [] s = s"
| "metered_turns ops publish (now # nows) s = metered_turns ops publish nows (metered_turn ops publish now s)"

definition count_published :: "outbox_message list \<Rightarrow> metric \<Rightarrow> metric" where
  "count_published ms m = fold (\<lambda>x. metric_inc [(''topic'', om_topic x)] (JsFin 1)) ms m"

definition sent_and_counted :: "('o, 'k) publisher \<times> observability \<Rightarrow> ('o, 'k) publisher \<times> observability \<Rightarrow> bool" where
  "sent_and_counted s s' \<longleftrightarrow> (\<exists>sent. pb_sent (fst s') = pb_sent (fst s) @ sent
     \<and> ob_outboxMessagesPublishedTotal (snd s') = count_published sent (ob_outboxMessagesPublishedTotal (snd s)))"

lemma sent_and_counted_refl: "pb_sent (fst s') = pb_sent (fst s) \<Longrightarrow>
  ob_outboxMessagesPublishedTotal (snd s') = ob_outboxMessagesPublishedTotal (snd s) \<Longrightarrow> sent_and_counted s s'"
  by (auto simp: sent_and_counted_def count_published_def)

lemma sent_and_counted_trans: "sent_and_counted s s' \<Longrightarrow> sent_and_counted s' s'' \<Longrightarrow> sent_and_counted s s''"
  unfolding sent_and_counted_def count_published_def by (elim exE conjE) (auto intro!: exI [of _ "_ @ _"])

lemma metered_messages:
  "fst (fold (metered_message ops publish now) ms s) = fold (publish_message ops publish now) ms (fst s)
    \<and> sent_and_counted s (fold (metered_message ops publish now) ms s)"
proof (induction ms arbitrary: s)
  case Nil
  then show ?case by (simp add: sent_and_counted_refl)
next
  case (Cons m ms)
  have "sent_and_counted s (metered_message ops publish now m s)"
    by (auto simp: sent_and_counted_def count_published_def metered_message_def publish_message_def recordOutboxPublishSuccess_def
        recordOutboxPublishFailure_def split: prod.split option.split)
  with Cons [of "metered_message ops publish now m s"] show ?case
    by (auto simp: metered_message_def intro: sent_and_counted_trans)
qed

lemma metered_one_turn:
  "fst (metered_turn ops publish now s) = publisher_turn ops publish now (fst s) \<and> sent_and_counted s (metered_turn ops publish now s)"
proof -
  obtain ms o' where claim: "ob_claimPending ops BATCH_SIZE (pb_outbox (fst s)) = (ms, o')" by fastforce
  let ?s = "((fst s)\<lparr>pb_outbox := o'\<rparr>, recordOutboxClaimBatch (length ms) (snd s))"
  have "sent_and_counted s ?s" by (rule sent_and_counted_refl) (simp_all add: recordOutboxClaimBatch_def)
  with metered_messages [of ops publish now ms ?s] show ?thesis
    by (auto simp: metered_turn_def publisher_turn_def claim intro: sent_and_counted_trans)
qed

text \<open>The metrics have no influence on what is published, and the counter of the published messages counts, by topic, the
  messages the broker has accepted.\<close>

theorem published_counter_counts_sent:
  "fst (metered_turns ops publish nows (s, ob)) = publisher_turns ops publish nows s
    \<and> (\<exists>sent. pb_sent (publisher_turns ops publish nows s) = pb_sent s @ sent
        \<and> ob_outboxMessagesPublishedTotal (snd (metered_turns ops publish nows (s, ob)))
          = count_published sent (ob_outboxMessagesPublishedTotal ob))"
proof -
  have "fst (metered_turns ops publish nows x) = publisher_turns ops publish nows (fst x)
      \<and> sent_and_counted x (metered_turns ops publish nows x)" for x
  proof (induction nows arbitrary: x)
    case (Cons now nows)
    from Cons [of "metered_turn ops publish now x"] metered_one_turn [of ops publish now x] show ?case
      by (auto intro: sent_and_counted_trans)
  qed (simp add: sent_and_counted_refl)
  from this [of "(s, ob)"] show ?thesis by (auto simp: sent_and_counted_def)
qed

end
