(* ===== verification/Delivery.thy ===== *)
theory Delivery
  imports Consumers
begin

text \<open>
  The whole way of an event: commands commit to the Postgres event store, the publisher carries the rows of the outbox
  to an accepting broker, and the consumer of the account topic projects them into the read models.
\<close>

section \<open>Commits and turns of the publisher\<close>

text \<open>
  Writers append to the streams of accounts and transfers, successfully or not, and one publisher takes its turns in
  between; the broker accepts every message, and the server reports claimed rows in the order of the selection.
\<close>

definition accepting :: "'k broker" where
  "accepting k message = (None, k)"

datatype delivery_label = Commit string | PublishTurn

inductive delivery_step ::
  "pg_events \<times> outbox_message list \<Rightarrow> delivery_label \<Rightarrow> pg_events \<times> outbox_message list \<Rightarrow> bool" where
  commit: "sid = account_stream x \<or> sid = transfer_stream x \<Longrightarrow> pg_append sid events expected s = (r, s') \<Longrightarrow>
    delivery_step (s, sent) (Commit sid) (s', sent)"
| publish_turn: "publisher_turn (postgres_outbox_store (\<lambda>rows. rows) {} now) accepting now
      \<lparr>pb_outbox = pg_outbox s, pb_broker = (), pb_sent = sent\<rparr> = b \<Longrightarrow>
    delivery_step (s, sent) PublishTurn (s\<lparr>pg_outbox := pb_outbox b\<rparr>, pb_sent b)"

definition account_topic :: "outbox_message list \<Rightarrow> domain_event list" where
  "account_topic sent = map om_payload (filter (\<lambda>m. om_topic m = ''account-events'') sent)"

section \<open>What has been sent\<close>

definition waits :: "outbox_row \<Rightarrow> bool" where
  "waits m \<longleftrightarrow> om_publishedAt m = None \<and> or_processing_started_at m = None"

definition ships :: "'a outbox_message_scheme \<Rightarrow> string \<times> domain_event" where
  "ships m = (om_topic m, om_payload m)"

text \<open>The rows that have been sent are the first ones of the table, and the rest is waiting.\<close>

definition sent_in_order :: "pg_events \<times> outbox_message list \<Rightarrow> bool" where
  "sent_in_order x \<longleftrightarrow> pg_inv (fst x)
     \<and> (\<forall>r \<in> set (pg_rows (fst x)). \<exists>y. ev_streamId (er_event r) = account_stream y \<or> ev_streamId (er_event r) = transfer_stream y)
     \<and> (\<exists>finished rest. pg_outbox (fst x) = finished @ rest \<and> (\<forall>m \<in> set finished. om_publishedAt m \<noteq> None) \<and> (\<forall>m \<in> set rest. waits m)
          \<and> map ships (snd x) = map ships finished)"

lemma sent_in_orderI:
  assumes "pg_inv s" "\<forall>r \<in> set (pg_rows s). \<exists>y. ev_streamId (er_event r) = account_stream y \<or> ev_streamId (er_event r) = transfer_stream y"
    and "pg_outbox s = finished @ rest" "\<forall>m \<in> set finished. om_publishedAt m \<noteq> None" "\<forall>m \<in> set rest. waits m"
    and "map ships sent = map ships finished"
  shows "sent_in_order (s, sent)"
  unfolding sent_in_order_def fst_conv snd_conv using assms by blast

lemma insert_events_extend:
  "insert_events sid v es s = (r, s') \<Longrightarrow>
     (\<exists>new. pg_rows s' = pg_rows s @ new \<and> (\<forall>x \<in> set new. ev_streamId (er_event x) = sid))
     \<and> (\<exists>new. pg_outbox s' = pg_outbox s @ new \<and> (\<forall>m \<in> set new. waits m))"
proof (induction es arbitrary: v s)
  case Nil
  then show ?case by simp
next
  case (Cons e es)
  let ?e = "e\<lparr>ev_streamId := sid, ev_streamVersion := v + 1\<rparr>"
  show ?case
  proof (cases "violates_unique ?e (pg_rows s)")
    case True
    then show ?thesis using Cons.prems by (auto simp: insert_event_def Let_def)
  next
    case False
    let ?i = "pg_sequence s + 1"
    let ?s1 = "s\<lparr>pg_sequence := ?i, pg_rows := pg_rows s @ [\<lparr>er_id = ?i, er_event = ?e\<rparr>],
        pg_outbox := outbox_insert (pg_message sid ?e ?i) (pg_outbox s)\<rparr>"
    have "insert_events sid (v + 1) es ?s1 = (r, s')"
      using Cons.prems False by (simp add: insert_event_def Let_def)
    from Cons.IH [OF this] obtain rows msgs where
      "pg_rows s' = pg_rows ?s1 @ rows" "\<forall>x \<in> set rows. ev_streamId (er_event x) = sid"
      "pg_outbox s' = pg_outbox ?s1 @ msgs" "\<forall>m \<in> set msgs. waits m" by blast
    moreover have "waits (pg_message sid ?e ?i)" by (simp add: waits_def pg_message_def)
    ultimately show ?thesis by (auto simp: outbox_insert_def)
  qed
qed

lemma append_extends:
  assumes "pg_append sid events expected s = (r, s')"
  shows "(\<exists>new. pg_rows s' = pg_rows s @ new \<and> (\<forall>x \<in> set new. ev_streamId (er_event x) = sid))
     \<and> (\<exists>new. pg_outbox s' = pg_outbox s @ new \<and> (\<forall>m \<in> set new. waits m))"
  using assms insert_events_extend [of sid "max_version sid s" events s]
  by (auto simp: pg_append_def Let_def split: if_splits prod.splits sum.splits)

text \<open>A turn against an accepting broker publishes the batch it claims, row by row.\<close>

definition marked :: "int \<Rightarrow> outbox_row \<Rightarrow> outbox_row" where
  "marked now r = r\<lparr>om_publishedAt := Some now, or_processing_started_at := None, om_lastError := None\<rparr>"

lemma accepted_batch:
  assumes "distinct (map om_id ms)"
  shows "fold (publish_message (postgres_outbox_store returning locked now0) accepting now) ms b =
    b\<lparr>pb_outbox := map (\<lambda>r. if om_id r \<in> om_id ` set ms then marked now r else r) (pb_outbox b), pb_sent := pb_sent b @ ms\<rparr>"
  using assms
proof (induction ms arbitrary: b)
  case Nil
  then show ?case by simp
next
  case (Cons m ms)
  have "marked now (marked now r) = marked now r" "om_id (marked now r) = om_id r" for r by (simp_all add: marked_def)
  then show ?case
    using Cons.IH [of "publish_message (postgres_outbox_store returning locked now0) accepting now m b"] Cons.prems
    by (simp add: publish_message_def postgres_outbox_store_def po_markPublished_def marked_def accepting_def)
qed

lemma sorted_rows:
  assumes "pg_inv s"
  shows "sorted (map po_key (pg_outbox s))" "distinct (map om_id (pg_outbox s))"
proof -
  from assms have covers: "outbox_covers (pg_rows s) (pg_outbox s)" and ids: "sorted_wrt (<) (map er_id (pg_rows s))"
    and distinct: "distinct (pg_ids s)" by (simp_all add: pg_inv_def)
  note eq = covers [unfolded outbox_covers_def]
  have "map om_id (pg_outbox s) = pg_ids s" using arg_cong [OF eq, of "map fst"] by (simp add: pg_ids_def comp_def)
  with distinct show "distinct (map om_id (pg_outbox s))" by simp
  have positions: "map om_eventPosition (pg_outbox s) = map Some (map er_id (pg_rows s))"
    using arg_cong [OF eq, of "map (\<lambda>x. snd (snd (snd (snd x))))"] by (simp add: comp_def)
  then have len: "length (pg_outbox s) = length (pg_rows s)" by (metis length_map)
  show "sorted (map po_key (pg_outbox s))"
  proof (unfold sorted_iff_nth_mono_less, intro allI impI)
    fix i j
    assume ij: "i < j" "j < length (map po_key (pg_outbox s))"
    have "om_eventPosition (pg_outbox s ! k) = Some (er_id (pg_rows s ! k))" if "k < length (pg_outbox s)" for k
      using arg_cong [OF positions, of "\<lambda>xs. xs ! k"] that len by simp
    moreover have "er_id (pg_rows s ! i) < er_id (pg_rows s ! j)"
      using sorted_wrt_nth_less [OF ids] ij len by simp
    ultimately show "map po_key (pg_outbox s) ! i \<le> map po_key (pg_outbox s) ! j"
      using ij by (simp add: po_key_def)
  qed
qed

lemma accepted_turn:
  assumes "pg_inv s" "pg_outbox s = finished @ rest" "\<forall>m \<in> set finished. om_publishedAt m \<noteq> None" "\<forall>m \<in> set rest. waits m"
    and "publisher_turn (postgres_outbox_store (\<lambda>rows. rows) {} now) accepting now
      \<lparr>pb_outbox = pg_outbox s, pb_broker = (), pb_sent = sent\<rparr> = b"
  shows "pb_outbox b = map (\<lambda>r. if om_id r \<in> om_id ` set (take BATCH_SIZE rest) then marked now r else r) (pg_outbox s)"
    and "pb_outbox b = (finished @ map (marked now) (take BATCH_SIZE rest)) @ drop BATCH_SIZE rest"
    and "pb_sent b = sent @ map outbox_message.truncate (take BATCH_SIZE rest)"
proof -
  let ?batch = "take BATCH_SIZE rest" and ?later = "drop BATCH_SIZE rest"
  note rows = sorted_rows [OF assms(1)]
  have "filter (\<lambda>r. om_publishedAt r = None \<and> or_processing_started_at r = None) (pg_outbox s) = rest"
    using assms(3,4) by (auto simp: assms(2) waits_def filter_empty_conv filter_id_conv)
  moreover have "sorted (map po_key rest)" using rows(1) by (simp add: assms(2) sorted_append)
  ultimately have "po_pending (pg_outbox s) = rest" by (simp add: po_pending_def sort_key_id_if_sorted)
  then have claim: "ob_claimPending (postgres_outbox_store (\<lambda>rows. rows) {} now) BATCH_SIZE (pg_outbox s)
      = (map outbox_message.truncate ?batch, map (\<lambda>r. if om_id r \<in> om_id ` set ?batch then r\<lparr>or_processing_started_at := Some now\<rparr> else r) (pg_outbox s))"
    by (simp add: postgres_outbox_store_def po_claimPending_def Let_def)
  have ids: "map om_id (map outbox_message.truncate ?batch) = map om_id ?batch" by (simp add: comp_def outbox_message.defs)
  have split: "pg_outbox s = finished @ ?batch @ ?later" by (simp add: assms(2))
  have apart: "distinct (map om_id ?batch)" "\<forall>m \<in> set finished \<union> set ?later. om_id m \<notin> om_id ` set ?batch"
    using rows(2) unfolding split by (auto simp del: append_take_drop_id)
  have sets: "om_id ` set (map outbox_message.truncate ?batch) = om_id ` set ?batch"
    using arg_cong [OF ids, of set] by (simp only: set_map)
  have b: "b = \<lparr>pb_outbox = map (\<lambda>r. if om_id r \<in> om_id ` set ?batch then marked now r else r)
        (map (\<lambda>r. if om_id r \<in> om_id ` set ?batch then r\<lparr>or_processing_started_at := Some now\<rparr> else r) (pg_outbox s)),
      pb_broker = (), pb_sent = sent @ map outbox_message.truncate ?batch\<rparr>"
    unfolding assms(5) [symmetric] publisher_turn_def using apart(1)
    by (simp add: claim accepted_batch ids sets del: map_map set_map image_set)
  show "pb_sent b = sent @ map outbox_message.truncate ?batch" by (simp add: b)
  have "marked now (r\<lparr>or_processing_started_at := Some now\<rparr>) = marked now r" for r by (simp add: marked_def)
  then show "pb_outbox b = map (\<lambda>r. if om_id r \<in> om_id ` set ?batch then marked now r else r) (pg_outbox s)"
    by (auto simp: b)
  moreover have "map (\<lambda>r. if om_id r \<in> om_id ` set ?batch then marked now r else r) finished = finished"
    "map (\<lambda>r. if om_id r \<in> om_id ` set ?batch then marked now r else r) ?later = ?later"
    "map (\<lambda>r. if om_id r \<in> om_id ` set ?batch then marked now r else r) ?batch = map (marked now) ?batch"
    using apart(2) by (auto intro!: map_idI)
  ultimately show "pb_outbox b = (finished @ map (marked now) ?batch) @ ?later"
    unfolding split map_append by simp
qed

lemma delivery_step_in_order:
  assumes "delivery_step x l y" "sent_in_order x"
  shows "sent_in_order y"
  using assms(1)
proof cases
  case (commit sid z events expected s r s' sent)
  have "pg_inv s" using assms(2) commit by (simp add: sent_in_order_def)
  from pg_step_inv [OF this, of undefined "PgAppend sid events expected"] commit(5) have "pg_inv s'" by simp
  obtain rows msgs where new: "pg_rows s' = pg_rows s @ rows" "\<forall>x \<in> set rows. ev_streamId (er_event x) = sid"
      "pg_outbox s' = pg_outbox s @ msgs" "\<forall>m \<in> set msgs. waits m"
    using append_extends [OF commit(5)] by blast
  obtain finished rest where q: "pg_outbox s = finished @ rest" "\<forall>m \<in> set finished. om_publishedAt m \<noteq> None" "\<forall>m \<in> set rest. waits m"
      "map ships sent = map ships finished"
      "\<forall>r \<in> set (pg_rows s). \<exists>y. ev_streamId (er_event r) = account_stream y \<or> ev_streamId (er_event r) = transfer_stream y"
    using assms(2) commit(1) by (auto simp: sent_in_order_def)
  have "pg_outbox s' = finished @ (rest @ msgs)" "\<forall>m \<in> set (rest @ msgs). waits m" using new q by auto
  moreover have "\<forall>r \<in> set (pg_rows s'). \<exists>y. ev_streamId (er_event r) = account_stream y \<or> ev_streamId (er_event r) = transfer_stream y"
    using new(1,2) q(5) commit(4) by auto
  ultimately show ?thesis unfolding commit(3) using \<open>pg_inv s'\<close> q(2,4) by (intro sent_in_orderI)
next
  case (publish_turn now s sent b)
  obtain finished rest where q: "pg_outbox s = finished @ rest" "\<forall>m \<in> set finished. om_publishedAt m \<noteq> None" "\<forall>m \<in> set rest. waits m"
      "map ships sent = map ships finished" "pg_inv s"
      "\<forall>r \<in> set (pg_rows s). \<exists>y. ev_streamId (er_event r) = account_stream y \<or> ev_streamId (er_event r) = transfer_stream y"
    using assms(2) publish_turn by (auto simp: sent_in_order_def)
  note turn = accepted_turn [OF q(5,1,2,3) publish_turn(4)]
  have inv: "pg_inv (s\<lparr>pg_outbox := pb_outbox b\<rparr>)"
    unfolding turn(1) by (rule pg_inv_outbox_map [OF q(5)]) (simp add: marked_def)
  have sent: "map ships (pb_sent b) = map ships (finished @ map (marked now) (take BATCH_SIZE rest))"
    by (simp add: turn(3) q(4) ships_def marked_def outbox_message.defs)
  have published: "\<forall>m \<in> set (finished @ map (marked now) (take BATCH_SIZE rest)). om_publishedAt m \<noteq> None"
    using q(2) by (auto simp: marked_def)
  have later: "\<forall>m \<in> set (drop BATCH_SIZE rest). waits m" using q(3) by (meson in_set_dropD)
  show ?thesis unfolding publish_turn(3)
    by (rule sent_in_orderI [OF inv _ _ published later sent]) (use q(6) turn(2) in simp_all)
qed

lemma delivery_in_order: "path delivery_step (empty_pg_events, []) ls x \<Longrightarrow> sent_in_order x"
proof (erule path_invariant)
  show "sent_in_order (empty_pg_events, [])" using empty_pg_inv by (simp add: sent_in_order_def empty_pg_events_def)
qed (rule delivery_step_in_order)

section \<open>The topic\<close>

lemma stream_topics [simp]:
  "topicForStream (account_stream a) = ''account-events''" "topicForStream (transfer_stream a) = ''transfer-events''"
  by (simp_all add: topicForStream_def account_stream_def transfer_stream_def)

lemma account_stream_inj [simp]: "account_stream a = account_stream b \<longleftrightarrow> a = b"
  by (simp add: account_stream_def)

definition of_account :: "domain_event \<Rightarrow> bool" where
  "of_account e \<longleftrightarrow> (\<exists>a. ev_streamId e = account_stream a)"

text \<open>The account topic holds the account events among the first events of the store.\<close>

lemma topic_of_sent:
  assumes "sent_in_order (s, sent)"
  shows "\<exists>n. account_topic sent = filter of_account (take n (map er_event (pg_rows s)))
    \<and> (po_pending (pg_outbox s) = [] \<longrightarrow> length (pg_rows s) \<le> n)"
proof -
  obtain finished rest where q: "pg_outbox s = finished @ rest" "\<forall>m \<in> set rest. waits m" "map ships sent = map ships finished"
      "pg_inv s" "\<forall>r \<in> set (pg_rows s). \<exists>y. ev_streamId (er_event r) = account_stream y \<or> ev_streamId (er_event r) = transfer_stream y"
    using assms by (auto simp: sent_in_order_def)
  let ?n = "length finished"
  have covers: "outbox_covers (pg_rows s) (pg_outbox s)" using q(4) by (simp add: pg_inv_def)
  from arg_cong [OF covers [unfolded outbox_covers_def], of "map (\<lambda>x. (fst (snd x), fst (snd (snd (snd x)))))"]
  have "map ships (pg_outbox s) = map (\<lambda>e. (topicForStream (ev_streamId e), e)) (map er_event (pg_rows s))"
    by (simp add: comp_def ships_def [abs_def])
  from arg_cong [OF this, of "take ?n"]
  have ships: "map ships sent = map (\<lambda>e. (topicForStream (ev_streamId e), e)) (take ?n (map er_event (pg_rows s)))"
    by (simp add: q(1,3) take_map)
  have "account_topic sent = map snd (filter (\<lambda>x. fst x = ''account-events'') (map ships sent))"
    by (simp add: account_topic_def filter_map comp_def ships_def)
  also have "\<dots> = filter (\<lambda>e. topicForStream (ev_streamId e) = ''account-events'') (take ?n (map er_event (pg_rows s)))"
    by (simp add: ships filter_map comp_def)
  also have "\<dots> = filter of_account (take ?n (map er_event (pg_rows s)))"
  proof (rule filter_cong [OF refl])
    fix e assume "e \<in> set (take ?n (map er_event (pg_rows s)))"
    then have "e \<in> er_event ` set (pg_rows s)" by (auto dest!: in_set_takeD)
    then obtain y where "ev_streamId e = account_stream y \<or> ev_streamId e = transfer_stream y" using q(5) by blast
    then show "topicForStream (ev_streamId e) = ''account-events'' \<longleftrightarrow> of_account e" by (auto simp: of_account_def)
  qed
  finally have "account_topic sent = filter of_account (take ?n (map er_event (pg_rows s)))" .
  moreover have "length (pg_rows s) \<le> ?n" if "po_pending (pg_outbox s) = []"
  proof -
    have "set rest \<subseteq> set (po_pending (pg_outbox s))" using q(1,2) by (auto simp: po_pending_def waits_def)
    then have "rest = []" using that by simp
    then show ?thesis using q(1) arg_cong [OF covers [unfolded outbox_covers_def], of length] by simp
  qed
  ultimately show ?thesis by blast
qed

lemma filter_split:
  "filter P xs = ys @ z # zs \<Longrightarrow> \<exists>us vs. xs = us @ z # vs \<and> filter P us = ys \<and> P z"
proof (induction xs arbitrary: ys)
  case (Cons x xs)
  show ?case
  proof (cases "P x \<and> ys = []")
    case True
    then show ?thesis using Cons.prems by (intro exI [of _ "[]"] exI [of _ xs]) auto
  next
    case False
    then have "filter P xs = (if P x then tl ys else ys) @ z # zs" using Cons.prems by (cases ys) (auto split: if_splits)
    from Cons.IH [OF this] obtain us vs where "xs = us @ z # vs" "filter P us = (if P x then tl ys else ys)" "P z" by blast
    then show ?thesis using False Cons.prems by (intro exI [of _ "x # us"] exI [of _ vs]) (cases ys; auto)
  qed
qed simp

lemma filter_prefix_in_order:
  assumes "\<And>a. S a = filter (\<lambda>e. ev_streamId e = account_stream a) es"
    and "topic = filter of_account (take m es)"
  shows "in_order S topic"
  unfolding in_order_def
proof (intro allI impI)
  fix n assume n: "n < length topic"
  then have "filter of_account (take m es) = take n topic @ topic ! n # drop (Suc n) topic"
    using assms(2) id_take_nth_drop by metis
  from filter_split [OF this] obtain us vs where split: "take m es = us @ topic ! n # vs" "filter of_account us = take n topic"
      "of_account (topic ! n)" by blast
  obtain a where a: "ev_streamId (topic ! n) = account_stream a" using split(3) by (auto simp: of_account_def)
  define before where "before = filter (\<lambda>e. ev_streamId e = account_stream a) us"
  have "es = us @ topic ! n # vs @ drop m es" using append_take_drop_id [of m es] split(1) by simp
  from arg_cong [OF this, of "filter (\<lambda>e. ev_streamId e = account_stream a)"]
  have S: "S a = before @ topic ! n # filter (\<lambda>e. ev_streamId e = account_stream a) (vs @ drop m es)"
    using a by (simp add: before_def assms(1))
  have "set before \<subseteq> set (take n topic)"
    unfolding split(2) [symmetric] by (auto simp: before_def of_account_def)
  then show "\<exists>a j. j < length (S a) \<and> topic ! n = S a ! j \<and> set (take j (S a)) \<subseteq> set (take n topic)"
    by (intro exI [of _ a] exI [of _ "length before"]) (simp add: S)
qed

lemma distinct_ids_apart:
  assumes "distinct (map ev_eventId es)" "\<And>a. S a = filter (\<lambda>e. ev_streamId e = account_stream a) es"
  shows "ids_apart S"
  unfolding ids_apart_def
proof (intro allI impI)
  fix a b i j
  assume ij: "i < length (S a)" "j < length (S b)" "ev_eventId (S a ! i) = ev_eventId (S b ! j)"
  have mem: "S a ! i \<in> set es" "ev_streamId (S a ! i) = account_stream a" "S b ! j \<in> set es" "ev_streamId (S b ! j) = account_stream b"
    using nth_mem [OF ij(1)] nth_mem [OF ij(2)] assms(2) by auto
  have same: "S a ! i = S b ! j" using assms(1) mem(1,3) ij(3) by (auto simp: distinct_map inj_on_def)
  then have "a = b" using mem(2,4) by simp
  moreover have "distinct (S a)" using assms(1) by (simp add: assms(2) distinct_map)
  ultimately show "a = b \<and> i = j" using same ij(1,2) by (simp add: nth_eq_iff_index_eq)
qed

section \<open>From the commands to the queries\<close>



end
