(* ===== verification/Lifecycle.thy ===== *)
theory Lifecycle
  imports Service
begin

text \<open>
  Start and stop of the services that run in the background: the four loops (coordinator, outbox publisher, projection
  runner, backlog poller) as one step relation, and \<open>KafkaClient\<close> with the two consumer services.  What kafkajs answers
  to connecting, subscribing, running, stopping and disconnecting are arguments.
\<close>

section \<open>A background loop\<close>

text \<open>
  \<open>isRunning\<close> and where \<open>runLoop\<close> is: before its start, at the test of its \<open>while\<close>, in a turn, in the pause after a turn
  (which the publisher makes only after an empty batch or a failure), or at its end.
\<close>

datatype loop_phase = NotStarted | AtTest | InTurn | Pausing | Ended

record background_loop =
  bg_isRunning :: bool
  bg_phase :: loop_phase

definition new_background_loop :: background_loop where
  "new_background_loop = \<lparr>bg_isRunning = False, bg_phase = NotStarted\<rparr>"

datatype loop_event = Start | Stop | TurnBegins | TurnEnds bool | TurnFails | PauseEnds | LoopEnds

text \<open>
  \<open>onModuleInit\<close> of a service whose guard is \<open>starts\<close>; the framework calls it once, before \<open>onModuleDestroy\<close>.  A loop that
  \<open>catches\<close> ends a turn that failed as any other; otherwise the failure ends the loop, with \<open>isRunning\<close> as it was.
\<close>

inductive background_step :: "bool \<Rightarrow> bool \<Rightarrow> background_loop \<Rightarrow> loop_event \<Rightarrow> background_loop \<Rightarrow> bool" for starts catches where
  loop_start: "starts \<Longrightarrow> bg_phase p = NotStarted \<Longrightarrow> background_step starts catches p Start \<lparr>bg_isRunning = True, bg_phase = AtTest\<rparr>"
| loop_stop: "background_step starts catches p Stop (p\<lparr>bg_isRunning := False\<rparr>)"
| loop_turn: "bg_phase p = AtTest \<Longrightarrow> bg_isRunning p \<Longrightarrow> background_step starts catches p TurnBegins (p\<lparr>bg_phase := InTurn\<rparr>)"
| loop_turned: "bg_phase p = InTurn \<Longrightarrow>
    background_step starts catches p (TurnEnds pauses) (p\<lparr>bg_phase := (if pauses then Pausing else AtTest)\<rparr>)"
| loop_failed: "bg_phase p = InTurn \<Longrightarrow> \<not> catches \<Longrightarrow> background_step starts catches p TurnFails (p\<lparr>bg_phase := Ended\<rparr>)"
| loop_paused: "bg_phase p = Pausing \<Longrightarrow> background_step starts catches p PauseEnds (p\<lparr>bg_phase := AtTest\<rparr>)"
| loop_end: "bg_phase p = AtTest \<Longrightarrow> \<not> bg_isRunning p \<Longrightarrow> background_step starts catches p LoopEnds (p\<lparr>bg_phase := Ended\<rparr>)"

inductive_cases background_stepE: "background_step starts catches p l q"

text \<open>How many steps of its own a loop that was told to stop has left.\<close>

fun steps_left :: "loop_phase \<Rightarrow> nat" where
  "steps_left InTurn = 3"
| "steps_left Pausing = 2"
| "steps_left AtTest = 1"
| "steps_left _ = 0"

lemma stopped_step:
  assumes "background_step starts catches p l q" "\<not> bg_isRunning p" "bg_phase p \<noteq> NotStarted"
  shows "\<not> bg_isRunning q \<and> bg_phase q \<noteq> NotStarted \<and> l \<noteq> TurnBegins \<and> l \<noteq> Start
    \<and> (if l = Stop then bg_phase q = bg_phase p else steps_left (bg_phase q) < steps_left (bg_phase p))"
  using assms by (auto elim!: background_stepE split: if_splits)

lemma stopped_path:
  assumes "path (background_step starts catches) p ls q" "\<not> bg_isRunning p" "bg_phase p \<noteq> NotStarted"
  shows "\<not> bg_isRunning q \<and> bg_phase q \<noteq> NotStarted \<and> TurnBegins \<notin> set ls
    \<and> length (filter (\<lambda>l. l \<noteq> Stop) ls) + steps_left (bg_phase q) \<le> steps_left (bg_phase p)"
  using assms
proof (induction rule: path.induct)
  case (path_Nil p)
  then show ?case by simp
next
  case (path_snoc p ls q l r)
  then show ?case using stopped_step [of starts catches q l r] by (auto split: if_splits)
qed

text \<open>
  A loop that is told to stop begins no further turn: it finishes the turn it is in, with at most three more steps, and
  as long as it has not ended it can go on.  So \<open>onModuleDestroy\<close>, which waits for it, returns once the turn does.
\<close>

theorem stopped_loop_ends:
  assumes "path (background_step starts catches) p ls q" "\<not> bg_isRunning p" "bg_phase p \<noteq> NotStarted"
  shows "TurnBegins \<notin> set ls \<and> length (filter (\<lambda>l. l \<noteq> Stop) ls) \<le> 3
    \<and> (bg_phase q = Ended \<or> (\<exists>l r. l \<noteq> Stop \<and> background_step starts catches q l r))"
proof -
  have q: "\<not> bg_isRunning q" "bg_phase q \<noteq> NotStarted" "TurnBegins \<notin> set ls"
    "length (filter (\<lambda>l. l \<noteq> Stop) ls) \<le> steps_left (bg_phase p)"
    using stopped_path [OF assms] by auto
  moreover have "steps_left (bg_phase p) \<le> 3" by (cases "bg_phase p") auto
  moreover have "bg_phase q = Ended \<or> (\<exists>l r. l \<noteq> Stop \<and> background_step starts catches q l r)"
    using q(1,2) loop_turned [of q starts catches True] loop_paused [of q starts catches] loop_end [of q starts catches]
    by (cases "bg_phase q") blast+
  ultimately show ?thesis by auto
qed

text \<open>A service whose guard does not hold never runs a turn.\<close>

lemma unstarted_loop_is_idle:
  assumes "path (background_step False catches) new_background_loop ls q"
  shows "set ls \<subseteq> {Stop} \<and> q = new_background_loop"
proof -
  have "p = new_background_loop \<longrightarrow> set ls \<subseteq> {Stop} \<and> q = p" if "path (background_step False catches) p ls q" for p
    using that
  proof (induction rule: path.induct)
    case (path_Nil p)
    then show ?case by simp
  next
    case (path_snoc p ls q l r)
    then show ?case by (auto simp: new_background_loop_def elim!: background_stepE)
  qed
  with assms show ?thesis by blast
qed

text \<open>The four loops: that of the projection runner is the one without a \<open>catch\<close>.\<close>

definition coordinator_loop :: "config \<Rightarrow> background_loop \<Rightarrow> loop_event \<Rightarrow> background_loop \<Rightarrow> bool" where
  "coordinator_loop config = background_step (coordinator_runs config) True"

definition publisher_loop :: "config \<Rightarrow> background_loop \<Rightarrow> loop_event \<Rightarrow> background_loop \<Rightarrow> bool" where
  "publisher_loop config = background_step (publisher_runs config) True"

definition runner_loop :: "config \<Rightarrow> background_loop \<Rightarrow> loop_event \<Rightarrow> background_loop \<Rightarrow> bool" where
  "runner_loop config = background_step (runner_polls config) False"

definition poller_loop :: "config \<Rightarrow> background_loop \<Rightarrow> loop_event \<Rightarrow> background_loop \<Rightarrow> bool" where
  "poller_loop config = background_step (metrics_poller_runs config) True"

theorem every_loop_stops:
  assumes "loop \<in> {coordinator_loop config, publisher_loop config, runner_loop config, poller_loop config}"
    and "path loop p ls q" "\<not> bg_isRunning p" "bg_phase p \<noteq> NotStarted"
  shows "TurnBegins \<notin> set ls \<and> length (filter (\<lambda>l. l \<noteq> Stop) ls) \<le> 3 \<and> (bg_phase q = Ended \<or> (\<exists>l r. l \<noteq> Stop \<and> loop q l r))"
proof -
  obtain starts catches where "loop = background_step starts catches"
    using assms(1) by (auto simp: coordinator_loop_def publisher_loop_def runner_loop_def poller_loop_def)
  with stopped_loop_ends [of starts catches p ls q] assms show ?thesis by simp
qed

text \<open>Of the runner of the in-memory stores and the publisher of the Postgres stores at most one ever does anything.\<close>

lemma one_way_of_projection:
  assumes "path (runner_loop config) new_background_loop ls q" "path (publisher_loop config) new_background_loop ls' q'"
  shows "q = new_background_loop \<or> q' = new_background_loop"
proof (cases "runner_polls config")
  case True
  then have "\<not> publisher_runs config" by (simp add: runner_polls_def publisher_runs_def)
  with assms(2) show ?thesis using unstarted_loop_is_idle [of True ls' q'] by (simp add: publisher_loop_def)
next
  case False
  with assms(1) show ?thesis using unstarted_loop_is_idle [of False ls q] by (simp add: runner_loop_def)
qed

text \<open>
  So in the in-memory mode one event that the projectors refuse, such as that of a freeze of an account without events,
  ends the polling: what the store holds later is never projected, and the loop is not started again.
\<close>

theorem freeze_of_missing_account_ends_polling:
  assumes "runLoop d stores rn = (Inr (), rn1)"
    and "es_readAll (pr_events d) (rn_checkpoint rn1) 1000 s = xs @ (e, p) # ys" and "ev_data e = AccountFrozen None reason"
  shows "\<exists>err rn2. \<forall>later. runLoop d (stores @ s # later) rn = (Inl err, rn2)"
proof -
  have "\<exists>err rn2. poll_turn d s rn1 = (Inl err, rn2)"
  proof (cases "for_each (poll_event d) xs rn1")
    case (Pair r rn2)
    have "\<exists>err rn3. poll_event d (e, p) rn2 = (Inl err, rn3)"
      by (simp add: poll_event_def on_field_def and_then_def undefined_freeze_stops [OF assms(3)])
    with Pair show ?thesis
      by (cases r) (auto simp: poll_turn_def assms(2) for_each_append and_then_def)
  qed
  with assms(1) show ?thesis by (auto simp: runLoop_def for_each_append and_then_def)
qed

section \<open>The Kafka client\<close>

text \<open>The connections of the client; a consumer is named by its number.\<close>

record kafka_consumer =
  kn_groupId :: string
  kn_connected :: bool
  kn_topic :: "string option"
  kn_running :: bool

record kafka_client =
  kc_brokers :: "string list"
  kc_clientId :: string
  kc_producerConnected :: bool
  kc_created :: "kafka_consumer list"
  kc_consumers :: "nat list"

definition new_kafka_client :: "config \<Rightarrow> kafka_client" where
  "new_kafka_client config =
     \<lparr>kc_brokers = [config_get config ''KAFKA_BROKER'' ''localhost:29092''],
      kc_clientId = config_get config ''KAFKA_CLIENT_ID'' ''core-banking-app'',
      kc_producerConnected = False, kc_created = [], kc_consumers = []\<rparr>"

text \<open>A call of kafkajs that fails with an error, or takes effect.\<close>

definition attempts :: "js_error option \<Rightarrow> ('s \<Rightarrow> 's) \<Rightarrow> ('s, unit) prog" where
  "attempts outcome f = (case outcome of Some e \<Rightarrow> throws e | None \<Rightarrow> modifies f)"

definition kafka_init :: "js_error option \<Rightarrow> (kafka_client, unit) prog" where
  "kafka_init connect = attempts connect (\<lambda>c. c\<lparr>kc_producerConnected := True\<rparr>)"

definition on_consumer :: "nat \<Rightarrow> (kafka_consumer \<Rightarrow> kafka_consumer) \<Rightarrow> kafka_client \<Rightarrow> kafka_client" where
  "on_consumer i f c = c\<lparr>kc_created := (kc_created c)[i := f (kc_created c ! i)]\<rparr>"

definition createConsumer :: "js_error option \<Rightarrow> string \<Rightarrow> (kafka_client, nat) prog" where
  "createConsumer connect groupId =
     and_then (asks (\<lambda>c. length (kc_created c))) (\<lambda>i.
     and_then (modifies (\<lambda>c. c\<lparr>kc_created := kc_created c @
       [\<lparr>kn_groupId = groupId, kn_connected = False, kn_topic = None, kn_running = False\<rparr>]\<rparr>)) (\<lambda>_.
     and_then (attempts connect (on_consumer i (\<lambda>n. n\<lparr>kn_connected := True\<rparr>))) (\<lambda>_.
     and_then (modifies (\<lambda>c. c\<lparr>kc_consumers := kc_consumers c @ [i]\<rparr>)) (\<lambda>_. returns i))))"

text \<open>
  \<open>onModuleDestroy\<close>: the consumers are disconnected at the same time; \<open>answers\<close> has them in the order in which they answer.
  The first refusal is thrown before the producer is disconnected, the others are disconnected all the same.
\<close>

definition disconnected :: "nat \<times> js_error option \<Rightarrow> kafka_client \<Rightarrow> kafka_client" where
  "disconnected answer c = (case answer of
     (i, None) \<Rightarrow> on_consumer i (\<lambda>n. n\<lparr>kn_connected := False, kn_running := False\<rparr>) (c\<lparr>kc_consumers := removeAll i (kc_consumers c)\<rparr>)
   | (i, Some e) \<Rightarrow> c)"

definition kafka_destroy :: "(nat \<times> js_error option) list \<Rightarrow> js_error option \<Rightarrow> (kafka_client, unit) prog" where
  "kafka_destroy answers producer =
     and_then (modifies (fold disconnected answers)) (\<lambda>_.
       case List.map_filter snd answers of
         e # _ \<Rightarrow> throws e
       | [] \<Rightarrow> attempts producer (\<lambda>c. c\<lparr>kc_producerConnected := False\<rparr>))"

section \<open>The consumer services\<close>

record consumer_service =
  sv_kafka :: kafka_client
  sv_consumer :: "nat option"

definition on_kafka :: "(kafka_client, 'a) prog \<Rightarrow> (consumer_service, 'a) prog" where
  "on_kafka = on_field sv_kafka (\<lambda>k s. s\<lparr>sv_kafka := k\<rparr>)"

text \<open>\<open>onModuleInit\<close> of both services; the answers are those to connecting, subscribing and running.\<close>

definition start_consumer ::
  "config \<Rightarrow> string \<Rightarrow> string \<Rightarrow> string \<Rightarrow> js_error option \<Rightarrow> js_error option \<Rightarrow> js_error option \<Rightarrow> (consumer_service, unit) prog" where
  "start_consumer config topic groupKey groupDefault connect subscribe run =
     (if \<not> consumer_runs config then returns ()
      else and_then (on_kafka (createConsumer connect (config_get config groupKey groupDefault))) (\<lambda>i.
           and_then (modifies (\<lambda>s. s\<lparr>sv_consumer := Some i\<rparr>)) (\<lambda>_.
           and_then (on_kafka (attempts subscribe (on_consumer i (\<lambda>n. n\<lparr>kn_topic := Some topic\<rparr>)))) (\<lambda>_.
           on_kafka (attempts run (on_consumer i (\<lambda>n. n\<lparr>kn_running := True\<rparr>)))))))"

definition start_account_consumer :: "config \<Rightarrow> js_error option \<Rightarrow> js_error option \<Rightarrow> js_error option \<Rightarrow> (consumer_service, unit) prog" where
  "start_account_consumer config =
     start_consumer config ''account-events'' ''ACCOUNT_PROJECTION_CONSUMER_GROUP'' ''core-banking-account-projections''"

definition start_transfer_consumer :: "config \<Rightarrow> js_error option \<Rightarrow> js_error option \<Rightarrow> js_error option \<Rightarrow> (consumer_service, unit) prog" where
  "start_transfer_consumer config =
     start_consumer config ''transfer-events'' ''TRANSFER_PROJECTION_CONSUMER_GROUP'' ''core-banking-transfer-projections''"

definition stop_consumer :: "js_error option \<Rightarrow> (consumer_service, unit) prog" where
  "stop_consumer stop =
     and_then (asks sv_consumer) (\<lambda>consumer.
       case consumer of
         None \<Rightarrow> returns ()
       | Some i \<Rightarrow>
           and_then (on_kafka (attempts stop (on_consumer i (\<lambda>n. n\<lparr>kn_running := False\<rparr>)))) (\<lambda>_.
             modifies (\<lambda>s. s\<lparr>sv_consumer := None\<rparr>)))"

section \<open>Starting and stopping\<close>

definition new_service :: "kafka_client \<Rightarrow> consumer_service" where
  "new_service k = \<lparr>sv_kafka = k, sv_consumer = None\<rparr>"

text \<open>What the client keeps: the consumers it will disconnect are exactly those that are connected.\<close>

definition connected :: "kafka_client \<Rightarrow> nat set" where
  "connected k = {i. i < length (kc_created k) \<and> kn_connected (kc_created k ! i)}"

definition kafka_inv :: "kafka_client \<Rightarrow> bool" where
  "kafka_inv k \<longleftrightarrow> set (kc_consumers k) = connected k"

lemma on_consumer_fields [simp]:
  "kc_consumers (on_consumer i f c) = kc_consumers c"
  "kc_producerConnected (on_consumer i f c) = kc_producerConnected c"
  by (simp_all add: on_consumer_def)

lemma in_connected_on_consumer:
  "j \<in> connected (on_consumer i f k) \<longleftrightarrow>
    j < length (kc_created k) \<and> kn_connected (if j = i then f (kc_created k ! j) else kc_created k ! j)"
  by (cases "j = i") (auto simp: connected_def on_consumer_def)

lemma connected_on_consumer:
  "i < length (kc_created k) \<Longrightarrow> connected (on_consumer i (\<lambda>n. n\<lparr>kn_connected := True\<rparr>) k) = insert i (connected k)"
  "connected (on_consumer i (\<lambda>n. n\<lparr>kn_connected := False, kn_running := False\<rparr>) k) = connected k - {i}"
  by (rule set_eqI, simp add: in_connected_on_consumer, simp add: connected_def)+

lemma connected_unchanged:
  assumes "\<And>n. kn_connected (f n) = kn_connected n"
  shows "connected (on_consumer i f k) = connected k"
  using assms by (intro set_eqI, simp add: in_connected_on_consumer) (simp add: connected_def)

lemma kafka_inv_on_consumer: "kafka_inv k \<Longrightarrow> (\<And>n. kn_connected (f n) = kn_connected n) \<Longrightarrow> kafka_inv (on_consumer i f k)"
  by (simp add: kafka_inv_def connected_unchanged)

definition created_with :: "string \<Rightarrow> kafka_client \<Rightarrow> kafka_client" where
  "created_with groupId c = c\<lparr>kc_created := kc_created c @
     [\<lparr>kn_groupId = groupId, kn_connected = False, kn_topic = None, kn_running = False\<rparr>]\<rparr>"

lemma connected_created_with [simp]: "connected (created_with groupId k) = connected k"
  by (auto simp: connected_def created_with_def nth_append less_Suc_eq)

lemma createConsumer_cases:
  "createConsumer (Some e) groupId k = (Inl e, created_with groupId k)"
  "createConsumer None groupId k = (Inr (length (kc_created k)),
     (on_consumer (length (kc_created k)) (\<lambda>n. n\<lparr>kn_connected := True\<rparr>) (created_with groupId k))
       \<lparr>kc_consumers := kc_consumers k @ [length (kc_created k)]\<rparr>)"
  by (simp_all add: createConsumer_def attempts_def and_then_def created_with_def on_consumer_def)

lemma kafka_inv_createConsumer: "kafka_inv k \<Longrightarrow> kafka_inv (snd (createConsumer connect groupId k))"
proof (cases connect)
  case None
  have "connected (k\<lparr>kc_consumers := js\<rparr>) = connected k" for js k by (simp add: connected_def)
  moreover assume "kafka_inv k"
  ultimately show ?thesis
    using None by (simp add: createConsumer_cases kafka_inv_def connected_on_consumer(1) created_with_def [THEN arg_cong [of _ _ kc_created]])
next
  case (Some e)
  moreover assume "kafka_inv k"
  ultimately show ?thesis by (simp add: createConsumer_cases kafka_inv_def) (simp add: created_with_def)
qed

lemma kafka_inv_disconnected: "kafka_inv k \<Longrightarrow> kafka_inv (disconnected answer k)"
proof (cases answer)
  case (Pair i outcome)
  have "connected (k\<lparr>kc_consumers := js\<rparr>) = connected k" for js by (simp add: connected_def)
  moreover assume "kafka_inv k"
  ultimately show ?thesis
    using Pair by (cases outcome) (simp_all add: disconnected_def kafka_inv_def connected_on_consumer(2))
qed

lemma kafka_inv_start:
  assumes "kafka_inv (sv_kafka s)"
  shows "kafka_inv (sv_kafka (snd (start_consumer config topic groupKey groupDefault connect subscribe run s)))"
proof (cases "consumer_runs config")
  case False
  then show ?thesis using assms by (simp add: start_consumer_def)
next
  case True
  let ?g = "config_get config groupKey groupDefault"
  have created: "kafka_inv (snd (createConsumer connect ?g (sv_kafka s)))" by (rule kafka_inv_createConsumer [OF assms])
  show ?thesis
  proof (cases connect)
    case (Some e)
    then show ?thesis using True created by (simp add: start_consumer_def on_kafka_def on_field_def and_then_def createConsumer_cases)
  next
    case None
    then show ?thesis using True created
      by (cases subscribe; cases run)
        (simp_all add: start_consumer_def on_kafka_def on_field_def and_then_def createConsumer_cases attempts_def kafka_inv_on_consumer)
  qed
qed

text \<open>A service that started has a consumer of its own that is connected, subscribed to its topic and running.\<close>

theorem started_consumer_is_running:
  assumes "consumer_runs config" "start_consumer config topic groupKey groupDefault connect subscribe run s = (Inr (), s')"
  shows "\<exists>i. sv_consumer s' = Some i \<and> i \<notin> connected (sv_kafka s) \<and> connected (sv_kafka s') = insert i (connected (sv_kafka s)) \<and>
    kc_created (sv_kafka s') ! i = \<lparr>kn_groupId = config_get config groupKey groupDefault, kn_connected = True,
      kn_topic = Some topic, kn_running = True\<rparr>"
proof -
  let ?k = "sv_kafka s" let ?i = "length (kc_created ?k)" let ?g = "config_get config groupKey groupDefault"
  let ?up = "\<lambda>n. n\<lparr>kn_connected := True\<rparr>" and ?sub = "\<lambda>n. n\<lparr>kn_topic := Some topic\<rparr>" and ?run = "\<lambda>n. n\<lparr>kn_running := True\<rparr>"
  let ?c = "(on_consumer ?i ?up (created_with ?g ?k))\<lparr>kc_consumers := kc_consumers ?k @ [?i]\<rparr>"
  have out: "connect = None \<and> subscribe = None \<and> run = None"
    using assms by (cases connect; cases subscribe; cases run)
      (simp_all add: start_consumer_def on_kafka_def on_field_def and_then_def createConsumer_cases attempts_def)
  have s': "s' = s\<lparr>sv_kafka := on_consumer ?i ?run (on_consumer ?i ?sub ?c), sv_consumer := Some ?i\<rparr>"
    using assms out
    by (cases s) (auto simp: start_consumer_def on_kafka_def on_field_def and_then_def createConsumer_cases attempts_def)
  have more: "connected (d\<lparr>kc_consumers := js\<rparr>) = connected d" for js d by (simp add: connected_def)
  have "?i < length (kc_created (created_with ?g ?k))" by (simp add: created_with_def)
  then have "connected (sv_kafka s') = insert ?i (connected ?k)"
    by (simp add: s' connected_unchanged more connected_on_consumer(1))
  moreover have "?i \<notin> connected ?k" by (simp add: connected_def)
  ultimately show ?thesis by (simp add: s' on_consumer_def created_with_def)
qed

lemma disconnected_done:
  "connected (disconnected (i, None) k) = connected k - {i}"
  "set (kc_consumers (disconnected (i, None) k)) = set (kc_consumers k) - {i}"
proof -
  have "connected (d\<lparr>kc_consumers := js\<rparr>) = connected d" for js d by (simp add: connected_def)
  then show "connected (disconnected (i, None) k) = connected k - {i}"
    by (simp add: disconnected_def connected_on_consumer(2))
qed (simp add: disconnected_def)

lemma fold_disconnected:
  assumes "\<forall>a\<in>set answers. snd a = None"
  shows "connected (fold disconnected answers k) = connected k - fst ` set answers
    \<and> set (kc_consumers (fold disconnected answers k)) = set (kc_consumers k) - fst ` set answers"
  using assms
proof (induction answers arbitrary: k)
  case Nil
  then show ?case by simp
next
  case (Cons a answers)
  then obtain i where a: "a = (i, None)" by (cases a) auto
  have "X - {i} - Y = X - insert i Y" for X Y :: "nat set" by blast
  with Cons a show ?case by (simp add: disconnected_done)
qed

lemma disconnected_producer: "kc_producerConnected (disconnected answer k) = kc_producerConnected k"
proof (cases answer)
  case (Pair i outcome)
  then show ?thesis by (cases outcome) (simp_all add: disconnected_def)
qed

lemma fold_disconnected_producer: "kc_producerConnected (fold disconnected answers k) = kc_producerConnected k"
  by (induction answers arbitrary: k) (simp_all add: disconnected_producer)

lemma no_failures: "\<forall>a\<in>set answers. snd a = None \<Longrightarrow> List.map_filter snd answers = []"
  by (induction answers) (auto simp: List.map_filter_simps)

lemma failure_first: "(i, Some e) \<in> set answers \<Longrightarrow> \<exists>e' es. List.map_filter snd answers = e' # es"
  by (induction answers) (auto simp: List.map_filter_simps split: option.splits)

text \<open>When kafkajs refuses nothing, the shutdown leaves no connection open.\<close>

theorem shutdown_closes_every_connection:
  assumes "kafka_inv k" "fst ` set answers = set (kc_consumers k)" "\<forall>a\<in>set answers. snd a = None"
  shows "\<exists>k'. kafka_destroy answers None k = (Inr (), k') \<and> connected k' = {} \<and> kc_consumers k' = [] \<and> \<not> kc_producerConnected k'"
proof -
  let ?k = "fold disconnected answers k"
  have "connected ?k = {}" "kc_consumers ?k = []"
    using assms fold_disconnected [OF assms(3), of k] by (auto simp: kafka_inv_def)
  then show ?thesis
    by (simp add: kafka_destroy_def and_then_def no_failures [OF assms(3)] attempts_def connected_def)
qed

text \<open>One consumer that refuses to be disconnected keeps the producer connected: the shutdown ends with the error.\<close>

theorem refused_disconnect_leaves_the_producer:
  assumes "(i, Some e) \<in> set answers"
  shows "\<exists>e' k'. kafka_destroy answers producer k = (Inl e', k') \<and> kc_producerConnected k' = kc_producerConnected k"
  using failure_first [OF assms] fold_disconnected_producer [of answers k]
  by (auto simp: kafka_destroy_def and_then_def)

text \<open>A service that is stopped keeps its connection, which the client closes.\<close>

lemma stopped_consumer:
  assumes "sv_consumer s = Some i"
  shows "\<exists>s'. stop_consumer None s = (Inr (), s') \<and> sv_consumer s' = None \<and> connected (sv_kafka s') = connected (sv_kafka s)"
  using assms by (simp add: stop_consumer_def on_kafka_def on_field_def and_then_def attempts_def connected_unchanged)

end
