(* ===== verification/LoadScenario.thy ===== *)
theory LoadScenario
  imports Observability Money
begin

text \<open>
  \<open>scripts/load-scenario.js\<close> at the root of the repository: a client that creates accounts and sends random requests to a
  running service.  The network, the random numbers, the random ids and the measured durations are operations of an
  environment with its own state.  One worker is modelled at a time; what is printed is left out.
\<close>

section \<open>Arithmetic\<close>

text \<open>Products, differences, \<open>Math.floor\<close>, \<open>Math.ceil\<close>, \<open>Math.min\<close> and \<open>Math.max\<close>.\<close>

fun js_sign :: "js_number \<Rightarrow> int" where
  "js_sign (JsFin a) = (if 0 < a then 1 else if a < 0 then - 1 else 0)"
| "js_sign (JsInf neg) = (if neg then - 1 else 1)"
| "js_sign JsNaN = 0"

fun js_mul :: "js_number \<Rightarrow> js_number \<Rightarrow> js_number" where
  "js_mul (JsFin a) (JsFin b) = js_round (a * b)"
| "js_mul JsNaN _ = JsNaN"
| "js_mul _ JsNaN = JsNaN"
| "js_mul a b = (let s = js_sign a * js_sign b in if s = 0 then JsNaN else JsInf (s < 0))"

definition js_sub :: "js_number \<Rightarrow> js_number \<Rightarrow> js_number" where
  "js_sub a b = js_add a (js_negate b)"

fun js_floor :: "js_number \<Rightarrow> js_number" where
  "js_floor (JsFin a) = JsFin (of_int \<lfloor>a\<rfloor>)"
| "js_floor x = x"

fun js_ceil :: "js_number \<Rightarrow> js_number" where
  "js_ceil (JsFin a) = JsFin (of_int \<lceil>a\<rceil>)"
| "js_ceil x = x"

definition js_min :: "js_number \<Rightarrow> js_number \<Rightarrow> js_number" where
  "js_min a b = (if a = JsNaN \<or> b = JsNaN then JsNaN else if js_le a b then a else b)"

definition js_max :: "js_number \<Rightarrow> js_number \<Rightarrow> js_number" where
  "js_max a b = (if a = JsNaN \<or> b = JsNaN then JsNaN else if js_le a b then b else a)"

text \<open>\<open>a < b\<close>, which is false when one of them is \<open>NaN\<close>.\<close>

definition js_less :: "js_number \<Rightarrow> js_number \<Rightarrow> bool" where
  "js_less a b \<longleftrightarrow> js_le a b \<and> \<not> js_le b a"

section \<open>Arguments\<close>

text \<open>An argument \<open>--key=value\<close>, or \<open>--key\<close> for \<open>true\<close>; what follows a second \<open>=\<close> is dropped.\<close>

definition parseArgs :: "string list \<Rightarrow> (string \<rightharpoonup> string)" where
  "parseArgs argv =
     fold (\<lambda>rawArg args.
       if \<not> starts_with ''--'' rawArg then args
       else (let parts = str_split (CHR ''='') (drop 2 rawArg)
             in args(hd parts \<mapsto> (if 1 < length parts then parts ! 1 else ''true'')))) argv Map.empty"

definition env_name :: "string \<Rightarrow> string" where
  "env_name key = replace_char (CHR ''-'') ''_'' (js_upper key)"

definition given :: "(string \<rightharpoonup> string) \<Rightarrow> (string \<rightharpoonup> string) \<Rightarrow> string \<Rightarrow> string option" where
  "given args env key = (case args key of Some v \<Rightarrow> Some v | None \<Rightarrow> env (env_name key))"

text \<open>\<open>Number(value)\<close> of any text: blank, hexadecimal, octal, binary, infinite, or a decimal literal with an exponent.\<close>

definition hex_val :: "char \<Rightarrow> nat" where
  "hex_val c = (let n = of_char c in if is_digit c then n - 48 else if 97 \<le> n \<and> n \<le> 102 then n - 87
     else if 65 \<le> n \<and> n \<le> 70 then n - 55 else 16)"

definition radix_number :: "nat \<Rightarrow> string \<Rightarrow> js_number" where
  "radix_number base s =
     (if s \<noteq> [] \<and> list_all (\<lambda>c. hex_val c < base) s
      then js_round (of_nat (foldl (\<lambda>a c. base * a + hex_val c) 0 s)) else JsNaN)"

definition signed :: "string \<Rightarrow> int \<times> string" where
  "signed s = (if starts_with ''-'' s then (- 1, tl s) else if starts_with ''+'' s then (1, tl s) else (1, s))"

definition read_exponent :: "string \<Rightarrow> int option" where
  "read_exponent s = (if s = [] then Some 0 else
     case signed (tl s) of (sign, ds) \<Rightarrow>
       if ds \<noteq> [] \<and> list_all is_digit ds then Some (sign * int (digits_value ds)) else None)"

definition read_mantissa :: "string \<Rightarrow> (string \<times> string) option" where
  "read_mantissa s =
     (let parts = str_split (CHR ''.'') s; w = hd parts; f = (if 1 < length parts then parts ! 1 else [])
      in if length parts \<le> 2 \<and> w @ f \<noteq> [] \<and> list_all is_digit (w @ f) then Some (w, f) else None)"

definition decimal_number :: "string \<Rightarrow> js_number" where
  "decimal_number s =
     (case signed s of (sign, u) \<Rightarrow>
       if u = ''Infinity'' then JsInf (sign < 0)
       else case (read_mantissa (takeWhile (\<lambda>c. c \<notin> set ''eE'') u), read_exponent (dropWhile (\<lambda>c. c \<notin> set ''eE'') u)) of
         (Some (w, f), Some e) \<Rightarrow> js_round (of_int sign * of_nat (digits_value (w @ f)) * 10 powi (e - int (length f)))
       | _ \<Rightarrow> JsNaN)"

definition number_of_text :: "string \<Rightarrow> js_number" where
  "number_of_text text =
     (let s = js_trim text; prefix = js_upper (take 2 s)
      in if s = [] then JsFin 0
         else if prefix = ''0X'' then radix_number 16 (drop 2 s)
         else if prefix = ''0O'' then radix_number 8 (drop 2 s)
         else if prefix = ''0B'' then radix_number 2 (drop 2 s)
         else decimal_number s)"

definition readNumber :: "(string \<rightharpoonup> string) \<Rightarrow> (string \<rightharpoonup> string) \<Rightarrow> string \<Rightarrow> js_number \<Rightarrow> js_number result" where
  "readNumber args env key fallback =
     (case given args env key of
        None \<Rightarrow> Inr fallback
      | Some value \<Rightarrow>
          (case number_of_text value of
             JsFin a \<Rightarrow> Inr (JsFin a)
           | _ \<Rightarrow> Inl (GenericError (''Invalid numeric value for --'' @ key @ '': '' @ value))))"

definition readString :: "(string \<rightharpoonup> string) \<Rightarrow> (string \<rightharpoonup> string) \<Rightarrow> string \<Rightarrow> string \<Rightarrow> string" where
  "readString args env key fallback = (case given args env key of Some v \<Rightarrow> v | None \<Rightarrow> fallback)"

definition sanitizeBaseUrl :: "string \<Rightarrow> string" where
  "sanitizeBaseUrl baseUrl = (if baseUrl \<noteq> [] \<and> last baseUrl = CHR ''/'' then butlast baseUrl else baseUrl)"

section \<open>Metrics\<close>

datatype load_status = HttpStatus int | NetworkError

record operation_stats =
  op_completed :: nat
  op_failed :: nat
  op_latencies :: "js_number list"
  op_statuses :: "(load_status \<times> nat) list"
  op_errors :: "(string \<times> nat) list"

record load_metrics =
  lm_completed :: nat
  lm_failed :: nat
  lm_byOperation :: "(string \<times> operation_stats) list"

definition new_load_metrics :: load_metrics where
  "new_load_metrics = \<lparr>lm_completed = 0, lm_failed = 0, lm_byOperation = []\<rparr>"

definition count_in :: "'k \<Rightarrow> ('k \<times> nat) list \<Rightarrow> ('k \<times> nat) list" where
  "count_in k m = AList.update k ((case map_of m k of None \<Rightarrow> 0 | Some n \<Rightarrow> n) + 1) m"

definition no_stats :: operation_stats where
  "no_stats = \<lparr>op_completed = 0, op_failed = 0, op_latencies = [], op_statuses = [], op_errors = []\<rparr>"

definition record_request :: "string \<Rightarrow> js_number \<Rightarrow> load_status \<Rightarrow> bool \<Rightarrow> string \<Rightarrow> load_metrics \<Rightarrow> load_metrics" where
  "record_request operation durationMs status ok message m =
     (let existing = (case map_of (lm_byOperation m) operation of None \<Rightarrow> no_stats | Some x \<Rightarrow> x)
      in m\<lparr>lm_completed := lm_completed m + 1, lm_failed := lm_failed m + (if ok then 0 else 1),
           lm_byOperation := AList.update operation
             (existing\<lparr>op_completed := op_completed existing + 1, op_failed := op_failed existing + (if ok then 0 else 1),
                op_latencies := op_latencies existing @ [durationMs], op_statuses := count_in status (op_statuses existing),
                op_errors := (if message = '''' then op_errors existing else count_in message (op_errors existing))\<rparr>)
             (lm_byOperation m)\<rparr>)"

text \<open>The percentile of sorted values; \<open>p\<close> is a whole number.\<close>

definition percentile :: "js_number list \<Rightarrow> nat \<Rightarrow> js_number" where
  "percentile sortedValues p =
     (if sortedValues = [] then JsFin 0
      else case js_ceil (js_mul (js_round (of_nat p / 100)) (JsFin (of_nat (length sortedValues)))) of
        JsFin rank \<Rightarrow> sortedValues ! nat (min (int (length sortedValues) - 1) (max 0 (\<lfloor>rank\<rfloor> - 1)))
      | _ \<Rightarrow> JsFin 0)"

section \<open>Requests\<close>

datatype load_body =
    AccountBody string string string
  | MoneyBody js_number string string
  | TransferBody string string string js_number string

record load_call =
  lc_method :: string
  lc_path :: string
  lc_idempotencyKey :: "string option"
  lc_body :: "load_body option"

text \<open>
  A reply with its measured duration: its body is nothing (\<open>null\<close>, or a text that is empty), a text, or a value of
  JSON with the fields the script looks at and its text.
\<close>

datatype message_field = NoMessage | MessageText string | MessageList "string list"

datatype reply_body = EmptyBody | TextBody string | JsonBody message_field "string option" string

record load_reply =
  lr_ok :: bool
  lr_status :: int
  lr_statusText :: string
  lr_body :: reply_body

text \<open>A call that fails on the network gives its error message.\<close>

record 'w environment =
  en_fetch :: "string \<Rightarrow> load_call \<Rightarrow> 'w \<Rightarrow> ((string + load_reply) \<times> js_number) \<times> 'w"
  en_random :: "'w \<Rightarrow> js_number \<times> 'w"
  en_uuid :: "'w \<Rightarrow> string \<times> 'w"
  en_now :: "'w \<Rightarrow> int \<times> 'w"
  en_sleep :: "js_number \<Rightarrow> 'w \<Rightarrow> unit \<times> 'w"

record load_account =
  la_accountId :: string
  la_ownerId :: string
  la_currency :: string
  la_balance :: js_number
  la_frozen :: bool

record load_transfer =
  lt_transferId :: string
  lt_sourceAccountId :: string
  lt_destinationAccountId :: string
  lt_currency :: string
  lt_amount :: js_number
  lt_status :: string

record load_config =
  lf_baseUrl :: string
  lf_currency :: string
  lf_workers :: js_number
  lf_seedAccounts :: js_number
  lf_seedConcurrency :: js_number
  lf_initialDeposit :: js_number
  lf_minAmount :: js_number
  lf_maxAmount :: js_number
  lf_historyLimit :: js_number
  lf_hotAccountRatio :: js_number
  lf_hotSelectionRate :: js_number
  lf_maxTransferAmount :: js_number
  lf_healthRetries :: js_number
  lf_healthRetryDelayMs :: js_number
  lf_removeCompletedTransfersFromPool :: bool
  lf_accountPrefix :: string
  lf_nextAccountSequence :: nat
  lf_nextTransferSequence :: nat
  lf_accounts :: "load_account list"
  lf_transfers :: "load_transfer list"
  lf_metrics :: load_metrics
  lf_operationWeights :: "(string \<times> js_number) list"

record 'w load_state =
  ld_config :: load_config
  ld_world :: 'w

type_synonym ('w, 'a) load_prog = "('w load_state, 'a) prog"

definition changes :: "(load_config \<Rightarrow> load_config) \<Rightarrow> ('w, unit) load_prog" where
  "changes f = modifies (\<lambda>s. s\<lparr>ld_config := f (ld_config s)\<rparr>)"

definition draws :: "('w \<Rightarrow> 'a \<times> 'w) \<Rightarrow> ('w, 'a) load_prog" where
  "draws f s = (case f (ld_world s) of (x, w) \<Rightarrow> (Inr x, s\<lparr>ld_world := w\<rparr>))"

fun extractErrorMessage :: "reply_body \<Rightarrow> string" where
  "extractErrorMessage EmptyBody = ''''"
| "extractErrorMessage (TextBody body) = body"
| "extractErrorMessage (JsonBody (MessageText m) _ _) = m"
| "extractErrorMessage (JsonBody (MessageList ms) _ _) = str_join ''; '' ms"
| "extractErrorMessage (JsonBody NoMessage _ json) = json"

definition or_text :: "string \<Rightarrow> string \<Rightarrow> string" where
  "or_text a b = (if a = '''' then b else a)"

text \<open>\<open>httpRequest\<close>: the answer as far as it is used, whether it is a success and its body.\<close>

definition httpRequest :: "'w environment \<Rightarrow> string \<Rightarrow> load_call \<Rightarrow> ('w, bool \<times> reply_body) load_prog" where
  "httpRequest env operation call s =
     (case en_fetch env (lf_baseUrl (ld_config s)) call (ld_world s) of
        ((Inr reply, durationMs), w) \<Rightarrow>
          (let message = (if lr_ok reply then ''''
                 else or_text (or_text (extractErrorMessage (lr_body reply)) (lr_statusText reply)) ''request failed'')
           in (Inr (lr_ok reply, lr_body reply),
               s\<lparr>ld_world := w, ld_config := (ld_config s)\<lparr>lf_metrics :=
                 record_request operation durationMs (HttpStatus (lr_status reply)) (lr_ok reply) message (lf_metrics (ld_config s))\<rparr>\<rparr>))
      | ((Inl message, durationMs), w) \<Rightarrow>
          (Inr (False, EmptyBody),
           s\<lparr>ld_world := w, ld_config := (ld_config s)\<lparr>lf_metrics :=
             record_request operation durationMs NetworkError False message (lf_metrics (ld_config s))\<rparr>\<rparr>))"

text \<open>A POST: the idempotency key is drawn first, then what its body draws.\<close>

definition post :: "'w environment \<Rightarrow> string \<Rightarrow> string \<Rightarrow> ('w, load_body) load_prog \<Rightarrow> ('w, bool \<times> reply_body) load_prog" where
  "post env operation url body =
     and_then (draws (en_uuid env)) (\<lambda>key. and_then body (\<lambda>b.
       httpRequest env operation \<lparr>lc_method = ''POST'', lc_path = url, lc_idempotencyKey = Some key, lc_body = Some b\<rparr>))"

definition get_request :: "'w environment \<Rightarrow> string \<Rightarrow> string \<Rightarrow> ('w, bool \<times> reply_body) load_prog" where
  "get_request env operation url =
     httpRequest env operation \<lparr>lc_method = ''GET'', lc_path = url, lc_idempotencyKey = None, lc_body = None\<rparr>"

section \<open>Random choices\<close>

definition between :: "js_number \<Rightarrow> js_number \<Rightarrow> js_number \<Rightarrow> js_number" where
  "between random a b =
     (let lower = js_min a b; upper = js_max a b
      in js_add (js_floor (js_mul random (js_add (js_sub upper lower) (JsFin 1)))) lower)"

definition randomBetween :: "'w environment \<Rightarrow> js_number \<Rightarrow> js_number \<Rightarrow> ('w, js_number) load_prog" where
  "randomBetween env a b = and_then (draws (en_random env)) (\<lambda>random. returns (between random a b))"

fun pick_by_weight :: "js_number \<Rightarrow> js_number \<Rightarrow> (string \<times> js_number) list \<Rightarrow> string option" where
  "pick_by_weight target cumulative [] = None"
| "pick_by_weight target cumulative ((name, weight) # entries) =
     (let cumulative' = js_add cumulative weight
      in if js_le target cumulative' then Some name else pick_by_weight target cumulative' entries)"

text \<open>\<open>weightedPick\<close> of entries of which there is at least one.\<close>

definition weightedPick :: "'w environment \<Rightarrow> (string \<times> js_number) list \<Rightarrow> ('w, string) load_prog" where
  "weightedPick env weights =
     and_then (draws (en_random env)) (\<lambda>random.
       let total = fold (\<lambda>entry sum. js_add sum (snd entry)) weights (JsFin 0)
       in returns (case pick_by_weight (js_mul random total) (JsFin 0) weights of
            Some name \<Rightarrow> name | None \<Rightarrow> fst (last weights)))"

definition makeAccount :: "load_config \<Rightarrow> nat \<Rightarrow> load_account" where
  "makeAccount c sequence =
     \<lparr>la_accountId = lf_accountPrefix c @ ''-acc-'' @ show_nat sequence, la_ownerId = lf_accountPrefix c @ ''-owner-'' @ show_nat sequence,
      la_currency = lf_currency c, la_balance = JsFin 0, la_frozen = False\<rparr>"

definition makeTransfer :: "load_config \<Rightarrow> nat \<Rightarrow> string \<Rightarrow> string \<Rightarrow> js_number \<Rightarrow> load_transfer" where
  "makeTransfer c sequence source destination amount =
     \<lparr>lt_transferId = lf_accountPrefix c @ ''-trf-'' @ show_nat sequence, lt_sourceAccountId = source,
      lt_destinationAccountId = destination, lt_currency = lf_currency c, lt_amount = amount, lt_status = ''accepted''\<rparr>"

text \<open>The element at an index that is a number, if there is one.\<close>

definition element_at :: "'a list \<Rightarrow> js_number \<Rightarrow> 'a option" where
  "element_at xs i = (case i of JsFin a \<Rightarrow>
     if 0 \<le> a \<and> a = of_int \<lfloor>a\<rfloor> \<and> \<lfloor>a\<rfloor> < int (length xs) then Some (xs ! nat \<lfloor>a\<rfloor>) else None | _ \<Rightarrow> None)"

definition number_of :: "'a list \<Rightarrow> js_number" where
  "number_of xs = JsFin (of_nat (length xs))"

text \<open>\<open>xs.slice(0, n)\<close> for a number that is not negative.\<close>

definition first_of :: "'a list \<Rightarrow> js_number \<Rightarrow> 'a list" where
  "first_of xs n = (case n of JsFin a \<Rightarrow> take (nat \<lfloor>a\<rfloor>) xs | JsInf neg \<Rightarrow> if neg then [] else xs | JsNaN \<Rightarrow> [])"

text \<open>One of the pool, or of its hot accounts when there are several and the draw says so.\<close>

definition pick_from :: "'w environment \<Rightarrow> load_config \<Rightarrow> load_account list \<Rightarrow> ('w, load_account option) load_prog" where
  "pick_from env c pool =
     (let hotCount = js_max (JsFin 1) (js_floor (js_mul (number_of pool) (lf_hotAccountRatio c)))
      in and_then
           (if 1 < length pool then and_then (draws (en_random env)) (\<lambda>random. returns (js_less random (lf_hotSelectionRate c)))
            else returns False)
           (\<lambda>shouldUseHotPool.
              let selectionPool = (if shouldUseHotPool then first_of pool hotCount else pool)
              in and_then (randomBetween env (JsFin 0) (js_sub (number_of selectionPool) (JsFin 1)))
                   (\<lambda>i. returns (element_at selectionPool i))))"

definition pickAccount :: "'w environment \<Rightarrow> js_number \<Rightarrow> ('w, load_account option) load_prog" where
  "pickAccount env minimumBalance =
     and_then (asks ld_config) (\<lambda>c.
       let activeAccounts = filter (\<lambda>a. \<not> la_frozen a) (lf_accounts c);
           candidates = filter (\<lambda>a. js_le minimumBalance (la_balance a)) activeAccounts
       in if activeAccounts = [] then returns None
          else pick_from env c (if candidates \<noteq> [] then candidates else activeAccounts))"

definition pickDistinctAccountPair :: "'w environment \<Rightarrow> js_number \<Rightarrow> ('w, (load_account \<times> load_account option) option) load_prog" where
  "pickDistinctAccountPair env minimumBalance =
     and_then (pickAccount env minimumBalance) (\<lambda>source.
       case source of
         None \<Rightarrow> returns None
       | Some src \<Rightarrow>
           and_then (asks ld_config) (\<lambda>c.
             let destinationCandidates = filter (\<lambda>a. \<not> la_frozen a \<and> la_accountId a \<noteq> la_accountId src) (lf_accounts c)
             in if destinationCandidates = [] then returns None
                else and_then (pick_from env c destinationCandidates) (\<lambda>destination. returns (Some (src, destination)))))"

section \<open>Operations\<close>

text \<open>
  The accounts and transfers of the configuration are objects the operations share; here they are found again by their
  identifier, which is unique.
\<close>

definition set_balance :: "string \<Rightarrow> (js_number \<Rightarrow> js_number) \<Rightarrow> load_config \<Rightarrow> load_config" where
  "set_balance accountId f c =
     c\<lparr>lf_accounts := map (\<lambda>a. if la_accountId a = accountId then a\<lparr>la_balance := f (la_balance a)\<rparr> else a) (lf_accounts c)\<rparr>"

definition money_body :: "'w environment \<Rightarrow> js_number \<Rightarrow> string \<Rightarrow> ('w, load_body) load_prog" where
  "money_body env amount currency = and_then (draws (en_uuid env)) (\<lambda>transactionId. returns (MoneyBody amount currency transactionId))"

definition account_url :: "load_account \<Rightarrow> string \<Rightarrow> string" where
  "account_url account rest = ''/accounts/'' @ la_accountId account @ rest"

definition openAccount :: "'w environment \<Rightarrow> load_account \<Rightarrow> js_number \<Rightarrow> string \<Rightarrow> ('w, bool) load_prog" where
  "openAccount env account initialDeposit operationName =
     and_then (post env operationName ''/accounts''
        (returns (AccountBody (la_accountId account) (la_ownerId account) (la_currency account)))) (\<lambda>(ok, _).
       if \<not> ok then returns False
       else and_then (changes (\<lambda>c. c\<lparr>lf_accounts := lf_accounts c @ [account]\<rparr>)) (\<lambda>_.
         if js_less (JsFin 0) initialDeposit then
           and_then (post env ''seedDeposit'' (account_url account ''/deposits'') (money_body env initialDeposit (la_currency account)))
             (\<lambda>(ok, _). and_then
                (if ok then changes (set_balance (la_accountId account) (\<lambda>b. js_add b initialDeposit)) else returns ())
                (\<lambda>_. returns True))
         else returns True))"

text \<open>\<open>config.nextAccountSequence++\<close>\<close>

definition next_account :: "('w, load_account) load_prog" where
  "next_account =
     and_then (asks ld_config) (\<lambda>c.
       and_then (changes (\<lambda>c. c\<lparr>lf_nextAccountSequence := lf_nextAccountSequence c + 1\<rparr>))
         (\<lambda>_. returns (makeAccount c (lf_nextAccountSequence c))))"

definition runCreateAccount :: "'w environment \<Rightarrow> ('w, unit) load_prog" where
  "runCreateAccount env =
     and_then next_account (\<lambda>account. and_then (asks ld_config) (\<lambda>c.
       and_then (openAccount env account (lf_initialDeposit c) ''createAccount'') (\<lambda>_. returns ())))"

definition runDeposit :: "'w environment \<Rightarrow> ('w, unit) load_prog" where
  "runDeposit env =
     and_then (pickAccount env (JsFin 0)) (\<lambda>picked.
       case picked of
         None \<Rightarrow> runCreateAccount env
       | Some account \<Rightarrow>
           and_then (asks ld_config) (\<lambda>c.
           and_then (randomBetween env (lf_minAmount c) (lf_maxAmount c)) (\<lambda>amount.
           and_then (post env ''deposit'' (account_url account ''/deposits'') (money_body env amount (la_currency account))) (\<lambda>(ok, _).
             if ok then changes (set_balance (la_accountId account) (\<lambda>b. js_add b amount)) else returns ()))))"

definition runWithdrawal :: "'w environment \<Rightarrow> ('w, unit) load_prog" where
  "runWithdrawal env =
     and_then (asks ld_config) (\<lambda>c.
     and_then (pickAccount env (lf_minAmount c)) (\<lambda>picked.
       case picked of
         None \<Rightarrow> runDeposit env
       | Some account \<Rightarrow>
           let maxWithdrawal = js_max (lf_minAmount c) (js_min (lf_maxAmount c) (js_floor (la_balance account)))
           in and_then (randomBetween env (lf_minAmount c) maxWithdrawal) (\<lambda>amount.
              and_then (post env ''withdraw'' (account_url account ''/withdrawals'') (money_body env amount (la_currency account))) (\<lambda>(ok, _).
                if ok then changes (set_balance (la_accountId account) (\<lambda>b. js_max (JsFin 0) (js_sub b amount))) else returns ()))))"

definition runBalanceRead :: "'w environment \<Rightarrow> ('w, unit) load_prog" where
  "runBalanceRead env =
     and_then (pickAccount env (JsFin 0)) (\<lambda>picked.
       case picked of
         None \<Rightarrow> runCreateAccount env
       | Some account \<Rightarrow> and_then (get_request env ''getBalance'' (account_url account ''/balance'')) (\<lambda>_. returns ()))"

definition runHistoryRead :: "'w environment \<Rightarrow> ('w, unit) load_prog" where
  "runHistoryRead env =
     and_then (pickAccount env (JsFin 0)) (\<lambda>picked.
       case picked of
         None \<Rightarrow> runCreateAccount env
       | Some account \<Rightarrow> and_then (asks ld_config) (\<lambda>c.
           and_then (get_request env ''getHistory''
             (account_url account (''/history?limit='' @ js_to_string (lf_historyLimit c) @ ''&offset=0''))) (\<lambda>_. returns ())))"

text \<open>\<open>config.nextTransferSequence++\<close>\<close>

definition next_transfer :: "('w, nat) load_prog" where
  "next_transfer =
     and_then (asks (lf_nextTransferSequence \<circ> ld_config)) (\<lambda>n.
       and_then (changes (\<lambda>c. c\<lparr>lf_nextTransferSequence := lf_nextTransferSequence c + 1\<rparr>)) (\<lambda>_. returns n))"

definition undefined_read :: "string \<Rightarrow> js_error" where
  "undefined_read field =
     GenericError (''Cannot read properties of undefined (reading '' @ [CHR 0x27] @ field @ [CHR 0x27] @ '')'')"

text \<open>A destination the random index misses is \<open>undefined\<close>: reading its identifier throws, after the sequence was advanced.\<close>

definition runInitiateTransfer :: "'w environment \<Rightarrow> ('w, unit) load_prog" where
  "runInitiateTransfer env =
     and_then (asks ld_config) (\<lambda>c.
     and_then (pickDistinctAccountPair env (lf_minAmount c)) (\<lambda>pair.
       case pair of
         None \<Rightarrow> runCreateAccount env
       | Some (source, destination) \<Rightarrow>
           let maxAmount = js_max (lf_minAmount c) (js_min (lf_maxTransferAmount c) (js_floor (la_balance source)))
           in and_then (randomBetween env (lf_minAmount c) maxAmount) (\<lambda>amount.
              and_then next_transfer (\<lambda>sequence.
              case destination of
                None \<Rightarrow> throws (undefined_read ''accountId'')
              | Some dest \<Rightarrow>
                  let transfer = makeTransfer c sequence (la_accountId source) (la_accountId dest) amount
                  in and_then (post env ''initiateTransfer'' ''/transfers'' (returns
                         (TransferBody (lt_transferId transfer) (lt_sourceAccountId transfer) (lt_destinationAccountId transfer)
                            amount (lt_currency transfer)))) (\<lambda>(ok, _).
                       if ok then changes (\<lambda>c. c\<lparr>lf_transfers := lf_transfers c @ [transfer]\<rparr>) else returns ())))))"

definition isTransferTerminal :: "string \<Rightarrow> bool" where
  "isTransferTerminal status \<longleftrightarrow> List.member [''COMPLETED'', ''FAILED'', ''COMPENSATED''] status"

definition note_status :: "load_transfer \<Rightarrow> string option \<Rightarrow> load_config \<Rightarrow> load_config" where
  "note_status transfer answered c =
     (let status = (case answered of Some x \<Rightarrow> x | None \<Rightarrow> lt_status transfer);
          kept = map (\<lambda>t. if lt_transferId t = lt_transferId transfer then t\<lparr>lt_status := status\<rparr> else t) (lf_transfers c)
      in c\<lparr>lf_transfers := (if lf_removeCompletedTransfersFromPool c \<and> isTransferTerminal status
             then filter (\<lambda>t. lt_transferId t \<noteq> lt_transferId transfer) kept else kept)\<rparr>)"

definition runTransferStatusRead :: "'w environment \<Rightarrow> ('w, unit) load_prog" where
  "runTransferStatusRead env =
     and_then (asks (lf_transfers \<circ> ld_config)) (\<lambda>transfers.
       if transfers = [] then runInitiateTransfer env
       else and_then (randomBetween env (JsFin 0) (js_sub (number_of transfers) (JsFin 1))) (\<lambda>i.
         case element_at transfers i of
           None \<Rightarrow> throws (undefined_read ''transferId'')
         | Some transfer \<Rightarrow>
             and_then (get_request env ''getTransferStatus'' (''/transfers/'' @ lt_transferId transfer)) (\<lambda>(ok, body).
               case body of
                 JsonBody _ status _ \<Rightarrow> if ok then changes (note_status transfer status) else returns ()
               | _ \<Rightarrow> returns ())))"

section \<open>The worker and the start\<close>

definition run_operation :: "'w environment \<Rightarrow> string \<Rightarrow> ('w, unit) load_prog" where
  "run_operation env operation =
     (if operation = ''create'' then runCreateAccount env
      else if operation = ''deposit'' then runDeposit env
      else if operation = ''withdraw'' then runWithdrawal env
      else if operation = ''balance'' then runBalanceRead env
      else if operation = ''history'' then runHistoryRead env
      else if operation = ''transferInitiate'' then runInitiateTransfer env
      else if operation = ''transferStatus'' then runTransferStatusRead env
      else runBalanceRead env)"

text \<open>The loop of a worker, with fuel for its turns; \<open>None\<close> is a loop that the fuel does not see ended.\<close>

fun runWorker :: "nat \<Rightarrow> 'w environment \<Rightarrow> int \<Rightarrow> 'w load_state \<Rightarrow> (unit result \<times> 'w load_state) option" where
  "runWorker 0 env deadline s = None"
| "runWorker (Suc fuel) env deadline s =
     (case draws (en_now env) s of
        (Inr now, s1) \<Rightarrow>
          if \<not> now < deadline then Some (Inr (), s1)
          else (case and_then (weightedPick env (lf_operationWeights (ld_config s1))) (run_operation env) s1 of
                  (Inr _, s2) \<Rightarrow> runWorker fuel env deadline s2
                | (Inl e, s2) \<Rightarrow> Some (Inl e, s2))
      | (Inl e, s1) \<Rightarrow> Some (Inl e, s1))"

text \<open>The attempts of \<open>waitForHealth\<close>: the number of those that remain, and the number of the next.\<close>

fun health_attempts :: "'w environment \<Rightarrow> nat \<Rightarrow> nat \<Rightarrow> ('w, unit) load_prog" where
  "health_attempts env 0 attempt =
     and_then (asks ld_config) (\<lambda>c. throws (GenericError (''Service at '' @ lf_baseUrl c @ '' is not healthy after '' @
       js_to_string (lf_healthRetries c) @ '' attempts.'')))"
| "health_attempts env (Suc remaining) attempt =
     and_then (get_request env ''health'' ''/health'') (\<lambda>(ok, _).
       if ok then returns ()
       else and_then (asks ld_config) (\<lambda>c.
         and_then (if js_less (JsFin (of_nat attempt)) (lf_healthRetries c) then draws (en_sleep env (lf_healthRetryDelayMs c)) else returns ())
           (\<lambda>_. health_attempts env remaining (attempt + 1))))"

definition waitForHealth :: "'w environment \<Rightarrow> ('w, unit) load_prog" where
  "waitForHealth env =
     and_then (asks ld_config) (\<lambda>c. health_attempts env (case lf_healthRetries c of JsFin a \<Rightarrow> nat \<lfloor>a\<rfloor> | _ \<Rightarrow> 0) 1)"

text \<open>The configuration \<open>main\<close> builds from the arguments, the environment and the clock, with the duration.\<close>

definition load_setup :: "(string \<rightharpoonup> string) \<Rightarrow> (string \<rightharpoonup> string) \<Rightarrow> int \<Rightarrow> (js_number \<times> load_config) result" where
  "load_setup args env now =
     (let num = (\<lambda>key fallback. bind_result (readNumber args env key (js_round fallback))); str = readString args env
      in num ''duration'' 60 (\<lambda>durationSeconds. num ''workers'' 20 (\<lambda>workers. num ''accounts'' 100 (\<lambda>accounts.
         num ''seed-concurrency'' 10 (\<lambda>seedConcurrency. num ''initial-deposit'' 10000 (\<lambda>initialDeposit.
         num ''min-amount'' 100 (\<lambda>minAmount. num ''max-amount'' 1500 (\<lambda>maxAmount. num ''history-limit'' 20 (\<lambda>historyLimit.
         num ''hot-account-ratio'' (1 / 10) (\<lambda>hotAccountRatio. num ''hot-selection-rate'' (8 / 10) (\<lambda>hotSelectionRate.
         bind_result (readNumber args env ''max-transfer-amount'' maxAmount) (\<lambda>maxTransferAmount.
         num ''health-retries'' 10 (\<lambda>healthRetries. num ''health-retry-delay-ms'' 1500 (\<lambda>healthRetryDelayMs.
         num ''deposit-weight'' 35 (\<lambda>w1. num ''withdraw-weight'' 30 (\<lambda>w2. num ''balance-weight'' 20 (\<lambda>w3.
         num ''history-weight'' 10 (\<lambda>w4. num ''create-weight'' 5 (\<lambda>w5. num ''transfer-initiate-weight'' 0 (\<lambda>w6.
         num ''transfer-status-weight'' 0 (\<lambda>w7.
           Inr (durationSeconds,
             \<lparr>lf_baseUrl = sanitizeBaseUrl (str ''base-url'' ''http://localhost:8080/api''), lf_currency = str ''currency'' ''NGN'',
              lf_workers = workers, lf_seedAccounts = accounts, lf_seedConcurrency = seedConcurrency,
              lf_initialDeposit = initialDeposit, lf_minAmount = minAmount, lf_maxAmount = maxAmount, lf_historyLimit = historyLimit,
              lf_hotAccountRatio = hotAccountRatio, lf_hotSelectionRate = hotSelectionRate,
              lf_maxTransferAmount = maxTransferAmount, lf_healthRetries = healthRetries, lf_healthRetryDelayMs = healthRetryDelayMs,
              lf_removeCompletedTransfersFromPool = (str ''remove-completed-transfers-from-pool'' ''false'' = ''true''),
              lf_accountPrefix = ''load-'' @ show_int now, lf_nextAccountSequence = 1, lf_nextTransferSequence = 1,
              lf_accounts = [], lf_transfers = [], lf_metrics = new_load_metrics,
              lf_operationWeights = [(''deposit'', w1), (''withdraw'', w2), (''balance'', w3), (''history'', w4), (''create'', w5),
                (''transferInitiate'', w6), (''transferStatus'', w7)]\<rparr>))))))))))))))))))))))"

section \<open>What every operation keeps\<close>

text \<open>
  The totals of the metrics are those of the operations, every request counts one latency and one status, and the
  accounts and transfers have different identifiers, made from sequence numbers that were used: an identifier stands for
  one object.
\<close>

definition sum_of :: "('a \<Rightarrow> nat) \<Rightarrow> ('k \<times> 'a) list \<Rightarrow> nat" where
  "sum_of f m = sum_list (map (\<lambda>e. f (snd e)) m)"

definition stats_ok :: "operation_stats \<Rightarrow> bool" where
  "stats_ok x \<longleftrightarrow> length (op_latencies x) = op_completed x \<and> op_failed x \<le> op_completed x \<and>
     sum_of id (op_statuses x) = op_completed x \<and> sum_of id (op_errors x) \<le> op_failed x \<and>
     distinct (map fst (op_statuses x)) \<and> distinct (map fst (op_errors x))"

definition metrics_ok :: "load_metrics \<Rightarrow> bool" where
  "metrics_ok m \<longleftrightarrow> lm_completed m = sum_of op_completed (lm_byOperation m) \<and> lm_failed m = sum_of op_failed (lm_byOperation m) \<and>
     (\<forall>e\<in>set (lm_byOperation m). stats_ok (snd e)) \<and> distinct (map fst (lm_byOperation m))"

definition named_from :: "string \<Rightarrow> nat \<Rightarrow> string list \<Rightarrow> bool" where
  "named_from prefix n ids \<longleftrightarrow> distinct ids \<and> (\<forall>i\<in>set ids. \<exists>k<n. i = prefix @ show_nat k)"

definition load_inv :: "load_config \<Rightarrow> bool" where
  "load_inv c \<longleftrightarrow> metrics_ok (lf_metrics c) \<and>
     named_from (lf_accountPrefix c @ ''-acc-'') (lf_nextAccountSequence c) (map la_accountId (lf_accounts c)) \<and>
     named_from (lf_accountPrefix c @ ''-trf-'') (lf_nextTransferSequence c) (map lt_transferId (lf_transfers c))"

lemma sum_of_update:
  assumes "distinct (map fst m)"
  shows "sum_of f (AList.update k v m) + (case map_of m k of None \<Rightarrow> 0 | Some x \<Rightarrow> f x) = sum_of f m + f v"
  using assms by (induction m) (auto simp: sum_of_def split: option.splits dest: map_of_SomeD)

lemma sum_of_count: "distinct (map fst m) \<Longrightarrow> sum_of id (count_in k m) = Suc (sum_of id m)"
  using sum_of_update [of m id k "(case map_of m k of None \<Rightarrow> 0 | Some n \<Rightarrow> n) + 1"]
  by (cases "map_of m k") (auto simp: count_in_def)

lemma distinct_count: "distinct (map fst m) \<Longrightarrow> distinct (map fst (count_in k m))"
  by (simp add: count_in_def distinct_update)

text \<open>One more request in the statistics of an operation.\<close>

definition one_request :: "js_number \<Rightarrow> load_status \<Rightarrow> bool \<Rightarrow> string \<Rightarrow> operation_stats \<Rightarrow> operation_stats" where
  "one_request durationMs status ok message x =
     x\<lparr>op_completed := op_completed x + 1, op_failed := op_failed x + (if ok then 0 else 1),
       op_latencies := op_latencies x @ [durationMs], op_statuses := count_in status (op_statuses x),
       op_errors := (if message = '''' then op_errors x else count_in message (op_errors x))\<rparr>"

lemma one_request_counts [simp]:
  "op_completed (one_request durationMs status ok message x) = op_completed x + 1"
  "op_failed (one_request durationMs status ok message x) = op_failed x + (if ok then 0 else 1)"
  by (simp_all add: one_request_def)

lemma one_request_ok:
  assumes "stats_ok x" and "ok \<Longrightarrow> message = ''''"
  shows "stats_ok (one_request durationMs status ok message x)"
  using assms by (auto simp: stats_ok_def one_request_def sum_of_count distinct_count)

lemma set_update: "set (AList.update k v m) \<subseteq> insert (k, v) (set m)"
  by (induction m) auto

lemma record_request_ok:
  assumes "metrics_ok m" and "ok \<Longrightarrow> message = ''''"
  shows "metrics_ok (record_request operation durationMs status ok message m)"
proof -
  let ?x = "case map_of (lm_byOperation m) operation of None \<Rightarrow> no_stats | Some x \<Rightarrow> x"
  let ?y = "one_request durationMs status ok message ?x"
  have eq: "record_request operation durationMs status ok message m =
      m\<lparr>lm_completed := lm_completed m + 1, lm_failed := lm_failed m + (if ok then 0 else 1),
        lm_byOperation := AList.update operation ?y (lm_byOperation m)\<rparr>"
    by (simp add: record_request_def one_request_def Let_def)
  have x: "stats_ok ?x"
    using assms(1) by (auto simp: metrics_ok_def stats_ok_def no_stats_def sum_of_def split: option.splits dest: map_of_SomeD)
  have d: "distinct (map fst (lm_byOperation m))" using assms(1) by (simp add: metrics_ok_def)
  have "stats_ok ?y" using x assms(2) by (rule one_request_ok)
  then have "\<forall>e\<in>set (AList.update operation ?y (lm_byOperation m)). stats_ok (snd e)"
    using assms(1) set_update [of operation ?y "lm_byOperation m"] by (force simp: metrics_ok_def)
  moreover have "sum_of op_completed (AList.update operation ?y (lm_byOperation m)) = sum_of op_completed (lm_byOperation m) + 1"
    using sum_of_update [OF d, of op_completed operation ?y]
    by (cases "map_of (lm_byOperation m) operation") (simp_all add: no_stats_def del: split_paired_All)
  moreover have "sum_of op_failed (AList.update operation ?y (lm_byOperation m)) = sum_of op_failed (lm_byOperation m) + (if ok then 0 else 1)"
    using sum_of_update [OF d, of op_failed operation ?y]
    by (cases "map_of (lm_byOperation m) operation") (simp_all add: no_stats_def del: split_paired_All)
  ultimately show ?thesis
    using assms(1) d by (simp add: eq metrics_ok_def distinct_update)
qed

text \<open>Programs that keep a property of the configuration, whether they throw or not.\<close>

definition keeps :: "(load_config \<Rightarrow> bool) \<Rightarrow> ('w, 'a) load_prog \<Rightarrow> bool" where
  "keeps P m \<longleftrightarrow> (\<forall>s. P (ld_config s) \<longrightarrow> P (ld_config (snd (m s))))"

named_theorems keeps_intros \<open>what programs of the load generator keep\<close>

lemma keeps_plain [keeps_intros]:
  "keeps P (returns x)" "keeps P (throws e)" "keeps P (asks f)" "keeps P (draws g)"
  by (simp_all add: keeps_def draws_def split: prod.splits)

lemma keeps_and_then [keeps_intros]: "keeps P m \<Longrightarrow> (\<And>x. keeps P (k x)) \<Longrightarrow> keeps P (and_then m k)"
  by (fastforce simp: keeps_def and_then_def split: prod.splits sum.splits)

lemma keeps_changes [keeps_intros]: "(\<And>c. P c \<Longrightarrow> P (f c)) \<Longrightarrow> keeps P (changes f)"
  by (simp add: keeps_def changes_def)

lemma keeps_branches [keeps_intros]:
  "(b \<Longrightarrow> keeps P m) \<Longrightarrow> (\<not> b \<Longrightarrow> keeps P n) \<Longrightarrow> keeps P (if b then m else n)"
  "keeps P none \<Longrightarrow> (\<And>x. keeps P (some x)) \<Longrightarrow> keeps P (case v of None \<Rightarrow> none | Some x \<Rightarrow> some x)"
  "(\<And>a b. keeps P (h a b)) \<Longrightarrow> keeps P (case p of (a, b) \<Rightarrow> h a b)"
  "keeps P e \<Longrightarrow> (\<And>x. keeps P (t x)) \<Longrightarrow> (\<And>x y z. keeps P (j x y z)) \<Longrightarrow>
    keeps P (case body of EmptyBody \<Rightarrow> e | TextBody x \<Rightarrow> t x | JsonBody x y z \<Rightarrow> j x y z)"
  by (auto split: option.splits prod.splits reply_body.splits)

text \<open>The invariant, with a further property that the metrics have no part in.\<close>

definition with_ids :: "(load_config \<Rightarrow> bool) \<Rightarrow> load_config \<Rightarrow> bool" where
  "with_ids Q c \<longleftrightarrow> load_inv c \<and> Q c"

lemma keeps_httpRequest [keeps_intros]:
  assumes "\<And>c m. Q (c\<lparr>lf_metrics := m\<rparr>) = Q c"
  shows "keeps (with_ids Q) (httpRequest env operation call)"
  using assms
  by (auto simp: keeps_def with_ids_def load_inv_def httpRequest_def Let_def record_request_ok split: prod.splits sum.splits)

definition leads :: "(load_config \<Rightarrow> bool) \<Rightarrow> ('w, 'a) load_prog \<Rightarrow> (load_config \<Rightarrow> bool) \<Rightarrow> bool" where
  "leads P m Q \<longleftrightarrow> (\<forall>s. P (ld_config s) \<longrightarrow> Q (ld_config (snd (m s))))"

lemma leads_and_then:
  assumes "leads P m R" "\<And>c. R c \<Longrightarrow> Q c" "\<And>x. leads R (k x) Q"
  shows "leads P (and_then m k) Q"
  using assms by (fastforce simp: leads_def and_then_def split: prod.splits sum.splits)

lemma keeps_leads: "keeps P m \<Longrightarrow> leads P m P"
  by (simp add: keeps_def leads_def)

lemma leads_weaken: "keeps Q m \<Longrightarrow> (\<And>c. P c \<Longrightarrow> Q c) \<Longrightarrow> leads P m Q"
  by (simp add: keeps_def leads_def)

lemma leads_asks: "(\<And>c. P c \<Longrightarrow> leads (\<lambda>c'. P c' \<and> f c' = f c) (k (f c)) Q) \<Longrightarrow> leads P (and_then (asks (\<lambda>s. f (ld_config s))) k) Q"
  by (auto simp: leads_def and_then_def)

abbreviation run_inv :: "string \<Rightarrow> load_config \<Rightarrow> bool" where
  "run_inv p \<equiv> with_ids (\<lambda>c. lf_accountPrefix c = p)"

definition new_account :: "load_account \<Rightarrow> load_config \<Rightarrow> bool" where
  "new_account a c \<longleftrightarrow> la_accountId a \<notin> la_accountId ` set (lf_accounts c) \<and>
     (\<exists>k<lf_nextAccountSequence c. la_accountId a = lf_accountPrefix c @ ''-acc-'' @ show_nat k)"

definition new_transfer_id :: "string \<Rightarrow> load_config \<Rightarrow> bool" where
  "new_transfer_id i c \<longleftrightarrow> i \<notin> lt_transferId ` set (lf_transfers c) \<and>
     (\<exists>k<lf_nextTransferSequence c. i = lf_accountPrefix c @ ''-trf-'' @ show_nat k)"

lemma keeps_post [keeps_intros]:
  assumes "\<And>c m. Q (c\<lparr>lf_metrics := m\<rparr>) = Q c" "keeps (with_ids Q) body"
  shows "keeps (with_ids Q) (post env operation url body)"
  using assms unfolding post_def by (intro keeps_intros) auto

lemma keeps_get [keeps_intros]:
  assumes "\<And>c m. Q (c\<lparr>lf_metrics := m\<rparr>) = Q c"
  shows "keeps (with_ids Q) (get_request env operation url)"
  using assms unfolding get_request_def by (intro keeps_intros) auto

lemma keeps_choices [keeps_intros]:
  "keeps P (randomBetween env a b)"
  "keeps P (weightedPick env weights)"
  "keeps P (pick_from env c pool)"
  "keeps P (money_body env amount currency)"
  unfolding randomBetween_def weightedPick_def pick_from_def money_body_def Let_def by (intro keeps_intros)+

lemma keeps_pickAccount [keeps_intros]: "keeps P (pickAccount env least)"
  unfolding pickAccount_def Let_def by (intro keeps_intros)

lemma keeps_pickPair [keeps_intros]: "keeps P (pickDistinctAccountPair env least)"
  unfolding pickDistinctAccountPair_def Let_def by (intro keeps_intros)

lemma run_inv_balance: "run_inv p c \<Longrightarrow> run_inv p (set_balance a f c)"
  by (auto simp: with_ids_def load_inv_def set_balance_def comp_def if_distrib cong: if_cong)

lemma run_inv_open:
  assumes "with_ids (\<lambda>c. lf_accountPrefix c = p \<and> new_account a c) c"
  shows "run_inv p (c\<lparr>lf_accounts := lf_accounts c @ [a]\<rparr>)"
  using assms by (auto simp: with_ids_def load_inv_def named_from_def new_account_def)

lemma run_inv_transfer:
  assumes "with_ids (\<lambda>c. lf_accountPrefix c = p \<and> new_transfer_id (lt_transferId t) c) c"
  shows "run_inv p (c\<lparr>lf_transfers := lf_transfers c @ [t]\<rparr>)"
  using assms by (auto simp: with_ids_def load_inv_def named_from_def new_transfer_id_def)

lemma run_inv_status: "run_inv p c \<Longrightarrow> run_inv p (note_status t answered c)"
proof -
  let ?id = "lt_transferId" and ?f = "\<lambda>x u. if lt_transferId u = lt_transferId t then u\<lparr>lt_status := x\<rparr> else u"
  have same: "map ?id (map (?f x) ts) = map ?id ts" for x ts by (induction ts) auto
  have removed: "map ?id (filter (\<lambda>u. ?id u \<noteq> ?id t) ts) = filter (\<lambda>i. i \<noteq> ?id t) (map ?id ts)" for ts
    by (induction ts) auto
  have fewer: "named_from q n ids \<Longrightarrow> named_from q n (filter b ids)" for q n ids b by (auto simp: named_from_def)
  assume "run_inv p c"
  then show ?thesis
    by (auto simp: with_ids_def load_inv_def note_status_def Let_def same removed fewer simp del: map_map)
qed

lemma leads_next_account:
  fixes k :: "load_account \<Rightarrow> ('w, 'b) load_prog"
  assumes "\<And>a. leads (with_ids (\<lambda>c. lf_accountPrefix c = p \<and> new_account a c)) (k a) Q"
  shows "leads (run_inv p) (and_then next_account k) Q"
proof (unfold leads_def, intro allI impI)
  fix s :: "'w load_state"
  assume inv: "run_inv p (ld_config s)"
  let ?c = "ld_config s"
  let ?a = "makeAccount ?c (lf_nextAccountSequence ?c)" and ?d = "?c\<lparr>lf_nextAccountSequence := lf_nextAccountSequence ?c + 1\<rparr>"
  have "with_ids (\<lambda>c. lf_accountPrefix c = p \<and> new_account ?a c) ?d"
    using inv by (auto simp: with_ids_def load_inv_def new_account_def named_from_def makeAccount_def less_Suc_eq)
  then have "Q (ld_config (snd (k ?a (s\<lparr>ld_config := ?d\<rparr>))))"
    using assms [of ?a] by (simp add: leads_def)
  then show "Q (ld_config (snd (and_then next_account k s)))"
    by (simp add: next_account_def and_then_def changes_def)
qed

lemma leads_next_transfer:
  fixes k :: "nat \<Rightarrow> ('w, 'b) load_prog"
  assumes "\<And>n. leads (with_ids (\<lambda>c. lf_accountPrefix c = p \<and> new_transfer_id (p @ ''-trf-'' @ show_nat n) c)) (k n) Q"
  shows "leads (run_inv p) (and_then next_transfer k) Q"
proof (unfold leads_def, intro allI impI)
  fix s :: "'w load_state"
  assume inv: "run_inv p (ld_config s)"
  let ?c = "ld_config s"
  let ?n = "lf_nextTransferSequence ?c" and ?d = "?c\<lparr>lf_nextTransferSequence := lf_nextTransferSequence ?c + 1\<rparr>"
  have "with_ids (\<lambda>c. lf_accountPrefix c = p \<and> new_transfer_id (p @ ''-trf-'' @ show_nat ?n) c) ?d"
    using inv by (auto simp: with_ids_def load_inv_def new_transfer_id_def named_from_def less_Suc_eq)
  then have "Q (ld_config (snd (k ?n (s\<lparr>ld_config := ?d\<rparr>))))"
    using assms [of ?n] by (simp add: leads_def)
  then show "Q (ld_config (snd (and_then next_transfer k s)))"
    by (simp add: next_transfer_def and_then_def changes_def)
qed

lemma leads_openAccount:
  "leads (with_ids (\<lambda>c. lf_accountPrefix c = p \<and> new_account a c)) (openAccount env a initialDeposit name) (run_inv p)"
  unfolding openAccount_def
proof (rule leads_and_then [OF keeps_leads])
  show "keeps (with_ids (\<lambda>c. lf_accountPrefix c = p \<and> new_account a c))
      (post env name ''/accounts'' (returns (AccountBody (la_accountId a) (la_ownerId a) (la_currency a))))"
    by (intro keeps_intros) (simp add: new_account_def)
next
  fix answer :: "bool \<times> reply_body"
  have plain: "leads (with_ids (\<lambda>c. lf_accountPrefix c = p \<and> new_account a c)) (returns False) (run_inv p)"
    by (rule leads_weaken [OF keeps_plain(1)]) (simp add: with_ids_def)
  have pushed: "leads (with_ids (\<lambda>c. lf_accountPrefix c = p \<and> new_account a c))
      (changes (\<lambda>c. c\<lparr>lf_accounts := lf_accounts c @ [a]\<rparr>)) (run_inv p)"
    by (auto simp: leads_def changes_def intro: run_inv_open)
  show "leads (with_ids (\<lambda>c. lf_accountPrefix c = p \<and> new_account a c))
      (case answer of (ok, _) \<Rightarrow>
         if \<not> ok then returns False
         else and_then (changes (\<lambda>c. c\<lparr>lf_accounts := lf_accounts c @ [a]\<rparr>)) (\<lambda>_.
           if js_less (JsFin 0) initialDeposit then
             and_then (post env ''seedDeposit'' (account_url a ''/deposits'') (money_body env initialDeposit (la_currency a)))
               (\<lambda>(ok, _). and_then
                  (if ok then changes (set_balance (la_accountId a) (\<lambda>b. js_add b initialDeposit)) else returns ())
                  (\<lambda>_. returns True))
           else returns True)) (run_inv p)"
    by (cases answer, cases "fst answer")
      (auto simp: plain intro!: leads_and_then [OF pushed] keeps_leads keeps_intros run_inv_balance)
qed (simp add: with_ids_def)

lemma keeps_runCreateAccount [keeps_intros]: "keeps (run_inv p) (runCreateAccount env)"
proof -
  have "leads (run_inv p) (runCreateAccount env) (run_inv p)"
    unfolding runCreateAccount_def
  proof (rule leads_next_account)
    fix a
    have "leads (with_ids (\<lambda>c. lf_accountPrefix c = p \<and> new_account a c))
        (and_then (openAccount env a d ''createAccount'') (\<lambda>_. returns ())) (run_inv p)" for d
      by (rule leads_and_then [OF leads_openAccount]) (auto intro: keeps_leads keeps_plain)
    then show "leads (with_ids (\<lambda>c. lf_accountPrefix c = p \<and> new_account a c))
        (and_then (asks ld_config) (\<lambda>c. and_then (openAccount env a (lf_initialDeposit c) ''createAccount'') (\<lambda>_. returns ())))
        (run_inv p)"
      by (simp add: leads_def and_then_def)
  qed
  then show ?thesis by (simp add: leads_def keeps_def)
qed

lemma keeps_runDeposit [keeps_intros]: "keeps (run_inv p) (runDeposit env)"
  unfolding runDeposit_def by (intro keeps_intros) (auto intro: run_inv_balance)

lemma keeps_runWithdrawal [keeps_intros]: "keeps (run_inv p) (runWithdrawal env)"
  unfolding runWithdrawal_def Let_def by (intro keeps_intros) (auto intro: run_inv_balance)

lemma keeps_runBalanceRead [keeps_intros]: "keeps (run_inv p) (runBalanceRead env)"
  unfolding runBalanceRead_def by (intro keeps_intros) auto

lemma keeps_runHistoryRead [keeps_intros]: "keeps (run_inv p) (runHistoryRead env)"
  unfolding runHistoryRead_def by (intro keeps_intros) auto

lemma keeps_knowing_prefix:
  assumes "\<And>c. lf_accountPrefix c = p \<Longrightarrow> keeps (run_inv p) (k c)"
  shows "keeps (run_inv p) (and_then (asks ld_config) k)"
  using assms by (simp add: keeps_def and_then_def with_ids_def)

lemma keeps_numbered_transfer:
  assumes "\<And>n. leads (with_ids (\<lambda>c. lf_accountPrefix c = p \<and> new_transfer_id (p @ ''-trf-'' @ show_nat n) c)) (k n) (run_inv p)"
  shows "keeps (run_inv p) (and_then next_transfer k)"
  using leads_next_transfer [of p k "run_inv p"] assms by (simp add: keeps_def leads_def)

lemma keeps_runInitiateTransfer [keeps_intros]: "keeps (run_inv p) (runInitiateTransfer env)"
proof -
  have send: "leads (with_ids (\<lambda>c. lf_accountPrefix c = p \<and> new_transfer_id (lt_transferId t) c))
      (and_then (post env name url (returns b)) (\<lambda>(ok, _).
         if ok then changes (\<lambda>c. c\<lparr>lf_transfers := lf_transfers c @ [t]\<rparr>) else returns ())) (run_inv p)"
    for t :: load_transfer and name url b
  proof (rule leads_and_then [OF keeps_leads])
    show "keeps (with_ids (\<lambda>c. lf_accountPrefix c = p \<and> new_transfer_id (lt_transferId t) c)) (post env name url (returns b))"
      by (intro keeps_intros) (simp add: new_transfer_id_def)
  next
    fix answer :: "bool \<times> reply_body"
    show "leads (with_ids (\<lambda>c. lf_accountPrefix c = p \<and> new_transfer_id (lt_transferId t) c))
        (case answer of (ok, _) \<Rightarrow> if ok then changes (\<lambda>c. c\<lparr>lf_transfers := lf_transfers c @ [t]\<rparr>) else returns ()) (run_inv p)"
      by (cases answer, cases "fst answer") (auto simp: leads_def changes_def run_inv_transfer, simp add: with_ids_def)
  qed (simp add: with_ids_def)
  have throw: "leads (with_ids (\<lambda>c. lf_accountPrefix c = p \<and> Q c)) (throws e) (run_inv p)" for Q e
    by (simp add: leads_def with_ids_def)
  show ?thesis
    unfolding runInitiateTransfer_def Let_def
    apply (rule keeps_knowing_prefix, rule keeps_and_then [OF keeps_pickPair], rule keeps_branches(2) [OF keeps_runCreateAccount],
        rule keeps_branches(3), rule keeps_and_then [OF keeps_choices(1)], rule keeps_numbered_transfer)
    subgoal for c picked pair source destination amount n
      using send [of "makeTransfer c n (la_accountId source) (la_accountId (the destination)) amount"]
      by (cases destination) (auto simp: throw makeTransfer_def cong: if_cong)
    done
qed

lemma keeps_runTransferStatusRead [keeps_intros]: "keeps (run_inv p) (runTransferStatusRead env)"
  unfolding runTransferStatusRead_def by (intro keeps_intros) (auto intro: run_inv_status)

lemma keeps_run_operation [keeps_intros]: "keeps (run_inv p) (run_operation env operation)"
  unfolding run_operation_def by (intro keeps_intros)

lemma keeps_step: "keeps P m \<Longrightarrow> m s = (r, s') \<Longrightarrow> P (ld_config s) \<Longrightarrow> P (ld_config s')"
  unfolding keeps_def by (metis snd_conv)

text \<open>
  However long a worker runs, the totals it reports are those of the operations, and the identifiers it sends stand for
  different accounts and transfers.
\<close>

theorem worker_keeps_the_books:
  assumes "load_inv (ld_config s)" "runWorker fuel env deadline s = Some (r, s')"
  shows "load_inv (ld_config s') \<and> lf_accountPrefix (ld_config s') = lf_accountPrefix (ld_config s)"
proof -
  have "run_inv p (ld_config s')" if "run_inv p (ld_config s)" "runWorker fuel env deadline s = Some (r, s')" for p
    using that
  proof (induction fuel arbitrary: s)
    case 0
    then show ?case by simp
  next
    case (Suc fuel)
    have now: "keeps (run_inv p) (draws (en_now env))" by (rule keeps_plain)
    have turn: "keeps (run_inv p) (and_then (weightedPick env w) (run_operation env))" for w
      by (intro keeps_intros)
    from Suc.prems Suc.IH show ?case
      by (auto split: prod.splits sum.splits if_splits dest: keeps_step [OF now] keeps_step [OF turn])
  qed
  with assms show ?thesis by (simp add: with_ids_def)
qed

lemma setup_starts_well: "load_setup args env now = Inr (d, c) \<Longrightarrow> load_inv c"
  by (auto simp: load_setup_def Let_def bind_result_Inr_iff load_inv_def metrics_ok_def new_load_metrics_def sum_of_def
      named_from_def)

section \<open>A worker ends\<close>

text \<open>
  The hypothesis: there is a clock that no draw turns back, that a request advances, and that \<open>Date.now()\<close> shows.
\<close>

definition clock_law :: "('w \<Rightarrow> int) \<Rightarrow> 'w environment \<Rightarrow> bool" where
  "clock_law clock env \<longleftrightarrow>
     (\<forall>w. en_now env w = (clock w, w)) \<and>
     (\<forall>w. clock w \<le> clock (snd (en_random env w))) \<and>
     (\<forall>w. clock w \<le> clock (snd (en_uuid env w))) \<and>
     (\<forall>url call w. clock w < clock (snd (en_fetch env url call w)))"

definition waits :: "('w \<Rightarrow> int) \<Rightarrow> ('w, 'a) load_prog \<Rightarrow> bool" where
  "waits clock m \<longleftrightarrow> (\<forall>s. clock (ld_world s) \<le> clock (ld_world (snd (m s))))"

definition takes_time :: "('w \<Rightarrow> int) \<Rightarrow> ('w, 'a) load_prog \<Rightarrow> bool" where
  "takes_time clock m \<longleftrightarrow> (\<forall>s. clock (ld_world s) \<le> clock (ld_world (snd (m s))) \<and>
     (\<forall>x. fst (m s) = Inr x \<longrightarrow> clock (ld_world s) < clock (ld_world (snd (m s)))))"

named_theorems time_intros \<open>what programs of the load generator take in time\<close>

lemma waits_plain [time_intros]:
  "waits clock (returns x)" "waits clock (throws e)" "waits clock (asks f)" "waits clock (changes g)"
  by (simp_all add: waits_def changes_def)

lemma takes_time_throws [time_intros]: "takes_time clock (throws e)"
  by (simp add: takes_time_def)

lemma waits_draws [time_intros]:
  "clock_law clock env \<Longrightarrow> waits clock (draws (en_random env))" "clock_law clock env \<Longrightarrow> waits clock (draws (en_uuid env))"
  by (auto simp: waits_def clock_law_def draws_def split: prod.splits; metis snd_conv)+

lemma takes_time_waits: "takes_time clock m \<Longrightarrow> waits clock m"
  by (simp add: takes_time_def waits_def)

lemma waits_and_then [time_intros]: "waits clock m \<Longrightarrow> (\<And>x. waits clock (k x)) \<Longrightarrow> waits clock (and_then m k)"
  by (fastforce simp: waits_def and_then_def split: prod.splits sum.splits intro: order_trans)

lemma takes_time_first: "takes_time clock m \<Longrightarrow> (\<And>x. waits clock (k x)) \<Longrightarrow> takes_time clock (and_then m k)"
  unfolding takes_time_def waits_def and_then_def
  by (auto split: prod.splits sum.splits) (smt (verit) fst_conv snd_conv)+

lemma takes_time_later: "waits clock m \<Longrightarrow> (\<And>x. takes_time clock (k x)) \<Longrightarrow> takes_time clock (and_then m k)"
  unfolding takes_time_def waits_def and_then_def
  by (auto split: prod.splits sum.splits) (smt (verit) fst_conv snd_conv)+

lemma waits_branches [time_intros]:
  "(b \<Longrightarrow> waits clock m) \<Longrightarrow> (\<not> b \<Longrightarrow> waits clock n) \<Longrightarrow> waits clock (if b then m else n)"
  "waits clock none \<Longrightarrow> (\<And>x. waits clock (some x)) \<Longrightarrow> waits clock (case v of None \<Rightarrow> none | Some x \<Rightarrow> some x)"
  "(\<And>a b. waits clock (h a b)) \<Longrightarrow> waits clock (case p of (a, b) \<Rightarrow> h a b)"
  "waits clock e \<Longrightarrow> (\<And>x. waits clock (t x)) \<Longrightarrow> (\<And>x y z. waits clock (j x y z)) \<Longrightarrow>
    waits clock (case body of EmptyBody \<Rightarrow> e | TextBody x \<Rightarrow> t x | JsonBody x y z \<Rightarrow> j x y z)"
  by (auto split: option.splits prod.splits reply_body.splits)

lemma takes_time_branches:
  "(b \<Longrightarrow> takes_time clock m) \<Longrightarrow> (\<not> b \<Longrightarrow> takes_time clock n) \<Longrightarrow> takes_time clock (if b then m else n)"
  "takes_time clock none \<Longrightarrow> (\<And>x. takes_time clock (some x)) \<Longrightarrow> takes_time clock (case v of None \<Rightarrow> none | Some x \<Rightarrow> some x)"
  "(\<And>a b. takes_time clock (h a b)) \<Longrightarrow> takes_time clock (case p of (a, b) \<Rightarrow> h a b)"
  by (auto split: option.splits prod.splits)

lemma takes_time_httpRequest: "clock_law clock env \<Longrightarrow> takes_time clock (httpRequest env operation call)"
  unfolding takes_time_def httpRequest_def clock_law_def
  by (auto simp: Let_def split: prod.splits sum.splits) (metis snd_conv less_imp_le)+

lemma takes_time_get: "clock_law clock env \<Longrightarrow> takes_time clock (get_request env operation url)"
  unfolding get_request_def by (rule takes_time_httpRequest)

lemma takes_time_post:
  assumes "clock_law clock env" "waits clock body"
  shows "takes_time clock (post env operation url body)"
  unfolding post_def using assms
  by (intro takes_time_later takes_time_httpRequest time_intros)

lemma waits_requests [time_intros]:
  "clock_law clock env \<Longrightarrow> waits clock body \<Longrightarrow> waits clock (post env operation url body)"
  "clock_law clock env \<Longrightarrow> waits clock (get_request env operation url)"
  by (simp_all add: takes_time_waits takes_time_post takes_time_get)

lemma waits_choices [time_intros]:
  assumes "clock_law clock env"
  shows "waits clock (randomBetween env a b)"
    and "waits clock (weightedPick env weights)"
    and "waits clock (pick_from env c pool)"
    and "waits clock (money_body env amount currency)"
  unfolding randomBetween_def weightedPick_def pick_from_def money_body_def Let_def
  by (intro time_intros assms)+

lemma waits_picks [time_intros]:
  assumes "clock_law clock env"
  shows "waits clock (pickAccount env least)" and "waits clock (pickDistinctAccountPair env least)"
proof -
  show one: "waits clock (pickAccount env least)"
    unfolding pickAccount_def Let_def by (intro time_intros assms)
  show "waits clock (pickDistinctAccountPair env least)"
    unfolding pickDistinctAccountPair_def Let_def by (intro time_intros assms one)
qed

lemma waits_sequences [time_intros]: "waits clock next_account" "waits clock next_transfer"
  unfolding next_account_def next_transfer_def by (intro time_intros)+

lemma takes_time_openAccount:
  assumes "clock_law clock env"
  shows "takes_time clock (openAccount env account d name)"
  unfolding openAccount_def
  by (rule takes_time_first [OF takes_time_post]) (intro time_intros assms)+

lemma takes_time_runCreateAccount:
  assumes "clock_law clock env"
  shows "takes_time clock (runCreateAccount env)"
  unfolding runCreateAccount_def
  by (rule takes_time_later [OF waits_sequences(1)], rule takes_time_later [OF waits_plain(3)],
      rule takes_time_first [OF takes_time_openAccount [OF assms]]) (rule waits_plain)

text \<open>An operation that picks one account and sends one request, or else opens an account.\<close>

lemma takes_time_picked:
  assumes "clock_law clock env" "takes_time clock other" "\<And>a. takes_time clock (use a)"
  shows "takes_time clock (and_then (pickAccount env least) (\<lambda>picked. case picked of None \<Rightarrow> other | Some a \<Rightarrow> use a))"
  using assms by (intro takes_time_later waits_picks takes_time_branches)

lemma takes_time_runDeposit:
  assumes "clock_law clock env"
  shows "takes_time clock (runDeposit env)"
  unfolding runDeposit_def
  by (intro takes_time_picked takes_time_runCreateAccount assms)
    (rule takes_time_later [OF waits_plain(3)], rule takes_time_later [OF waits_choices(1) [OF assms]],
     rule takes_time_first [OF takes_time_post], (intro time_intros assms)+)

lemma takes_time_runWithdrawal:
  assumes "clock_law clock env"
  shows "takes_time clock (runWithdrawal env)"
  unfolding runWithdrawal_def Let_def
  by (rule takes_time_later [OF waits_plain(3)], intro takes_time_picked takes_time_runDeposit assms)
    (rule takes_time_later [OF waits_choices(1) [OF assms]], rule takes_time_first [OF takes_time_post], (intro time_intros assms)+)

lemma takes_time_reads:
  assumes "clock_law clock env"
  shows "takes_time clock (runBalanceRead env)" and "takes_time clock (runHistoryRead env)"
  unfolding runBalanceRead_def runHistoryRead_def
  by (intro takes_time_picked takes_time_runCreateAccount takes_time_first takes_time_get assms waits_plain
      takes_time_later [OF waits_plain(3)])+

lemma takes_time_runInitiateTransfer:
  assumes "clock_law clock env"
  shows "takes_time clock (runInitiateTransfer env)"
  unfolding runInitiateTransfer_def Let_def
  by (rule takes_time_later [OF waits_plain(3)], rule takes_time_later [OF waits_picks(2) [OF assms]],
      intro takes_time_branches takes_time_runCreateAccount assms takes_time_later [OF waits_choices(1) [OF assms]]
        takes_time_later [OF waits_sequences(2)] takes_time_throws takes_time_first [OF takes_time_post] waits_branches waits_plain)

lemma takes_time_runTransferStatusRead:
  assumes "clock_law clock env"
  shows "takes_time clock (runTransferStatusRead env)"
  unfolding runTransferStatusRead_def
  by (rule takes_time_later [OF waits_plain(3)],
      intro takes_time_branches takes_time_runInitiateTransfer assms takes_time_later [OF waits_choices(1) [OF assms]]
        takes_time_throws takes_time_first [OF takes_time_get] waits_branches waits_plain)

lemma takes_time_run_operation: "clock_law clock env \<Longrightarrow> takes_time clock (run_operation env operation)"
  unfolding run_operation_def
  by (simp add: takes_time_runCreateAccount takes_time_runDeposit takes_time_runWithdrawal takes_time_reads
      takes_time_runInitiateTransfer takes_time_runTransferStatusRead)

text \<open>A worker ends at its deadline: as many turns as there are milliseconds left are enough, and one to see the end.\<close>

theorem worker_ends:
  assumes law: "clock_law clock env" and fuel: "deadline - clock (ld_world s) < int fuel" and "0 < fuel"
  shows "\<exists>r s'. runWorker fuel env deadline s = Some (r, s')"
  using fuel \<open>0 < fuel\<close>
proof (induction fuel arbitrary: s)
  case 0
  then show ?case by simp
next
  case (Suc fuel)
  have now: "draws (en_now env) s = (Inr (clock (ld_world s)), s)"
    using law by (simp add: draws_def clock_law_def)
  show ?case
  proof (cases "clock (ld_world s) < deadline")
    case False
    then show ?thesis by (simp add: now)
  next
    case True
    let ?turn = "and_then (weightedPick env (lf_operationWeights (ld_config s))) (run_operation env)"
    obtain r s2 where turn: "?turn s = (r, s2)" by (cases "?turn s")
    have time: "takes_time clock ?turn"
      by (rule takes_time_later [OF waits_choices(2) [OF law] takes_time_run_operation [OF law]])
    show ?thesis
    proof (cases r)
      case (Inl e)
      then show ?thesis using True by (simp add: now turn)
    next
      case (Inr x)
      with time turn have "clock (ld_world s) < clock (ld_world s2)"
        unfolding takes_time_def by (metis fst_conv snd_conv)
      with Suc.prems True have "deadline - clock (ld_world s2) < int fuel" "0 < fuel" by auto
      with Suc.IH show ?thesis using True Inr by (simp add: now turn)
    qed
  qed
qed

section \<open>Choices and percentiles\<close>



text \<open>Weights are walked in order: what is picked is one of the names, whatever the draw.\<close>

lemma pick_by_weight_name: "pick_by_weight target c entries = Some name \<Longrightarrow> name \<in> fst ` set entries"
  by (induction target c entries rule: pick_by_weight.induct) (auto simp: Let_def split: if_splits)

lemma element_at_member: "element_at xs i = Some x \<Longrightarrow> x \<in> set xs"
  by (auto simp: element_at_def split: js_number.splits if_splits)

lemma first_of_subset: "x \<in> set (first_of xs n) \<Longrightarrow> x \<in> set xs"
  by (auto simp: first_of_def dest: in_set_takeD split: js_number.splits if_splits)

lemma pick_from_member:
  assumes "pick_from env c pool s = (Inr (Some a), s')"
  shows "a \<in> set pool"
  using assms
  by (auto simp: pick_from_def Let_def dest!: element_at_member elim!: and_then_InrE split: if_splits dest: first_of_subset)

lemma pickAccount_active:
  assumes "pickAccount env least s = (Inr (Some a), s')"
  shows "a \<in> set (lf_accounts (ld_config s)) \<and> \<not> la_frozen a \<and> ld_config s' = ld_config s"
proof -
  have "keeps (\<lambda>c. c = ld_config s) (pickAccount env least)" by (rule keeps_pickAccount)
  then have "ld_config s' = ld_config s" using keeps_step assms by fastforce
  with assms show ?thesis
    by (auto simp: pickAccount_def Let_def and_then_def dest!: pick_from_member split: if_splits)
qed

text \<open>A transfer goes from an account that is active to another one.\<close>

theorem transfers_have_two_ends:
  assumes "pickDistinctAccountPair env least s = (Inr (Some (source, Some destination)), s')"
  shows "{source, destination} \<subseteq> set (lf_accounts (ld_config s)) \<and> \<not> la_frozen source \<and> \<not> la_frozen destination \<and>
    la_accountId destination \<noteq> la_accountId source"
proof -
  obtain picked s1 where p: "pickAccount env least s = (Inr picked, s1)"
    and rest: "(case picked of None \<Rightarrow> returns None | Some src \<Rightarrow>
      and_then (asks ld_config) (\<lambda>c.
        let destinationCandidates = filter (\<lambda>a. \<not> la_frozen a \<and> la_accountId a \<noteq> la_accountId src) (lf_accounts c)
        in if destinationCandidates = [] then returns None
           else and_then (pick_from env c destinationCandidates) (\<lambda>destination. returns (Some (src, destination))))) s1
      = (Inr (Some (source, Some destination)), s')"
    using assms unfolding pickDistinctAccountPair_def by (rule and_then_InrE) blast
  from rest have "picked = Some source"
    by (auto simp: Let_def split: option.splits if_splits elim!: and_then_InrE)
  with p rest show ?thesis
    using pickAccount_active [of env least s source s1]
    by (auto simp: Let_def split: if_splits elim!: and_then_InrE dest!: pick_from_member)
qed

text \<open>A percentile of some values is one of them.\<close>

lemma percentile_member:
  assumes "xs \<noteq> []" "js_ceil (js_mul (js_round (of_nat p / 100)) (JsFin (of_nat (length xs)))) = JsFin r"
  shows "percentile xs p \<in> set xs"
proof -
  have "nat (min (int (length xs) - 1) (max 0 (\<lfloor>r\<rfloor> - 1))) < length xs" using assms(1) by (cases xs) auto
  with assms show ?thesis by (simp add: percentile_def)
qed

lemma sample_numbers:
  "number_of_text '' 0x1F '' = JsFin 31" "number_of_text '''' = JsFin 0" "number_of_text ''-2.5e1'' = JsFin (- 25)"
  "number_of_text ''12a'' = JsNaN"
  by code_simp+

end
